(* ===== verification/BoltPrelude.thy ===== *)
theory BoltPrelude
  imports Main "HOL-Library.Word" "HOL-Library.Char_ord" "HOL-Library.List_Lexorder"
    "HOL-Library.Sublist"
begin

text \<open>
  Shared vocabulary of the development: Go byte slices and strings as \<^typ>\<open>string\<close>,
  the decimal conversions of Go's \<^verbatim>\<open>strconv\<close> and \<^verbatim>\<open>fmt\<close>, the 8-byte big-endian encoding
  of \<^verbatim>\<open>encoding/binary\<close> (used by \<^verbatim>\<open>internal/helper/tools.go\<close> and \<^verbatim>\<open>repl_log.go\<close>), and the list
  lemmas several components use.
\<close>

type_synonym bytes = string
type_synonym u16 = "16 word"
type_synonym u32 = "32 word"
type_synonym u64 = "64 word"

named_theorems key_simps \<open>shape of the storage keys\<close>
named_theorems txn_simps \<open>running a transaction step on the abstract key-value map\<close>

abbreviation CR :: char where "CR \<equiv> CHR 0x0D"
abbreviation LF :: char where "LF \<equiv> CHR 0x0A"
abbreviation crlf :: bytes where "crlf \<equiv> [CR, LF]"

subsection \<open>Decimal numbers: strconv.Itoa, FormatInt, FormatUint, Atoi, ParseInt, ParseUint\<close>

definition digit_char :: "nat \<Rightarrow> char" where
  "digit_char d = char_of (48 + d)"

definition is_digit :: "char \<Rightarrow> bool" where
  "is_digit c \<longleftrightarrow> 48 \<le> (of_char c :: nat) \<and> (of_char c :: nat) \<le> 57"

definition digit_val :: "char \<Rightarrow> nat" where
  "digit_val c = of_char c - 48"

fun utoa :: "nat \<Rightarrow> bytes" where
  "utoa n = (if n < 10 then [digit_char n] else utoa (n div 10) @ [digit_char (n mod 10)])"

declare utoa.simps [simp del]

definition itoa :: "int \<Rightarrow> bytes" where
  "itoa i = (if i < 0 then CHR ''-'' # utoa (nat (- i)) else utoa (nat i))"

definition digits_val :: "bytes \<Rightarrow> nat" where
  "digits_val ds = foldl (\<lambda>a c. a * 10 + digit_val c) 0 ds"

definition parse_digits :: "bytes \<Rightarrow> nat option" where
  "parse_digits s = (if s \<noteq> [] \<and> list_all is_digit s then Some (digits_val s) else None)"

definition max_int64 :: int where "max_int64 = 2 ^ 63 - 1"
definition min_int64 :: int where "min_int64 = - (2 ^ 63)"

text \<open>Base-10 \<^verbatim>\<open>strconv.Atoi\<close> and \<^verbatim>\<open>ParseInt(s, 10, 64)\<close>: an optional sign, at least one digit,
  nothing else, and a range error outside \<^verbatim>\<open>int64\<close>.\<close>

definition parse_int :: "bytes \<Rightarrow> int option" where
  "parse_int s =
     (let (neg, ds) = (case s of
          [] \<Rightarrow> (False, [])
        | c # r \<Rightarrow> if c = CHR ''-'' then (True, r) else if c = CHR ''+'' then (False, r)
                  else (False, c # r))
      in case parse_digits ds of
           None \<Rightarrow> None
         | Some n \<Rightarrow>
             let v = (if neg then - int n else int n)
             in if min_int64 \<le> v \<and> v \<le> max_int64 then Some v else None)"

text \<open>\<^verbatim>\<open>strconv.ParseUint(s, 10, 64)\<close>: digits only, below \<open>2 ^ 64\<close>.\<close>

definition parse_uint :: "bytes \<Rightarrow> u64 option" where
  "parse_uint s = (case parse_digits s of
      None \<Rightarrow> None
    | Some n \<Rightarrow> if n < 2 ^ 64 then Some (word_of_nat n) else None)"

lemma of_char_digit_char: "d < 10 \<Longrightarrow> (of_char (digit_char d) :: nat) = 48 + d"
  by (simp add: digit_char_def)

lemma digit_char_eval [simp]:
  "digit_char 0 = CHR ''0''" "digit_char (Suc 0) = CHR ''1''" "digit_char 1 = CHR ''1''"
  "digit_char 2 = CHR ''2''" "digit_char 3 = CHR ''3''" "digit_char 4 = CHR ''4''"
  "digit_char 5 = CHR ''5''" "digit_char 6 = CHR ''6''" "digit_char 7 = CHR ''7''"
  "digit_char 8 = CHR ''8''" "digit_char 9 = CHR ''9''"
  by code_simp+

lemma is_digit_digit_char [simp]: "d < 10 \<Longrightarrow> is_digit (digit_char d)"
  by (simp add: is_digit_def of_char_digit_char)

lemma digit_val_digit_char [simp]: "d < 10 \<Longrightarrow> digit_val (digit_char d) = d"
  by (simp add: digit_val_def of_char_digit_char)

lemma is_digit_neq:
  "is_digit c \<Longrightarrow> c \<noteq> CHR ''-''" "is_digit c \<Longrightarrow> c \<noteq> CHR ''+''"
  "is_digit c \<Longrightarrow> c \<noteq> CR" "is_digit c \<Longrightarrow> c \<noteq> LF" "is_digit c \<Longrightarrow> c \<noteq> CHR '':''"
  by (auto simp: is_digit_def)

lemma digits_val_snoc: "digits_val (ds @ [c]) = digits_val ds * 10 + digit_val c"
  by (simp add: digits_val_def)

lemma utoa_nonempty [simp]: "utoa n \<noteq> []"
  by (subst utoa.simps) simp

lemma utoa_digits: "list_all is_digit (utoa n)"
proof (induction n rule: utoa.induct)
  case (1 n)
  then show ?case by (subst utoa.simps) simp
qed

lemma digits_val_utoa: "digits_val (utoa n) = n"
proof (induction n rule: utoa.induct)
  case (1 n)
  show ?case
  proof (cases "n < 10")
    case True
    then show ?thesis by (subst utoa.simps) (simp add: digits_val_def)
  next
    case False
    with 1 show ?thesis by (subst utoa.simps) (simp add: digits_val_snoc)
  qed
qed

lemma parse_digits_utoa [simp]: "parse_digits (utoa n) = Some n"
  by (simp add: parse_digits_def utoa_digits digits_val_utoa)

lemma utoa_inject [simp]: "utoa m = utoa n \<longleftrightarrow> m = n"
  by (metis digits_val_utoa)

lemma utoa_set: "c \<in> set (utoa n) \<Longrightarrow> is_digit c"
  using utoa_digits [of n] by (simp add: list_all_iff)

lemma utoa_no_crlf [simp]: "CR \<notin> set (utoa n)" "LF \<notin> set (utoa n)" "CHR '':'' \<notin> set (utoa n)"
  using utoa_set is_digit_neq by blast+

lemma parse_int_utoa:
  assumes "int n \<le> max_int64"
  shows "parse_int (utoa n) = Some (int n)"
proof -
  obtain c r where cr: "utoa n = c # r" by (cases "utoa n") simp_all
  then have "is_digit c" using utoa_set [of c n] by simp
  then have "c \<noteq> CHR ''-''" "c \<noteq> CHR ''+''" by (auto dest: is_digit_neq)
  moreover have "parse_digits (c # r) = Some n" using cr parse_digits_utoa [of n] by simp
  moreover have "min_int64 \<le> int n" by (simp add: min_int64_def)
  ultimately show ?thesis using assms cr by (simp add: parse_int_def Let_def)
qed

lemma parse_int_itoa:
  assumes "min_int64 \<le> i" "i \<le> max_int64"
  shows "parse_int (itoa i) = Some i"
proof (cases "i < 0")
  case True
  with assms show ?thesis by (simp add: itoa_def parse_int_def Let_def)
next
  case False
  with assms parse_int_utoa [of "nat i"] show ?thesis by (simp add: itoa_def)
qed

lemma parse_uint_utoa [simp]: "parse_uint (utoa (unat (w :: u64))) = Some w"
  using unsigned_less [of w] by (simp add: parse_uint_def)

lemma utoa_length_bound: "n < 10 ^ Suc k \<Longrightarrow> length (utoa n) \<le> Suc k"
proof (induction k arbitrary: n)
  case 0
  then show ?case by (subst utoa.simps) simp
next
  case (Suc k)
  then have "length (utoa (n div 10)) \<le> Suc k" by (simp add: less_mult_imp_div_less)
  then show ?case by (subst utoa.simps) simp
qed

subsection \<open>Big-endian integers: encoding/binary\<close>

fun be_bytes :: "nat \<Rightarrow> nat \<Rightarrow> bytes" where
  "be_bytes 0 n = []"
| "be_bytes (Suc k) n = be_bytes k (n div 256) @ [char_of (n mod 256)]"

definition be_val :: "bytes \<Rightarrow> nat" where
  "be_val bs = foldl (\<lambda>a c. a * 256 + of_char c) 0 bs"

text \<open>\<^verbatim>\<open>binary.BigEndian.PutUint64\<close> on a fresh 8-byte slice and \<^verbatim>\<open>binary.BigEndian.Uint64\<close> on (at
  least) 8 bytes; then the two helpers of \<^verbatim>\<open>internal/helper/tools.go\<close>.\<close>

definition put_be64 :: "u64 \<Rightarrow> bytes" where
  "put_be64 n = be_bytes 8 (unat n)"

definition get_be64 :: "bytes \<Rightarrow> u64" where
  "get_be64 bs = word_of_nat (be_val (take 8 bs))"

definition Uint64ToBytes :: "u64 \<Rightarrow> bytes" where
  "Uint64ToBytes n = put_be64 n"

definition BytesToUint64 :: "bytes \<Rightarrow> u64" where
  "BytesToUint64 b = (if length b \<noteq> 8 then 0 else get_be64 b)"

lemma be_val_snoc [simp]: "be_val (bs @ [c]) = be_val bs * 256 + of_char c"
  by (simp add: be_val_def)

lemma be_val_Nil [simp]: "be_val [] = 0"
  by (simp add: be_val_def)

lemma length_be_bytes [simp]: "length (be_bytes k n) = k"
  by (induction k n rule: be_bytes.induct) simp_all

lemma of_char_less_256 [simp]: "(of_char c :: nat) < 256"
  using of_char_mod_256 [of c, where 'a = nat] by (metis mod_less_divisor zero_less_numeral)

lemma be_val_be_bytes: "be_val (be_bytes k n) = n mod 256 ^ k"
proof (induction k n rule: be_bytes.induct)
  case (2 k n)
  then show ?case by (simp add: mod_mult2_eq [of n 256 "256 ^ k"] algebra_simps)
qed simp

lemma be_bytes_be_val: "be_bytes (length bs) (be_val bs) = bs"
  by (induction bs rule: rev_induct) simp_all

lemma be_val_less: "be_val bs < 256 ^ length bs"
proof (induction bs rule: rev_induct)
  case (snoc c bs)
  have "be_val bs * 256 + of_char c < be_val bs * 256 + 256" by simp
  also have "\<dots> \<le> 256 ^ length bs * 256" using snoc by (simp add: algebra_simps flip: mult_Suc_right)
  finally show ?case by simp
qed simp

lemma be_val_Cons: "be_val (c # bs) = of_char c * 256 ^ length bs + be_val bs"
  by (induction bs rule: rev_induct) (simp_all add: be_val_def algebra_simps)

text \<open>Byte order on equally long strings is numerical order: a prefix scan over big-endian suffixes
  runs in increasing order of the numbers.\<close>

lemma be_val_less_iff: "length bs = length cs \<Longrightarrow> be_val bs < be_val cs \<longleftrightarrow> bs < (cs :: bytes)"
proof (induction bs cs rule: list_induct2)
  case (Cons b bs c cs)
  let ?P = "256 ^ length cs :: nat"
  have bnd: "be_val bs < ?P" "be_val cs < ?P" using be_val_less [of bs] be_val_less [of cs] Cons by simp_all
  have step: "x * ?P + u < y * ?P + v" if "x < y" "u < ?P" for x y u v :: nat
  proof -
    have "x * ?P + u < Suc x * ?P" using that by simp
    also have "\<dots> \<le> y * ?P" using that by (intro mult_right_mono) auto
    finally show ?thesis by simp
  qed
  show ?case
    using Cons step [of "of_char b" "of_char c" "be_val bs" "be_val cs"]
      step [of "of_char c" "of_char b" "be_val cs" "be_val bs"] bnd
    by (cases "of_char b :: nat" "of_char c :: nat" rule: linorder_cases)
      (auto simp: be_val_Cons less_char_def dest: order.strict_trans)
qed simp

lemma length_put_be64 [simp]: "length (put_be64 n) = 8" "length (Uint64ToBytes n) = 8"
  by (simp_all add: put_be64_def Uint64ToBytes_def)

lemma be_val_put_be64 [simp]: "be_val (put_be64 n) = unat n"
proof -
  have "unat n < 2 ^ 64" using unsigned_less [of n] by simp
  then show ?thesis by (simp add: put_be64_def be_val_be_bytes)
qed

lemma get_put_be64 [simp]: "get_be64 (put_be64 n @ r) = n" "get_be64 (put_be64 n) = n"
  by (simp_all add: get_be64_def)

lemma put_get_be64: "length bs = 8 \<Longrightarrow> put_be64 (get_be64 bs) = bs"
  using be_val_less [of bs] be_bytes_be_val [of bs]
  by (simp add: put_be64_def get_be64_def unat_of_nat take_bit_nat_eq_self)

lemma BytesToUint64_inverse [simp]: "BytesToUint64 (Uint64ToBytes n) = n"
  by (simp add: BytesToUint64_def Uint64ToBytes_def)

lemma put_be64_less_iff: "put_be64 m < put_be64 n \<longleftrightarrow> m < n"
  by (simp add: word_less_nat_alt flip: be_val_less_iff)

lemma put_be64_le_iff: "put_be64 m \<le> put_be64 n \<longleftrightarrow> m \<le> n"
  by (simp add: put_be64_less_iff flip: linorder_not_less)

lemma put_be64_inject [simp]: "put_be64 m = put_be64 n \<longleftrightarrow> m = n"
  by (metis get_put_be64(2))

lemma append_less_iff: "p @ xs < p @ ys \<longleftrightarrow> xs < (ys :: bytes)"
  by (induction p) auto

lemma append_le_iff: "p @ xs \<le> p @ ys \<longleftrightarrow> xs \<le> (ys :: bytes)"
  by (induction p) auto

end
