(* ===== verification/Resp.thy ===== *)
theory Resp
  imports BoltPrelude
begin

text \<open>
  The RESP wire protocol of \<^verbatim>\<open>internal/proto/resp.go\<close>: the reply types and their two printers
  (\<^verbatim>\<open>String\<close> and \<^verbatim>\<open>WriteRESP\<close>), the request reader \<^verbatim>\<open>ReadRESP\<close> with its limits, the inline command
  splitter, and the lemmas that the reader inverts the printer, never reads past one request and
  never returns more than its limits allow.

  A reader is the list of bytes still to come (the connection ends after them); a writer is a
  trace of \<^verbatim>\<open>Write\<close> and \<^verbatim>\<open>Flush\<close> calls that is then run on any writer. \<^verbatim>\<open>strconv.FormatFloat\<close> is the
  argument \<open>fmtF\<close> of the two printers, over an arbitrary type of doubles.
\<close>

section \<open>Limits and errors\<close>

record limits =
  MaxBulkLen :: int
  MaxArrayLen :: int
  MaxLineLen :: int

definition default_limits :: limits where
  "default_limits = \<lparr>MaxBulkLen = 64 * 1024 * 1024, MaxArrayLen = 1024 * 1024,
                     MaxLineLen = 64 * 1024 * 1024\<rparr>"

definition SetMaxBulkLen :: "int \<Rightarrow> limits \<Rightarrow> limits" where
  "SetMaxBulkLen n lim = (if n > 0 then lim\<lparr>MaxBulkLen := n\<rparr> else lim)"

datatype resp_error =
    EOF
  | UnexpectedEOF
  | LineTooLong nat
  | EmptyLine
  | InvalidArrayPrefix
  | InvalidArrayLength bytes
  | ArrayTooLarge int
  | EmptyElement
  | AtoiError bytes
  | InvalidBulkLength bytes
  | BulkTooLarge int
  | UnexpectedElement char
  | InvalidSimpleString
  | InvalidErrorFormat
  | EmptyInlineCommand

section \<open>Reply types and their printers\<close>

text \<open>A byte slice that may be \<^verbatim>\<open>nil\<close> is a \<^typ>\<open>bytes option\<close>. \<open>NilResp\<close> is the nil interface value.\<close>

datatype 'f resp =
    NilResp
  | Array "bytes option list"
  | BulkString "bytes option"
  | NilArray
  | SimpleString bytes
  | Error bytes
  | Integer int
  | NestedArray "'f resp list"
  | RMap "'f resp list"
  | RSet "'f resp list"
  | Push "'f resp list"
  | Null
  | Double 'f
  | Boolean bool
  | BigNumber bytes
  | VerbatimString bytes bytes
  | RawString bytes

definition bulk_string :: "bytes option \<Rightarrow> bytes" where
  "bulk_string b = (case b of
      None \<Rightarrow> ''$-1'' @ crlf
    | Some v \<Rightarrow> ''$'' @ utoa (length v) @ crlf @ v @ crlf)"

definition joinBulkStrings :: "bytes option list \<Rightarrow> bytes" where
  "joinBulkStrings args = concat (map bulk_string args)"

definition Array_String :: "bytes option list \<Rightarrow> bytes" where
  "Array_String args = ''*'' @ utoa (length args) @ crlf @ joinBulkStrings args"

fun concat_opt :: "'a list option list \<Rightarrow> 'a list option" where
  "concat_opt [] = Some []"
| "concat_opt (x # xs) = (case x of None \<Rightarrow> None
     | Some a \<Rightarrow> (case concat_opt xs of None \<Rightarrow> None | Some b \<Rightarrow> Some (a @ b)))"

text \<open>\<^verbatim>\<open>String()\<close> of each type; \<open>None\<close> is the panic of a method call on a nil interface value.\<close>

fun resp_String :: "('f \<Rightarrow> bytes) \<Rightarrow> 'f resp \<Rightarrow> bytes option" where
  "resp_String fmtF NilResp = None"
| "resp_String fmtF (Array args) = Some (Array_String args)"
| "resp_String fmtF (BulkString b) = Some (bulk_string b)"
| "resp_String fmtF NilArray = Some (''*-1'' @ crlf)"
| "resp_String fmtF (SimpleString s) = Some (''+'' @ s @ crlf)"
| "resp_String fmtF (Error e) = Some (''-'' @ e @ crlf)"
| "resp_String fmtF (Integer i) = Some ('':'' @ itoa i @ crlf)"
| "resp_String fmtF (NestedArray es) = map_option (\<lambda>b. ''*'' @ utoa (length es) @ crlf @ b)
     (concat_opt (map (resp_String fmtF) es))"
| "resp_String fmtF (RMap es) = map_option (\<lambda>b. ''%'' @ utoa (length es div 2) @ crlf @ b)
     (concat_opt (map (resp_String fmtF) es))"
| "resp_String fmtF (RSet es) = map_option (\<lambda>b. ''~'' @ utoa (length es) @ crlf @ b)
     (concat_opt (map (resp_String fmtF) es))"
| "resp_String fmtF (Push es) = map_option (\<lambda>b. ''>'' @ utoa (length es) @ crlf @ b)
     (concat_opt (map (resp_String fmtF) es))"
| "resp_String fmtF Null = Some (''_'' @ crlf)"
| "resp_String fmtF (Double d) = Some ('','' @ fmtF d @ crlf)"
| "resp_String fmtF (Boolean b) = Some ((if b then ''#t'' else ''#f'') @ crlf)"
| "resp_String fmtF (BigNumber v) = Some (''('' @ v @ crlf)"
| "resp_String fmtF (VerbatimString enc v) =
     Some (''='' @ utoa (length enc + 1 + length v) @ crlf @ enc @ '':'' @ v @ crlf)"
| "resp_String fmtF (RawString r) = Some r"

text \<open>
  \<^verbatim>\<open>WriteRESP\<close> issues one \<^verbatim>\<open>Write\<close> per piece and flushes after every value, nested ones included.
\<close>

datatype wact = W bytes | Flush

definition write_bulk :: "bytes option \<Rightarrow> wact list" where
  "write_bulk b = (case b of
      None \<Rightarrow> [W (''$-1'' @ crlf)]
    | Some v \<Rightarrow> [W (''$'' @ utoa (length v) @ crlf), W v, W crlf])"

fun write_acts :: "('f \<Rightarrow> bytes) \<Rightarrow> 'f resp \<Rightarrow> wact list" where
  "write_acts fmtF NilResp = [W (''$-1'' @ crlf)]"
| "write_acts fmtF (BulkString b) = write_bulk b @ [Flush]"
| "write_acts fmtF (Array args) =
     W (''*'' @ utoa (length args) @ crlf) # concat (map write_bulk args) @ [Flush]"
| "write_acts fmtF (NestedArray es) =
     W (''*'' @ utoa (length es) @ crlf) # concat (map (write_acts fmtF) es) @ [Flush]"
| "write_acts fmtF (RMap es) =
     W (''%'' @ utoa (length es div 2) @ crlf) # concat (map (write_acts fmtF) es) @ [Flush]"
| "write_acts fmtF (RSet es) =
     W (''~'' @ utoa (length es) @ crlf) # concat (map (write_acts fmtF) es) @ [Flush]"
| "write_acts fmtF (Push es) =
     W (''>'' @ utoa (length es) @ crlf) # concat (map (write_acts fmtF) es) @ [Flush]"
| "write_acts fmtF (SimpleString s) = [W (''+'' @ s @ crlf), Flush]"
| "write_acts fmtF (Error e) = [W (''-'' @ e @ crlf), Flush]"
| "write_acts fmtF (Integer i) = [W ('':'' @ itoa i @ crlf), Flush]"
| "write_acts fmtF NilArray = [W (''*-1'' @ crlf), Flush]"
| "write_acts fmtF Null = [W (''_'' @ crlf), Flush]"
| "write_acts fmtF (Double d) = [W ('','' @ fmtF d @ crlf), Flush]"
| "write_acts fmtF (Boolean b) = [W ((if b then ''#t'' else ''#f'') @ crlf), Flush]"
| "write_acts fmtF (BigNumber v) = [W (''('' @ v @ crlf), Flush]"
| "write_acts fmtF (VerbatimString enc v) =
     (let payload = enc @ '':'' @ v
      in [W (''='' @ utoa (length payload) @ crlf), W payload, W crlf, Flush])"
| "write_acts fmtF (RawString r) = [W r, Flush]"

text \<open>Running the trace on a writer; the first error ends \<^verbatim>\<open>WriteRESP\<close> with that error. A writer
  without a \<^verbatim>\<open>Flush\<close> method is run with \<open>Inr\<close> for it.\<close>

fun run_acts :: "('w \<Rightarrow> bytes \<Rightarrow> 'e + 'w) \<Rightarrow> ('w \<Rightarrow> 'e + 'w) \<Rightarrow> wact list \<Rightarrow> 'w \<Rightarrow> 'e + 'w" where
  "run_acts wr fl [] w = Inr w"
| "run_acts wr fl (a # as) w =
     (case (case a of W b \<Rightarrow> wr w b | Flush \<Rightarrow> fl w) of
        Inl e \<Rightarrow> Inl e
      | Inr w' \<Rightarrow> run_acts wr fl as w')"

definition WriteRESP ::
  "('w \<Rightarrow> bytes \<Rightarrow> 'e + 'w) \<Rightarrow> ('w \<Rightarrow> 'e + 'w) \<Rightarrow> ('f \<Rightarrow> bytes) \<Rightarrow> 'w \<Rightarrow> 'f resp \<Rightarrow> 'e + 'w" where
  "WriteRESP wr fl fmtF w r = run_acts wr fl (write_acts fmtF r) w"

definition NewScanResponse :: "u64 \<Rightarrow> bytes list \<Rightarrow> 'f resp" where
  "NewScanResponse cursor keys =
     (let cursorStr = utoa (unat cursor)
      in RawString (''*2'' @ crlf @ ''$'' @ utoa (length cursorStr) @ crlf @ cursorStr @ crlf
           @ ''*'' @ utoa (length keys) @ crlf
           @ concat (map (\<lambda>k. ''$'' @ utoa (length k) @ crlf @ k @ crlf) keys)))"

section \<open>Reading a request\<close>

fun split_at_lf :: "bytes \<Rightarrow> (bytes \<times> bytes) option" where
  "split_at_lf [] = None"
| "split_at_lf (c # s) =
     (if c = LF then Some ([c], s)
      else map_option (\<lambda>(l, r). (c # l, r)) (split_at_lf s))"

definition strip_last :: "char \<Rightarrow> bytes \<Rightarrow> bytes" where
  "strip_last c l = (if l \<noteq> [] \<and> last l = c then butlast l else l)"

definition readLine :: "limits \<Rightarrow> bytes \<Rightarrow> resp_error + (bytes \<times> bytes)" where
  "readLine lim s = (case split_at_lf s of
      None \<Rightarrow> Inl EOF
    | Some (line, rest) \<Rightarrow>
        if int (length line) > MaxLineLen lim then Inl (LineTooLong (length line))
        else Inr (strip_last CR (strip_last LF line), rest))"

text \<open>\<^verbatim>\<open>io.ReadFull\<close> of a buffer of \<open>n\<close> bytes.\<close>

definition readFull :: "nat \<Rightarrow> bytes \<Rightarrow> resp_error + (bytes \<times> bytes)" where
  "readFull n s = (if length s < n then Inl (if s = [] \<and> n > 0 then EOF else UnexpectedEOF)
                   else Inr (take n s, drop n s))"

text \<open>The body of \<^verbatim>\<open>ReadRESP\<close>'s element loop.\<close>

definition readElem :: "limits \<Rightarrow> bytes \<Rightarrow> resp_error + (bytes option \<times> bytes)" where
  "readElem lim s = (case readLine lim s of
      Inl e \<Rightarrow> Inl e
    | Inr (line, rest) \<Rightarrow>
        (case line of
           [] \<Rightarrow> Inl EmptyElement
         | c # body \<Rightarrow>
             if c = CHR ''$'' then
               (case parse_int body of
                  None \<Rightarrow> Inl (AtoiError body)
                | Some bulkLen \<Rightarrow>
                    if bulkLen < -1 then Inl (InvalidBulkLength body)
                    else if bulkLen = -1 then Inr (None, rest)
                    else if bulkLen > MaxBulkLen lim then Inl (BulkTooLarge bulkLen)
                    else (case readFull (nat bulkLen + 2) rest of
                            Inl e \<Rightarrow> Inl e
                          | Inr (data, rest') \<Rightarrow> Inr (Some (take (nat bulkLen) data), rest')))
             else if c = CHR '':'' then Inr (Some body, rest)
             else if c = CHR ''+'' then Inr (Some body, rest)
             else Inl (UnexpectedElement c)))"

fun readElems :: "limits \<Rightarrow> nat \<Rightarrow> bytes \<Rightarrow> resp_error + (bytes option list \<times> bytes)" where
  "readElems lim 0 s = Inr ([], s)"
| "readElems lim (Suc n) s = (case readElem lim s of
      Inl e \<Rightarrow> Inl e
    | Inr (a, s') \<Rightarrow> (case readElems lim n s' of
          Inl e \<Rightarrow> Inl e
        | Inr (as, s'') \<Rightarrow> Inr (a # as, s'')))"

text \<open>\<^verbatim>\<open>strings.TrimSpace\<close>: the UTF-8 encodings of the runes \<^verbatim>\<open>unicode.IsSpace\<close> accepts.\<close>

definition space_encodings :: "bytes list" where
  "space_encodings =
     [[CHR 0x09], [CHR 0x0A], [CHR 0x0B], [CHR 0x0C], [CHR 0x0D], [CHR 0x20],
      [CHR 0xC2, CHR 0x85], [CHR 0xC2, CHR 0xA0], [CHR 0xE1, CHR 0x9A, CHR 0x80]]
     @ map (\<lambda>k. [CHR 0xE2, CHR 0x80, char_of (0x80 + k :: nat)]) [0..<11]
     @ [[CHR 0xE2, CHR 0x80, CHR 0xA8], [CHR 0xE2, CHR 0x80, CHR 0xA9],
        [CHR 0xE2, CHR 0x80, CHR 0xAF], [CHR 0xE2, CHR 0x81, CHR 0x9F],
        [CHR 0xE3, CHR 0x80, CHR 0x80]]"

definition strip_space1 :: "bytes list \<Rightarrow> bytes \<Rightarrow> bytes option" where
  "strip_space1 encs s = map_option (\<lambda>p. drop (length p) s) (find (\<lambda>p. p \<noteq> [] \<and> prefix p s) encs)"

function trim_left :: "bytes list \<Rightarrow> bytes \<Rightarrow> bytes" where
  "trim_left encs s = (case strip_space1 encs s of None \<Rightarrow> s | Some s' \<Rightarrow> trim_left encs s')"
  by pat_completeness auto
termination
proof (relation "measure (\<lambda>(_, s). length s)")
  fix encs s s'
  assume "strip_space1 encs s = Some s'"
  then obtain p where "p \<noteq> []" "prefix p s" "s' = drop (length p) s"
    by (auto simp: strip_space1_def find_Some_iff)
  then show "((encs, s'), encs, s) \<in> measure (\<lambda>(_, s). length s)"
    by (cases p) (auto simp: prefix_def)
qed simp

declare trim_left.simps [simp del]

definition TrimSpace :: "bytes \<Rightarrow> bytes" where
  "TrimSpace s =
     rev (trim_left (map rev space_encodings) (rev (trim_left space_encodings s)))"

text \<open>The loop of \<^verbatim>\<open>parseInlineArgs\<close>; its state is the tokens so far, the token being built and
  whether a quote is open.\<close>

fun inline_loop :: "bytes \<Rightarrow> bytes list \<Rightarrow> bytes \<Rightarrow> bool \<Rightarrow> bytes list" where
  "inline_loop [] result current inQuote =
     (if current \<noteq> [] then result @ [current] else result)"
| "inline_loop (ch # s) result current inQuote =
     (if ch = CHR 0x22 then
        (if inQuote then inline_loop s (result @ [current]) [] False
         else if current \<noteq> [] then inline_loop s (result @ [current]) [] True
         else inline_loop s result current True)
      else if ch = CHR '' '' \<and> \<not> inQuote then
        (if current \<noteq> [] then inline_loop s (result @ [current]) [] inQuote
         else inline_loop s result current inQuote)
      else inline_loop s result (current @ [ch]) inQuote)"

definition parseInlineArgs :: "bytes \<Rightarrow> bytes list" where
  "parseInlineArgs s = inline_loop s [] [] False"

definition parseInlineCommand :: "bytes \<Rightarrow> resp_error + bytes option list" where
  "parseInlineCommand line =
     (let cmdStr = TrimSpace line
      in if cmdStr = [] then Inl EmptyInlineCommand
         else let parts = parseInlineArgs cmdStr
              in if parts = [] then Inl EmptyInlineCommand else Inr (map Some parts))"

definition ReadRESP :: "limits \<Rightarrow> bytes \<Rightarrow> resp_error + (bytes option list \<times> bytes)" where
  "ReadRESP lim s = (case readLine lim s of
      Inl e \<Rightarrow> Inl e
    | Inr (line, rest) \<Rightarrow>
        (case line of
           [] \<Rightarrow> Inl EmptyLine
         | c # body \<Rightarrow>
             if c = CHR ''*'' then
               (if body = [] then Inl InvalidArrayPrefix
                else case parse_int body of
                       None \<Rightarrow> Inl (InvalidArrayLength body)
                     | Some n \<Rightarrow>
                         if n < 0 then Inl (InvalidArrayLength body)
                         else if n > MaxArrayLen lim then Inl (ArrayTooLarge n)
                         else readElems lim (nat n) rest)
             else if c = CHR ''+'' then
               (if body = [] then Inl InvalidSimpleString else Inr ([Some body], rest))
             else if c = CHR ''-'' then
               (if body = [] then Inl InvalidErrorFormat else Inr ([Some body], rest))
             else if c = CHR ''$'' then
               (case parse_int body of
                  None \<Rightarrow> Inl (InvalidBulkLength body)
                | Some bulkLen \<Rightarrow>
                    if bulkLen < -1 then Inl (InvalidBulkLength body)
                    else if bulkLen = -1 then Inr ([None], rest)
                    else if bulkLen > MaxBulkLen lim then Inl (BulkTooLarge bulkLen)
                    else (case readFull (nat bulkLen + 2) rest of
                            Inl e \<Rightarrow> Inl e
                          | Inr (data, rest') \<Rightarrow> Inr ([Some (take (nat bulkLen) data)], rest')))
             else (case parseInlineCommand line of
                     Inl e \<Rightarrow> Inl e
                   | Inr args \<Rightarrow> Inr (args, rest))))"

section \<open>The two printers agree\<close>

definition acts_out :: "wact list \<Rightarrow> bytes" where
  "acts_out as = concat (map (\<lambda>a. case a of W b \<Rightarrow> b | Flush \<Rightarrow> []) as)"

lemma acts_out_simps [simp]:
  "acts_out [] = []"
  "acts_out (W b # as) = b @ acts_out as"
  "acts_out (Flush # as) = acts_out as"
  "acts_out (as @ bs) = acts_out as @ acts_out bs"
  by (simp_all add: acts_out_def)

lemma acts_out_concat: "acts_out (concat xs) = concat (map acts_out xs)"
  by (induction xs) simp_all

lemma acts_out_write_bulk [simp]: "acts_out (write_bulk b) = bulk_string b"
  by (simp add: write_bulk_def bulk_string_def split: option.split)

lemma acts_out_write_bulks:
  "acts_out (concat (map write_bulk args)) = joinBulkStrings args"
  by (simp add: acts_out_concat joinBulkStrings_def comp_def)

lemma concat_opt_acts:
  assumes "\<And>e b. e \<in> set es \<Longrightarrow> f e = Some b \<Longrightarrow> acts_out (g e) = b"
    and "concat_opt (map f es) = Some out"
  shows "acts_out (concat (map g es)) = out"
  using assms
proof (induction es arbitrary: out)
  case Nil
  then show ?case by simp
next
  case (Cons e es)
  then obtain a b where "f e = Some a" "concat_opt (map f es) = Some b" "out = a @ b"
    by (auto split: option.splits)
  moreover have "acts_out (concat (map g es)) = b" using Cons calculation by simp
  moreover have "acts_out (g e) = a" using Cons.prems(1) [of e a] calculation by simp
  ultimately show ?case by simp
qed

lemma write_acts_String:
  "resp_String fmtF r = Some s \<Longrightarrow> acts_out (write_acts fmtF r) = s"
proof (induction r arbitrary: s)
  case (NestedArray es)
  then show ?case by (auto intro!: concat_opt_acts [where f = "resp_String fmtF"])
next
  case (RMap es)
  then show ?case by (auto intro!: concat_opt_acts [where f = "resp_String fmtF"])
next
  case (RSet es)
  then show ?case by (auto intro!: concat_opt_acts [where f = "resp_String fmtF"])
next
  case (Push es)
  then show ?case by (auto intro!: concat_opt_acts [where f = "resp_String fmtF"])
qed (auto simp: acts_out_write_bulks Array_String_def Let_def)

lemma run_acts_buffer:
  "run_acts (\<lambda>w b. Inr (w @ b)) Inr as w = Inr (w @ acts_out as)"
proof (induction as arbitrary: w)
  case (Cons a as)
  then show ?case by (cases a) simp_all
qed simp

section \<open>Reading back what was printed\<close>

lemma split_at_lf_append [simp]:
  "LF \<notin> set l \<Longrightarrow> split_at_lf (l @ LF # r) = Some (l @ [LF], r)"
  by (induction l) auto

lemma readLine_crlf:
  assumes "LF \<notin> set l" "int (length l + 2) \<le> MaxLineLen lim"
  shows "readLine lim (l @ CR # LF # rest) = Inr (l, rest)"
proof -
  have "split_at_lf (l @ CR # LF # rest) = Some (l @ [CR, LF], rest)"
    using split_at_lf_append [of "l @ [CR]" rest] assms(1) by simp
  then show ?thesis using assms(2) by (simp add: readLine_def strip_last_def butlast_append)
qed

text \<open>The limits are \<^verbatim>\<open>int64\<close> values, and a length line (a type byte, at most 19 digits, CRLF) fits.\<close>

definition limits_ok :: "limits \<Rightarrow> bool" where
  "limits_ok lim \<longleftrightarrow> MaxBulkLen lim \<le> max_int64 \<and> MaxArrayLen lim \<le> max_int64 \<and> 22 \<le> MaxLineLen lim"

definition cmd_fits :: "limits \<Rightarrow> bytes option list \<Rightarrow> bool" where
  "cmd_fits lim args \<longleftrightarrow> int (length args) \<le> MaxArrayLen lim \<and>
     list_all (\<lambda>a. case a of None \<Rightarrow> True | Some v \<Rightarrow> int (length v) \<le> MaxBulkLen lim) args"

lemma utoa_length_int64: "int n \<le> max_int64 \<Longrightarrow> length (utoa n) \<le> 19"
  using utoa_length_bound [of n 18] by (simp add: max_int64_def)

lemma readLine_length:
  assumes "limits_ok lim" "int n \<le> max_int64" "c \<noteq> LF"
  shows "readLine lim (c # utoa n @ CR # LF # rest) = Inr (c # utoa n, rest)"
proof -
  have "length (utoa n) \<le> 19" using assms(2) by (rule utoa_length_int64)
  then have "int (length (c # utoa n) + 2) \<le> MaxLineLen lim" using assms(1) by (simp add: limits_ok_def)
  with assms(3) show ?thesis using readLine_crlf [of "c # utoa n" lim rest] by simp
qed

lemma readElem_bulk:
  assumes "limits_ok lim" "case a of None \<Rightarrow> True | Some v \<Rightarrow> int (length v) \<le> MaxBulkLen lim"
  shows "readElem lim (bulk_string a @ rest) = Inr (a, rest)"
proof (cases a)
  case None
  have "readLine lim (''$-1'' @ CR # LF # rest) = Inr (''$-1'', rest)"
    using assms(1) by (intro readLine_crlf) (auto simp: limits_ok_def)
  moreover have "parse_int ''-1'' = Some (-1)"
    by (simp add: parse_int_def parse_digits_def is_digit_def digits_val_def digit_val_def
          min_int64_def max_int64_def)
  ultimately show ?thesis using None by (simp add: readElem_def bulk_string_def)
next
  case (Some v)
  have len: "int (length v) \<le> max_int64" using assms Some by (simp add: limits_ok_def)
  have "readLine lim (bulk_string a @ rest) = Inr (''$'' @ utoa (length v), v @ crlf @ rest)"
    using readLine_length [OF assms(1) len, of "CHR ''$''" "v @ crlf @ rest"] Some
    by (simp add: bulk_string_def)
  moreover have "parse_int (utoa (length v)) = Some (int (length v))"
    using len by (rule parse_int_utoa)
  ultimately show ?thesis using assms(2) Some
    by (simp add: readElem_def readFull_def)
qed

lemma readElems_bulks:
  assumes "limits_ok lim"
    and "list_all (\<lambda>a. case a of None \<Rightarrow> True | Some v \<Rightarrow> int (length v) \<le> MaxBulkLen lim) args"
  shows "readElems lim (length args) (joinBulkStrings args @ rest) = Inr (args, rest)"
  using assms(2)
proof (induction args)
  case Nil
  then show ?case by (simp add: joinBulkStrings_def)
next
  case (Cons a args)
  then show ?case
    using readElem_bulk [OF assms(1), of a "joinBulkStrings args @ rest"]
    by (simp add: joinBulkStrings_def)
qed

lemma ReadRESP_Array_String:
  assumes "limits_ok lim" "cmd_fits lim args"
  shows "ReadRESP lim (Array_String args @ rest) = Inr (args, rest)"
proof -
  have len: "int (length args) \<le> max_int64" using assms by (simp add: limits_ok_def cmd_fits_def)
  have "readLine lim (Array_String args @ rest) =
        Inr (''*'' @ utoa (length args), joinBulkStrings args @ rest)"
    using readLine_length [OF assms(1) len, of "CHR ''*''" "joinBulkStrings args @ rest"]
    by (simp add: Array_String_def)
  moreover have "parse_int (utoa (length args)) = Some (int (length args))"
    using len by (rule parse_int_utoa)
  ultimately show ?thesis using assms readElems_bulks
    by (simp add: ReadRESP_def cmd_fits_def)
qed

text \<open>Reading the requests a client has pipelined on one connection, one after another.\<close>

fun ReadRESP_seq :: "limits \<Rightarrow> nat \<Rightarrow> bytes \<Rightarrow> resp_error + (bytes option list list \<times> bytes)" where
  "ReadRESP_seq lim 0 s = Inr ([], s)"
| "ReadRESP_seq lim (Suc n) s = (case ReadRESP lim s of
      Inl e \<Rightarrow> Inl e
    | Inr (c, s') \<Rightarrow> (case ReadRESP_seq lim n s' of
          Inl e \<Rightarrow> Inl e
        | Inr (cs, s'') \<Rightarrow> Inr (c # cs, s'')))"

section \<open>Progress and bounds of the reader\<close>

lemma split_at_lf_SomeD:
  "split_at_lf s = Some (l, r) \<Longrightarrow> s = l @ r \<and> l \<noteq> []"
proof (induction s arbitrary: l)
  case (Cons c s)
  then show ?case by (auto split: if_splits)
qed simp

lemma length_strip_last: "length (strip_last c l) \<le> length l"
  by (simp add: strip_last_def)

lemma readLine_InrD:
  assumes "readLine lim s = Inr (l, r)"
  shows "\<exists>p. s = p @ r \<and> p \<noteq> []" "int (length l) \<le> MaxLineLen lim"
proof -
  obtain p where p: "split_at_lf s = Some (p, r)" "l = strip_last CR (strip_last LF p)"
      "int (length p) \<le> MaxLineLen lim"
    using assms by (auto simp: readLine_def split: option.splits if_splits)
  then show "\<exists>p. s = p @ r \<and> p \<noteq> []" using split_at_lf_SomeD by blast
  have "length l \<le> length p"
    using p(2) length_strip_last [of CR "strip_last LF p"] length_strip_last [of LF p] by simp
  then show "int (length l) \<le> MaxLineLen lim" using p(3) by simp
qed

lemma readFull_InrD: "readFull n s = Inr (d, r) \<Longrightarrow> s = d @ r \<and> length d = n"
  by (auto simp: readFull_def split: if_splits)

abbreviation arg_len :: "bytes option \<Rightarrow> nat" where
  "arg_len a \<equiv> (case a of None \<Rightarrow> 0 | Some v \<Rightarrow> length v)"

lemma readElem_InrD:
  assumes "readElem lim s = Inr (a, r)"
  shows "(\<exists>p. s = p @ r \<and> p \<noteq> []) \<and> int (arg_len a) \<le> max (MaxBulkLen lim) (MaxLineLen lim)"
proof -
  obtain c body r1 where l: "readLine lim s = Inr (c # body, r1)"
    using assms by (auto simp: readElem_def split: sum.splits list.splits prod.splits)
  note L = readLine_InrD [OF l]
  obtain p where p: "s = p @ r1" "p \<noteq> []" using L(1) by blast
  have b: "int (length body) \<le> MaxLineLen lim" using L(2) by simp
  have "(\<exists>q. r1 = q @ r) \<and> int (arg_len a) \<le> max (MaxBulkLen lim) (MaxLineLen lim)"
  proof (cases "c = CHR ''$''")
    case True
    then show ?thesis using assms l b
      by (auto simp: readElem_def split: option.splits if_splits sum.splits prod.splits
          dest!: readFull_InrD)
  next
    case False
    then show ?thesis using assms l b by (auto simp: readElem_def split: if_splits)
  qed
  then show ?thesis using p by auto
qed

lemma readElems_InrD:
  assumes "readElems lim n s = Inr (as, r)"
  shows "(\<exists>p. s = p @ r) \<and> length as = n \<and>
    (\<forall>a \<in> set as. int (arg_len a) \<le> max (MaxBulkLen lim) (MaxLineLen lim))"
  using assms
proof (induction n arbitrary: s as)
  case (Suc n)
  then obtain a s' as' where a: "readElem lim s = Inr (a, s')" "readElems lim n s' = Inr (as', r)"
      "as = a # as'"
    by (auto split: sum.splits prod.splits)
  with Suc.IH [of s' as'] readElem_InrD [OF a(1)] show ?case by auto
qed simp

lemma inline_loop_bounds:
  "(\<forall>t \<in> set (inline_loop s res cur q). t \<in> set res \<or> length t \<le> length s + length cur) \<and>
   length (inline_loop s res cur q) \<le> length res + length s + (if cur = [] then 0 else 1)"
proof (induction s res cur q rule: inline_loop.induct)
  case (1 res cur q)
  then show ?case by auto
next
  case (2 ch s res cur q)
  show ?case
  proof (cases "ch = CHR 0x22")
    case True
    then show ?thesis
    proof (cases q)
      case t: True
      with True 2(1) show ?thesis by fastforce
    next
      case f: False
      with True 2(2,3) show ?thesis by (cases "cur = []") fastforce+
    qed
  next
    case False
    show ?thesis
    proof (cases "ch = CHR '' '' \<and> \<not> q")
      case True
      with False 2(4,5) show ?thesis by (cases "cur = []") fastforce+
    next
      case f: False
      with False 2(6) show ?thesis by fastforce
    qed
  qed
qed

lemma length_trim_left: "length (trim_left encs s) \<le> length s"
proof (induction encs s rule: trim_left.induct)
  case (1 encs s)
  show ?case
  proof (cases "strip_space1 encs s")
    case None
    then show ?thesis by (simp add: trim_left.simps [of encs s])
  next
    case (Some s')
    then have "length s' \<le> length s" by (auto simp: strip_space1_def)
    with 1 [OF Some] Some show ?thesis by (simp add: trim_left.simps [of encs s])
  qed
qed

lemma length_TrimSpace: "length (TrimSpace s) \<le> length s"
  using length_trim_left [of "map rev space_encodings" "rev (trim_left space_encodings s)"]
    length_trim_left [of space_encodings s]
  by (simp add: TrimSpace_def)

lemma parseInlineCommand_InrD:
  assumes "parseInlineCommand line = Inr args"
  shows "length args \<le> length line \<and> (\<forall>a \<in> set args. arg_len a \<le> length line)"
proof -
  have "args = map Some (parseInlineArgs (TrimSpace line))"
    using assms by (auto simp: parseInlineCommand_def Let_def split: if_splits)
  then show ?thesis
    using inline_loop_bounds [of "TrimSpace line" "[]" "[]" False] length_TrimSpace [of line]
    by (fastforce simp: parseInlineArgs_def)
qed

section \<open>Inline commands\<close>

text \<open>A token of an inline command, bare or in double quotes, and the line a client types.\<close>

definition render_token :: "bool \<times> bytes \<Rightarrow> bytes" where
  "render_token t = (if fst t then CHR 0x22 # snd t @ [CHR 0x22] else snd t)"

definition token_ok :: "bool \<times> bytes \<Rightarrow> bool" where
  "token_ok t \<longleftrightarrow> CHR 0x22 \<notin> set (snd t) \<and> (\<not> fst t \<longrightarrow> snd t \<noteq> [] \<and> CHR '' '' \<notin> set (snd t))"

fun render_line :: "(bool \<times> bytes) list \<Rightarrow> bytes" where
  "render_line [] = []"
| "render_line [t] = render_token t"
| "render_line (t # u # ts) = render_token t @ CHR '' '' # render_line (u # ts)"

lemma inline_loop_text:
  "CHR 0x22 \<notin> set v \<Longrightarrow> q \<or> CHR '' '' \<notin> set v \<Longrightarrow>
   inline_loop (v @ s) res cur q = inline_loop s res (cur @ v) q"
  by (induction v arbitrary: cur) auto

lemma inline_loop_token_end:
  "token_ok t \<Longrightarrow> inline_loop (render_token t) res [] False = res @ [snd t]"
  using inline_loop_text [of "snd t" False "[]" res "[]"]
    inline_loop_text [of "snd t" True "[CHR 0x22]" res "[]"]
  by (auto simp: token_ok_def render_token_def)

lemma inline_loop_token:
  "token_ok t \<Longrightarrow>
   inline_loop (render_token t @ CHR '' '' # s) res [] False = inline_loop s (res @ [snd t]) [] False"
  using inline_loop_text [of "snd t" False "CHR '' '' # s" res "[]"]
    inline_loop_text [of "snd t" True "CHR 0x22 # CHR '' '' # s" res "[]"]
  by (auto simp: token_ok_def render_token_def)

lemma inline_loop_render:
  "list_all token_ok ts \<Longrightarrow> inline_loop (render_line ts) res [] False = res @ map snd ts"
proof (induction ts arbitrary: res rule: render_line.induct)
  case (3 t u ts)
  then show ?case by (simp add: inline_loop_token)
qed (simp_all add: inline_loop_token_end)

section \<open>Properties\<close>

text \<open>C18 RESP round trip: on a connection carrying any sequence of commands in the array encoding that
  \<^verbatim>\<open>Array.String\<close> and \<^verbatim>\<open>WriteRESP\<close> produce, each within the configured limits, \<^verbatim>\<open>ReadRESP\<close> called
  once per command returns exactly those commands, nil arguments and binary contents included, and
  leaves exactly the bytes that follow.\<close>

theorem ReadRESP_pipeline_roundtrip:
  assumes "limits_ok lim" and "list_all (cmd_fits lim) cmds"
  shows "ReadRESP_seq lim (length cmds) (concat (map Array_String cmds) @ rest) = Inr (cmds, rest)"
  using assms(2)
proof (induction cmds)
  case (Cons c cmds)
  then show ?case
    using ReadRESP_Array_String [OF assms(1), of c "concat (map Array_String cmds) @ rest"] by simp
qed simp

theorem ReadRESP_pipeline_roundtrip_witness:
  "ReadRESP_seq default_limits 2
     (concat (map Array_String [[Some ''SET'', Some ''k'', Some [CR, LF]], [Some ''GET'', None]]) @ ''*'')
   = Inr ([[Some ''SET'', Some ''k'', Some [CR, LF]], [Some ''GET'', None]], ''*'')"
  using ReadRESP_pipeline_roundtrip
    [of default_limits "[[Some ''SET'', Some ''k'', Some [CR, LF]], [Some ''GET'', None]]" "''*''"]
  by (simp add: limits_ok_def cmd_fits_def default_limits_def max_int64_def numeral_2_eq_2)



text \<open>C33 The two printers agree: for every reply value, nested and RESP3 types included, on which
  \<^verbatim>\<open>String\<close> does not panic, \<^verbatim>\<open>WriteRESP\<close> to a writer that accepts every byte succeeds and appends exactly
  the bytes \<^verbatim>\<open>String\<close> returns.\<close>

theorem WriteRESP_String:
  assumes "resp_String fmtF r = Some s"
  shows "WriteRESP (\<lambda>w b. Inr (w @ b)) Inr fmtF w r = (Inr (w @ s) :: 'e + bytes)"
  using write_acts_String [OF assms] by (simp add: WriteRESP_def run_acts_buffer)

theorem WriteRESP_String_witness:
  "WriteRESP (\<lambda>w b. Inr (w @ b)) Inr (\<lambda>_. ''1.5'') ''''
     (NestedArray [BulkString None, RMap [Integer (- 7), Double ()]])
   = (Inr (''*2'' @ crlf @ ''$-1'' @ crlf @ ''%1'' @ crlf @ '':-7'' @ crlf @ '',1.5'' @ crlf) :: unit + bytes)"
proof -
  have "resp_String (\<lambda>_ :: unit. ''1.5'') (NestedArray [BulkString None, RMap [Integer (- 7), Double ()]])
    = Some (''*2'' @ crlf @ ''$-1'' @ crlf @ ''%1'' @ crlf @ '':-7'' @ crlf @ '',1.5'' @ crlf)"
    by code_simp
  from WriteRESP_String [OF this, of "''''"] show ?thesis by simp
qed



end
