(* ===== verification/Badger.thy ===== *)
theory Badger
  imports BoltPrelude
begin

text \<open>
  The interface of the storage engine. BadgerDB is a third-party package, so its operations are a
  parameter of the model: every definition of the store that touches the database takes the record
  of operations \<open>txn_ops\<close> (one read-write or read-only transaction) or \<open>db_ops\<close> (the database in
  managed mode) as an argument. The locales \<open>badger_txn\<close> and \<open>badger_db\<close> name what the store relies
  on: a transaction reads its own writes, an iterator visits the live keys in byte order, a commit
  at a fresh timestamp becomes visible from that timestamp on. The laws describe runs in which the
  engine reports no I/O error; what the store does when the engine reports one is modelled where
  the store reacts to it (the error results below, the retry loop of \<^verbatim>\<open>retryUpdate\<close>).
\<close>

section \<open>Errors\<close>

text \<open>The sentinel errors the store tests with \<^verbatim>\<open>errors.Is\<close>, the store's own, and the rest by message. \<open>Panic\<close> is a
  run-time panic of Go, which unwinds the calls instead of being returned: only deferred calls run.\<close>

datatype go_error =
    ErrKeyNotFound
  | ErrConflict
  | ErrBlockedWrites
  | ErrEngine bytes
  | ErrWrongType
  | ErrStoreKeyNotFound
  | Errorf bytes
  | Wrap bytes go_error
  | Panic bytes

text \<open>\<^verbatim>\<open>errors.Is\<close> looks through the errors wrapped with \<^verbatim>\<open>%w\<close>.\<close>

fun errors_is :: "go_error \<Rightarrow> go_error \<Rightarrow> bool" where
  "errors_is (Wrap m e) tgt = (Wrap m e = tgt \<or> errors_is e tgt)"
| "errors_is e tgt = (e = tgt)"

definition is_panic :: "go_error \<Rightarrow> bool" where
  "is_panic e = (case e of Panic m \<Rightarrow> True | _ \<Rightarrow> False)"

section \<open>A transaction\<close>

record item =
  ival :: bytes
  iexp :: u64

record 't txn_ops =
  txn_get :: "'t \<Rightarrow> bytes \<Rightarrow> go_error + item"
  value_copy :: "'t \<Rightarrow> item \<Rightarrow> go_error + bytes"
  txn_set :: "'t \<Rightarrow> bytes \<Rightarrow> bytes \<Rightarrow> go_error + 't"
  txn_set_entry :: "'t \<Rightarrow> bytes \<Rightarrow> bytes \<Rightarrow> u64 \<Rightarrow> go_error + 't"
  txn_delete :: "'t \<Rightarrow> bytes \<Rightarrow> go_error + 't"
  txn_iter :: "'t \<Rightarrow> bool \<Rightarrow> bytes \<Rightarrow> (bytes \<times> item) list"

text \<open>\<open>txn_iter B t reverse from\<close> lists what an iterator created now visits after \<^verbatim>\<open>Seek(from)\<close>.\<close>

subsection \<open>Transaction bodies\<close>

text \<open>The body of a \<^verbatim>\<open>func(txn *badger.Txn) error\<close>: it either fails or yields a result and the
  transaction with its pending writes.\<close>

type_synonym ('t, 'a) tx = "'t \<Rightarrow> go_error + 'a \<times> 't"

definition ret :: "'a \<Rightarrow> ('t, 'a) tx" where
  "ret x = (\<lambda>t. Inr (x, t))"

definition fail :: "go_error \<Rightarrow> ('t, 'a) tx" where
  "fail e = (\<lambda>t. Inl e)"

definition bnd :: "('t, 'a) tx \<Rightarrow> ('a \<Rightarrow> ('t, 'b) tx) \<Rightarrow> ('t, 'b) tx" where
  "bnd m f = (\<lambda>t. case m t of Inl e \<Rightarrow> Inl e | Inr (x, t') \<Rightarrow> f x t')"

definition andThen :: "('t, 'a) tx \<Rightarrow> ('t, 'b) tx \<Rightarrow> ('t, 'b) tx" where
  "andThen m n = bnd m (\<lambda>_. n)"

text \<open>\<^verbatim>\<open>txn.Get\<close> with the error as a value, for the call sites that inspect it.\<close>

definition tryGet :: "'t txn_ops \<Rightarrow> bytes \<Rightarrow> ('t, go_error + item) tx" where
  "tryGet B k = (\<lambda>t. Inr (txn_get B t k, t))"

definition Get :: "'t txn_ops \<Rightarrow> bytes \<Rightarrow> ('t, item) tx" where
  "Get B k = (\<lambda>t. case txn_get B t k of Inl e \<Rightarrow> Inl e | Inr i \<Rightarrow> Inr (i, t))"

definition ValueCopy :: "'t txn_ops \<Rightarrow> item \<Rightarrow> ('t, bytes) tx" where
  "ValueCopy B i = (\<lambda>t. case value_copy B t i of Inl e \<Rightarrow> Inl e | Inr v \<Rightarrow> Inr (v, t))"

definition Set :: "'t txn_ops \<Rightarrow> bytes \<Rightarrow> bytes \<Rightarrow> ('t, unit) tx" where
  "Set B k v = (\<lambda>t. case txn_set B t k v of Inl e \<Rightarrow> Inl e | Inr t' \<Rightarrow> Inr ((), t'))"

definition SetEntry :: "'t txn_ops \<Rightarrow> bytes \<Rightarrow> bytes \<Rightarrow> u64 \<Rightarrow> ('t, unit) tx" where
  "SetEntry B k v ex = (\<lambda>t. case txn_set_entry B t k v ex of Inl e \<Rightarrow> Inl e | Inr t' \<Rightarrow> Inr ((), t'))"

definition Delete :: "'t txn_ops \<Rightarrow> bytes \<Rightarrow> ('t, unit) tx" where
  "Delete B k = (\<lambda>t. case txn_delete B t k of Inl e \<Rightarrow> Inl e | Inr t' \<Rightarrow> Inr ((), t'))"

definition iterFrom :: "'t txn_ops \<Rightarrow> bool \<Rightarrow> bytes \<Rightarrow> ('t, (bytes \<times> item) list) tx" where
  "iterFrom B rv k = (\<lambda>t. Inr (txn_iter B t rv k, t))"

text \<open>\<^verbatim>\<open>for iter.Seek(from); iter.ValidForPrefix(p); iter.Next()\<close>: the items visited.\<close>

definition iterPrefix :: "'t txn_ops \<Rightarrow> bool \<Rightarrow> bytes \<Rightarrow> bytes \<Rightarrow> ('t, (bytes \<times> item) list) tx" where
  "iterPrefix B rv from p = (\<lambda>t. Inr (takeWhile (\<lambda>x. prefix p (fst x)) (txn_iter B t rv from), t))"

text \<open>\<^verbatim>\<open>errors.Is(err, badger.ErrKeyNotFound)\<close> as \<open>None\<close>, another error as a failure, else the item.\<close>

definition lookup :: "'t txn_ops \<Rightarrow> bytes \<Rightarrow> ('t, item option) tx" where
  "lookup B k = bnd (tryGet B k) (\<lambda>r. case r of
      Inl e \<Rightarrow> (if errors_is e ErrKeyNotFound then ret None else fail e)
    | Inr i \<Rightarrow> ret (Some i))"

definition lookupValue :: "'t txn_ops \<Rightarrow> bytes \<Rightarrow> ('t, bytes option) tx" where
  "lookupValue B k = bnd (lookup B k) (\<lambda>r. case r of
      None \<Rightarrow> ret None
    | Some i \<Rightarrow> bnd (ValueCopy B i) (\<lambda>v. ret (Some v)))"

definition getValue :: "'t txn_ops \<Rightarrow> bytes \<Rightarrow> ('t, bytes) tx" where
  "getValue B k = bnd (Get B k) (ValueCopy B)"

definition forEach :: "('a \<Rightarrow> ('t, unit) tx) \<Rightarrow> 'a list \<Rightarrow> ('t, unit) tx" where
  "forEach f xs = foldr (\<lambda>x m. andThen (f x) m) xs (ret ())"

lemma bnd_ret [simp]: "bnd (ret x) f = f x"
  by (simp add: bnd_def ret_def)

lemma bnd_assoc: "bnd (bnd m f) g = bnd m (\<lambda>x. bnd (f x) g)"
  by (auto simp: bnd_def split: sum.splits)

lemma ret_run [simp]: "ret x t = Inr (x, t)"
  by (simp add: ret_def)

lemma fail_run [simp]: "fail e t = Inl e"
  by (simp add: fail_def)

lemma bnd_run: "m t = Inr (x, t') \<Longrightarrow> bnd m f t = f x t'"
  by (simp add: bnd_def)

lemma bnd_run_err: "m t = Inl e \<Longrightarrow> bnd m f t = Inl e"
  by (simp add: bnd_def)

lemma forEach_simps [simp]:
  "forEach f [] = ret ()"
  "forEach f (x # xs) = andThen (f x) (forEach f xs)"
  by (simp_all add: forEach_def)

section \<open>The contract of a transaction\<close>

text \<open>
  \<open>view t\<close> is the content the transaction sees: its snapshot overlaid with its pending writes,
  entries whose expiry has passed left out. \<open>now\<close> is the engine's clock during the transaction, in
  seconds: an entry written with an expiry that is not after it reads as absent.
\<close>

definition live_from :: "(bytes \<rightharpoonup> item) \<Rightarrow> bytes \<Rightarrow> (bytes \<times> item) list" where
  "live_from m k = map (\<lambda>x. (x, the (m x))) (sorted_list_of_set {x \<in> dom m. k \<le> x})"

definition live_downto :: "(bytes \<rightharpoonup> item) \<Rightarrow> bytes \<Rightarrow> (bytes \<times> item) list" where
  "live_downto m k = map (\<lambda>x. (x, the (m x))) (rev (sorted_list_of_set {x \<in> dom m. x \<le> k}))"

locale badger_txn =
  fixes B :: "'t txn_ops"
    and view :: "'t \<Rightarrow> bytes \<rightharpoonup> item"
    and upd :: "'t \<Rightarrow> bytes \<Rightarrow> item option \<Rightarrow> 't"
    and now :: u64
  assumes view_upd: "view (upd t k x) = (view t)(k := x)"
    and finite_view: "finite (dom (view t))"
    and get_law: "txn_get B t k = (case view t k of None \<Rightarrow> Inl ErrKeyNotFound | Some i \<Rightarrow> Inr i)"
    and value_law: "value_copy B t i = Inr (ival i)"
    and set_law: "txn_set B t k v = Inr (upd t k (Some \<lparr>ival = v, iexp = 0\<rparr>))"
    and set_entry_law: "txn_set_entry B t k v ex =
          Inr (upd t k (if ex = 0 \<or> now < ex then Some \<lparr>ival = v, iexp = ex\<rparr> else None))"
    and delete_law: "txn_delete B t k = Inr (upd t k None)"
    and iter_law: "txn_iter B t False k = live_from (view t) k"
    and iter_rev_law: "txn_iter B t True k = live_downto (view t) k"
begin

lemma tryGet_run [txn_simps]:
  "tryGet B k t = Inr (case view t k of None \<Rightarrow> Inl ErrKeyNotFound | Some i \<Rightarrow> Inr i, t)"
  by (simp add: tryGet_def get_law)

lemma Get_run [txn_simps]:
  "Get B k t = (case view t k of None \<Rightarrow> Inl ErrKeyNotFound | Some i \<Rightarrow> Inr (i, t))"
  by (simp add: Get_def get_law split: option.split)

lemma ValueCopy_run [txn_simps]: "ValueCopy B i t = Inr (ival i, t)"
  by (simp add: ValueCopy_def value_law)

lemma Set_run [txn_simps]: "Set B k v t = Inr ((), upd t k (Some \<lparr>ival = v, iexp = 0\<rparr>))"
  by (simp add: Set_def set_law)

lemma SetEntry_run [txn_simps]:
  "SetEntry B k v ex t =
     Inr ((), upd t k (if ex = 0 \<or> now < ex then Some \<lparr>ival = v, iexp = ex\<rparr> else None))"
  by (simp add: SetEntry_def set_entry_law)

lemma Delete_run [txn_simps]: "Delete B k t = Inr ((), upd t k None)"
  by (simp add: Delete_def delete_law)

lemma lookup_run [txn_simps]: "lookup B k t = Inr (view t k, t)"
  by (simp add: lookup_def bnd_def tryGet_run split: option.split)

lemma lookupValue_run [txn_simps]: "lookupValue B k t = Inr (map_option ival (view t k), t)"
  by (simp add: lookupValue_def bnd_def lookup_run ValueCopy_run split: option.split)

lemma getValue_run [txn_simps]:
  "getValue B k t = (case view t k of None \<Rightarrow> Inl ErrKeyNotFound | Some i \<Rightarrow> Inr (ival i, t))"
  by (simp add: getValue_def bnd_def Get_run ValueCopy_run split: option.split)

lemma iterPrefix_run [txn_simps]:
  "iterPrefix B False p p t = Inr (takeWhile (\<lambda>x. prefix p (fst x)) (live_from (view t) p), t)"
  by (simp add: iterPrefix_def iter_law)

lemmas view_simps [txn_simps] = view_upd

text \<open>A body is \<^emph>\<open>regular\<close> when the transaction it returns differs from the one it was given by writes
  only. Every body of the store is built from the operations above and is regular.\<close>

definition writes :: "'t \<Rightarrow> 't \<Rightarrow> bool" where
  "writes t t' \<longleftrightarrow> (\<exists>ws. t' = fold (\<lambda>(k, x) t. upd t k x) ws t)"

definition regular :: "('t, 'a) tx \<Rightarrow> bool" where
  "regular m \<longleftrightarrow> (\<forall>t r t'. m t = Inr (r, t') \<longrightarrow> writes t t')"

lemma writes_refl [simp]: "writes t t"
  by (auto simp: writes_def intro: exI [of _ "[]"])

lemma writes_upd: "writes t (upd t k x)"
  by (auto simp: writes_def intro: exI [of _ "[(k, x)]"])

lemma writes_trans: "writes t t' \<Longrightarrow> writes t' t'' \<Longrightarrow> writes t t''"
  unfolding writes_def by (metis comp_apply fold_append)

lemma writes_step: "writes t t' \<Longrightarrow> writes t (upd t' k x)"
  using writes_trans writes_upd by blast

lemma regular_ret [simp, intro]: "regular (ret x)"
  by (simp add: regular_def)

lemma regular_fail [simp, intro]: "regular (fail e)"
  by (simp add: regular_def)

lemma regular_bnd [intro]: "regular m \<Longrightarrow> (\<And>x. regular (f x)) \<Longrightarrow> regular (bnd m f)"
  by (fastforce simp: regular_def bnd_def split: sum.splits intro: writes_trans)

lemma regular_andThen [intro]: "regular m \<Longrightarrow> regular n \<Longrightarrow> regular (andThen m n)"
  by (auto simp: andThen_def)

lemma regular_ops [simp, intro]:
  "regular (tryGet B k)" "regular (Get B k)" "regular (ValueCopy B i)" "regular (Set B k v)"
  "regular (SetEntry B k v ex)" "regular (Delete B k)" "regular (iterFrom B rv k)" "regular (iterPrefix B rv k p)"
  "regular (lookup B k)" "regular (lookupValue B k)" "regular (getValue B k)"
  by (auto simp: regular_def txn_simps iterFrom_def iterPrefix_def writes_upd split: option.splits)

lemma regular_forEach [intro]: "(\<And>x. regular (f x)) \<Longrightarrow> regular (forEach f xs)"
  by (induction xs) auto

lemma regular_branches [intro]:
  "regular m \<Longrightarrow> (\<And>x. regular (f x)) \<Longrightarrow> regular (case v of None \<Rightarrow> m | Some x \<Rightarrow> f x)"
  "(\<And>x y. regular (g x y)) \<Longrightarrow> regular (case p of (x, y) \<Rightarrow> g x y)"
  "(\<And>e. regular (h e)) \<Longrightarrow> (\<And>x. regular (f x)) \<Longrightarrow> regular (case s of Inl e \<Rightarrow> h e | Inr x \<Rightarrow> f x)"
  "regular m \<Longrightarrow> regular m' \<Longrightarrow> regular (if b then m else m')"
  by (auto split: option.split prod.split sum.split)

text \<open>Deleting a list of keys.\<close>

definition delKeys :: "bytes list \<Rightarrow> 't \<Rightarrow> 't" where
  "delKeys ks t = fold (\<lambda>k t. upd t k None) ks t"

lemma view_delKeys [txn_simps]: "view (delKeys ks t) = (\<lambda>k. if k \<in> set ks then None else view t k)"
  unfolding delKeys_def
proof (induction ks arbitrary: t)
  case (Cons k ks)
  then show ?case by (auto simp: view_upd fun_eq_iff)
qed simp

lemma forEach_Delete [txn_simps]: "forEach (Delete B) ks t = Inr ((), delKeys ks t)"
  unfolding delKeys_def
  by (induction ks arbitrary: t) (simp_all add: andThen_def bnd_def Delete_run)

lemma forEach_Delete_fst [txn_simps]: "forEach (\<lambda>(k, i). Delete B k) its t = Inr ((), delKeys (map fst its) t)"
  unfolding delKeys_def
  by (induction its arbitrary: t) (auto simp: andThen_def bnd_def Delete_run)

end

text \<open>Keys with a given prefix are contiguous in byte order and start at the prefix itself.\<close>

lemma prefix_ge: "prefix p (x :: bytes) \<Longrightarrow> p \<le> x"
proof (induction p arbitrary: x)
  case (Cons c p)
  then show ?case by (cases x) auto
qed simp

lemma prefix_convex:
  "prefix p (y :: bytes) \<Longrightarrow> p \<le> x \<Longrightarrow> x \<le> y \<Longrightarrow> prefix p x"
proof (induction p arbitrary: x y)
  case (Cons c p)
  then show ?case by (cases x; cases y) auto
qed simp

lemma takeWhile_prefix_sorted:
  assumes "sorted xs" "\<forall>x \<in> set xs. p \<le> (x :: bytes)"
  shows "takeWhile (prefix p) xs = filter (prefix p) xs"
  using assms
proof (induction xs)
  case (Cons x xs)
  show ?case
  proof (cases "prefix p x")
    case False
    have "\<not> prefix p y" if "y \<in> set xs" for y
    proof
      assume "prefix p y"
      moreover have "p \<le> x" "x \<le> y" using Cons.prems that by auto
      ultimately show False using False prefix_convex by blast
    qed
    then show ?thesis using False by simp
  qed (use Cons in simp)
qed simp

lemma map_fst_live_from [simp]: "map fst (live_from m k) = sorted_list_of_set {x \<in> dom m. k \<le> x}"
  by (simp add: live_from_def comp_def)

text \<open>What a prefix scan visits: the live keys with that prefix, in byte order, each once.\<close>

definition scan_prefix :: "(bytes \<rightharpoonup> item) \<Rightarrow> bytes \<Rightarrow> bytes list" where
  "scan_prefix m p = sorted_list_of_set {x \<in> dom m. prefix p x}"

lemma takeWhile_live_from:
  assumes "finite (dom m)"
  shows "takeWhile (\<lambda>x. prefix p (fst x)) (live_from m p) =
         map (\<lambda>x. (x, the (m x))) (scan_prefix m p)"
proof -
  let ?ks = "sorted_list_of_set {x \<in> dom m. p \<le> x}"
  have fin: "finite {x \<in> dom m. p \<le> x}" using assms by simp
  have "takeWhile (\<lambda>x. prefix p (fst x)) (live_from m p) =
        map (\<lambda>x. (x, the (m x))) (takeWhile (prefix p) ?ks)"
    by (simp add: live_from_def takeWhile_map comp_def)
  also have "takeWhile (prefix p) ?ks = filter (prefix p) ?ks"
    by (rule takeWhile_prefix_sorted) (use fin in auto)
  also have "filter (prefix p) ?ks = sorted_list_of_set {x \<in> dom m. prefix p x}"
  proof (rule sorted_distinct_set_unique)
    show "set (filter (prefix p) ?ks) = set (sorted_list_of_set {x \<in> dom m. prefix p x})"
      using assms fin by (auto dest: prefix_ge)
  qed (use fin in \<open>simp_all add: sorted_wrt_filter\<close>)
  finally show ?thesis by (simp add: scan_prefix_def)
qed

lemma set_scan_prefix: "finite (dom m) \<Longrightarrow> set (scan_prefix m p) = {x \<in> dom m. prefix p x}"
  by (simp add: scan_prefix_def)

lemma distinct_scan_prefix [simp]: "distinct (scan_prefix m p)"
  by (simp add: scan_prefix_def)

section \<open>The database in managed mode\<close>

text \<open>\<^verbatim>\<open>badger.OpenManaged\<close>: the store chooses the read and commit timestamps itself.\<close>

record ('d, 't) db_ops =
  newTransactionAt :: "'d \<Rightarrow> u64 \<Rightarrow> 't"
  commitAt :: "'d \<Rightarrow> 't \<Rightarrow> u64 \<Rightarrow> go_error + 'd"
  setDiscardTs :: "'d \<Rightarrow> u64 \<Rightarrow> 'd"
  maxVersion :: "'d \<Rightarrow> u64"

abbreviation MaxUint64 :: u64 where "MaxUint64 \<equiv> - 1"

text \<open>
  \<open>snap d r\<close> is what a transaction opened on \<open>d\<close> with read timestamp \<open>r\<close> sees, \<open>pend t\<close> the
  writes of \<open>t\<close> that are not committed yet (\<open>Some None\<close> for a pending deletion). A successful
  commit overlays the pending writes for readers at or after its timestamp and changes nothing for
  readers before it; moving the discard timestamp changes no content a later reader sees.
\<close>

locale badger_db = badger_txn B view upd now
  for B :: "'t txn_ops" and view :: "'t \<Rightarrow> bytes \<rightharpoonup> item"
    and upd :: "'t \<Rightarrow> bytes \<Rightarrow> item option \<Rightarrow> 't" and now :: u64 +
  fixes D :: "('d, 't) db_ops"
    and snap :: "'d \<Rightarrow> u64 \<Rightarrow> bytes \<rightharpoonup> item"
    and pend :: "'t \<Rightarrow> bytes \<rightharpoonup> item option"
  assumes new_view: "view (newTransactionAt D d r) = snap d r"
    and new_pend: "pend (newTransactionAt D d r) = Map.empty"
    and upd_pend: "pend (upd t k x) = (pend t)(k \<mapsto> x)"
    and commit_snap: "maxVersion D d < ts \<Longrightarrow> commitAt D d t ts = Inr d' \<Longrightarrow>
          snap d' r k = (if ts \<le> r then (case pend t k of None \<Rightarrow> snap d r k | Some x \<Rightarrow> x)
                         else snap d r k)"
    and commit_version: "maxVersion D d < ts \<Longrightarrow> commitAt D d t ts = Inr d' \<Longrightarrow> maxVersion D d' \<le> ts"
    and discard_snap: "r \<ge> s \<Longrightarrow> snap (setDiscardTs D d s) r = snap d r"
    and discard_version: "maxVersion D (setDiscardTs D d s) = maxVersion D d"
begin

definition from_latest :: "'d \<Rightarrow> 't \<Rightarrow> bool" where
  "from_latest d t \<longleftrightarrow> (\<forall>k. view t k = (case pend t k of None \<Rightarrow> snap d MaxUint64 k | Some x \<Rightarrow> x))"

lemma from_latest_new: "from_latest d (newTransactionAt D d MaxUint64)"
  by (simp add: from_latest_def new_view new_pend)

lemma from_latest_upd: "from_latest d t \<Longrightarrow> from_latest d (upd t k x)"
  by (simp add: from_latest_def view_upd upd_pend)

lemma from_latest_writes: "from_latest d t \<Longrightarrow> writes t t' \<Longrightarrow> from_latest d t'"
proof -
  have "from_latest d (fold (\<lambda>(k, x) t. upd t k x) ws t)" if "from_latest d t" for ws
    using that by (induction ws arbitrary: t) (auto simp: from_latest_upd)
  then show "from_latest d t \<Longrightarrow> writes t t' \<Longrightarrow> from_latest d t'" by (auto simp: writes_def)
qed

text \<open>A transaction that started from the latest content publishes exactly its view.\<close>

lemma commit_view:
  assumes "maxVersion D d < ts" "commitAt D d t ts = Inr d'" "from_latest d t"
  shows "snap d' MaxUint64 = view t"
proof
  fix k
  have "ts \<le> MaxUint64" by simp
  then show "snap d' MaxUint64 k = view t k"
    using commit_snap [OF assms(1,2), of MaxUint64 k] assms(3)
    by (simp add: from_latest_def split: option.splits)
qed

end

section \<open>A reference engine\<close>

text \<open>
  An executable engine that meets the contract: a transaction is an association list with the
  newest binding first together with the list of its pending writes, a database the list of its
  committed versions; its clock stands at 0. It shows that the laws are consistent and lets concrete runs be evaluated.
\<close>

record kv_txn =
  kv_base :: "(bytes \<times> item) list"
  kv_pend :: "(bytes \<times> item option) list"

definition kv_view :: "kv_txn \<Rightarrow> bytes \<rightharpoonup> item" where
  "kv_view t k = (case map_of (kv_pend t) k of None \<Rightarrow> map_of (kv_base t) k | Some x \<Rightarrow> x)"

definition kv_upd :: "kv_txn \<Rightarrow> bytes \<Rightarrow> item option \<Rightarrow> kv_txn" where
  "kv_upd t k x = t\<lparr>kv_pend := (k, x) # kv_pend t\<rparr>"

definition kv_keys :: "kv_txn \<Rightarrow> bytes list" where
  "kv_keys t = sort (remdups (filter (\<lambda>k. kv_view t k \<noteq> None)
                 (map fst (kv_pend t) @ map fst (kv_base t))))"

definition kv_ops :: "kv_txn txn_ops" where
  "kv_ops = \<lparr>txn_get = (\<lambda>t k. case kv_view t k of None \<Rightarrow> Inl ErrKeyNotFound | Some i \<Rightarrow> Inr i),
             value_copy = (\<lambda>t i. Inr (ival i)),
             txn_set = (\<lambda>t k v. Inr (kv_upd t k (Some \<lparr>ival = v, iexp = 0\<rparr>))),
             txn_set_entry = (\<lambda>t k v ex. Inr (kv_upd t k (Some \<lparr>ival = v, iexp = ex\<rparr>))),
             txn_delete = (\<lambda>t k. Inr (kv_upd t k None)),
             txn_iter = (\<lambda>t rv k. map (\<lambda>x. (x, the (kv_view t x)))
                (if rv then rev (filter (\<lambda>x. x \<le> k) (kv_keys t)) else filter (\<lambda>x. k \<le> x) (kv_keys t)))\<rparr>"

lemma kv_dom: "dom (kv_view t) \<subseteq> set (map fst (kv_pend t) @ map fst (kv_base t))"
  by (auto simp: kv_view_def split: option.splits dest!: map_of_SomeD) force+

lemma kv_keys_sorted: "filter P (kv_keys t) = sorted_list_of_set {x \<in> dom (kv_view t). P x}"
proof (rule sorted_distinct_set_unique)
  have fin: "finite {x \<in> dom (kv_view t). P x}"
    by (rule finite_subset [of _ "set (map fst (kv_pend t) @ map fst (kv_base t))"])
      (use kv_dom [of t] in auto)
  show "set (filter P (kv_keys t)) = set (sorted_list_of_set {x \<in> dom (kv_view t). P x})"
    using kv_dom [of t] fin by (auto simp: kv_keys_def)
qed (simp_all add: kv_keys_def sorted_wrt_filter)

interpretation kv: badger_txn kv_ops kv_view kv_upd 0
proof unfold_locales
  fix t
  show "finite (dom (kv_view t))" using kv_dom [of t] by (rule finite_subset) simp
qed (auto simp: kv_ops_def kv_upd_def kv_view_def live_from_def live_downto_def kv_keys_sorted fun_eq_iff word_gt_0
       split: option.splits)

record kv_db =
  kv_versions :: "(u64 \<times> (bytes \<times> item option) list) list"

definition kv_snap_list :: "kv_db \<Rightarrow> u64 \<Rightarrow> (bytes \<times> item option) list" where
  "kv_snap_list d r = concat (map snd (filter (\<lambda>v. fst v \<le> r) (kv_versions d)))"

definition kv_snap :: "kv_db \<Rightarrow> u64 \<Rightarrow> bytes \<rightharpoonup> item" where
  "kv_snap d r k = (case map_of (kv_snap_list d r) k of None \<Rightarrow> None | Some x \<Rightarrow> x)"

definition kv_flatten :: "(bytes \<times> item option) list \<Rightarrow> (bytes \<times> item) list" where
  "kv_flatten xs = map (\<lambda>k. (k, the (the (map_of xs k))))
     (filter (\<lambda>k. map_of xs k \<noteq> Some None) (remdups (map fst xs)))"

definition kv_db_ops :: "(kv_db, kv_txn) db_ops" where
  "kv_db_ops = \<lparr>newTransactionAt = (\<lambda>d r. \<lparr>kv_base = kv_flatten (kv_snap_list d r), kv_pend = []\<rparr>),
                commitAt = (\<lambda>d t ts. Inr (d\<lparr>kv_versions := (ts, kv_pend t) # kv_versions d\<rparr>)),
                setDiscardTs = (\<lambda>d s. d),
                maxVersion = (\<lambda>d. foldr (\<lambda>v m. max (fst v) m) (kv_versions d) 0)\<rparr>"

lemma map_of_map_pair: "map_of (map (\<lambda>k. (k, f k)) ks) k = (if k \<in> set ks then Some (f k) else None)"
  by (induction ks) auto

lemma map_of_kv_flatten:
  "map_of (kv_flatten xs) k = (case map_of xs k of None \<Rightarrow> None | Some x \<Rightarrow> x)"
proof (cases "map_of xs k")
  case None
  then have "k \<notin> fst ` set xs" by (simp add: map_of_eq_None_iff)
  with None show ?thesis by (simp add: kv_flatten_def map_of_map_pair)
next
  case (Some x)
  then have "k \<in> fst ` set xs" by (metis map_of_eq_None_iff option.distinct(1))
  with Some show ?thesis by (cases x) (simp_all add: kv_flatten_def map_of_map_pair)
qed

interpretation kvd: badger_db kv_ops kv_view kv_upd 0 kv_db_ops kv_snap "map_of \<circ> kv_pend"
proof unfold_locales
  fix d r
  show "kv_view (newTransactionAt kv_db_ops d r) = kv_snap d r"
    by (simp add: kv_db_ops_def kv_view_def kv_snap_def map_of_kv_flatten fun_eq_iff)
next
  fix d ts t d' r k
  assume "maxVersion kv_db_ops d < ts" "commitAt kv_db_ops d t ts = Inr d'"
  then show "kv_snap d' r k = (if ts \<le> r then (case (map_of \<circ> kv_pend) t k of None \<Rightarrow> kv_snap d r k | Some x \<Rightarrow> x)
                         else kv_snap d r k)"
    by (cases "ts \<le> r")
      (auto simp: kv_db_ops_def kv_snap_def kv_snap_list_def map_add_def split: option.splits)
qed (auto simp: kv_db_ops_def kv_upd_def)

end
