(* ===== verification/TsSource.thy ===== *)
theory TsSource
  imports Badger
begin

text \<open>
  Commit timestamps, \<^verbatim>\<open>internal/store/ts_source.go\<close>. \<open>tsSource\<close> hands out one timestamp per commit
  attempt, tracks the attempts in flight and maintains two watermarks: \<open>ts_done\<close>, the end of the
  prefix of timestamps whose attempts have all finished, and \<open>ts_discarded\<close>, the value last passed
  to Badger's \<^verbatim>\<open>SetDiscardTs\<close>. The first half models the methods, each atomic under the mutex;
  the second half runs the writers of \<^verbatim>\<open>commitTS\<close> concurrently as a step relation and proves what the
  replication feed and Badger rely on in every interleaving.
\<close>

section \<open>The timestamp source\<close>

record tsSource =
  ts_next :: u64
  ts_pending :: "u64 set"
  ts_done :: u64
  ts_discarded :: u64

definition newTSSource :: tsSource where
  "newTSSource = \<lparr>ts_next = 1, ts_pending = {}, ts_done = 0, ts_discarded = 0\<rparr>"

text \<open>\<^verbatim>\<open>Init\<close> is given what \<^verbatim>\<open>db.MaxVersion()\<close> returned.\<close>

definition tsInit :: "u64 \<Rightarrow> tsSource \<Rightarrow> tsSource" where
  "tsInit mv t = t\<lparr>ts_next := mv + 1\<rparr>"

definition tsBegin :: "tsSource \<Rightarrow> u64 \<times> tsSource" where
  "tsBegin t = (let ts = ts_next t
                in (ts, t\<lparr>ts_next := ts_next t + 1, ts_pending := insert ts (ts_pending t)\<rparr>))"

text \<open>The loop of \<^verbatim>\<open>End\<close>: advance over finished timestamps, never past the allocated ones.\<close>

function advanceDone :: "u64 set \<Rightarrow> u64 \<Rightarrow> u64 \<Rightarrow> u64" where
  "advanceDone pend nxt dn =
     (if dn + 1 < nxt then (if dn + 1 \<in> pend then dn else advanceDone pend nxt (dn + 1)) else dn)"
  by pat_completeness auto

termination
proof (relation "measure (\<lambda>(pend, nxt, dn). unat (nxt - (dn + 1)))")
  fix pend :: "u64 set" and nxt dn :: u64
  assume "dn + 1 < nxt"
  then have "nxt - (dn + 1) \<noteq> 0" by auto
  then have "unat (nxt - (dn + 1) - 1) < unat (nxt - (dn + 1))"
    by (metis measure_unat word_less_nat_alt)
  then show "((pend, nxt, dn + 1), pend, nxt, dn)
      \<in> measure (\<lambda>(pend, nxt, dn). unat (nxt - (dn + 1)))"
    by (simp only: in_measure prod.case diff_diff_eq)
qed simp

declare advanceDone.simps [simp del]

definition tsEnd :: "u64 \<Rightarrow> tsSource \<Rightarrow> tsSource" where
  "tsEnd ts t = (let pend = ts_pending t - {ts}
                 in t\<lparr>ts_pending := pend, ts_done := advanceDone pend (ts_next t) (ts_done t)\<rparr>)"

definition doneWater :: "tsSource \<Rightarrow> u64" where
  "doneWater t = ts_done t"

definition SafeDiscard :: "tsSource \<Rightarrow> u64" where
  "SafeDiscard t = ts_done t"

definition AdvanceDiscard :: "tsSource \<Rightarrow> u64 \<times> tsSource" where
  "AdvanceDiscard t = (if ts_done t > ts_discarded t then (ts_done t, t\<lparr>ts_discarded := ts_done t\<rparr>)
                       else (0, t))"

section \<open>The watermark\<close>

lemma unat_inc: "d < (n :: u64) \<Longrightarrow> unat (d + 1) = Suc (unat d)"
proof -
  assume "d < n"
  then have "1 + d \<noteq> 0"
    by (metis add.commute add_eq_0_iff word_order.extremum_strict)
  then show ?thesis using unatSuc [of d] by (simp add: add.commute)
qed

lemma less_u64_pos: "a < b \<Longrightarrow> (0 :: u64) < b"
  by (rule order.strict_trans1 [of 0 a]) simp_all

lemma inc_u64:
  assumes "d < (n :: u64)"
  shows "d < d + 1" "d + 1 \<le> n" "x \<le> d + 1 \<longleftrightarrow> x \<le> d \<or> x = d + 1" "d < x \<longleftrightarrow> d + 1 \<le> x"
    "x < d + 1 \<longleftrightarrow> x \<le> d"
  using assms unat_inc [OF assms]
  by (auto simp: word_less_nat_alt word_le_nat_alt le_Suc_eq word_unat_eq_iff)

lemma advanceDone_spec:
  assumes "d < n"
  shows "d \<le> advanceDone P n d \<and> advanceDone P n d < n
    \<and> (\<forall>x. d < x \<and> x \<le> advanceDone P n d \<longrightarrow> x \<notin> P)
    \<and> (advanceDone P n d + 1 < n \<longrightarrow> advanceDone P n d + 1 \<in> P)"
  using assms
proof (induction P n d rule: advanceDone.induct)
  case (1 P n d)
  show ?case
  proof (cases "d + 1 < n \<and> d + 1 \<notin> P")
    case True
    then have eq: "advanceDone P n d = advanceDone P n (d + 1)" by (subst advanceDone.simps) simp
    have "d \<le> advanceDone P n (d + 1)"
      using "1.IH" True inc_u64(1) [OF "1.prems"] by auto
    moreover have "d < x \<longleftrightarrow> d + 1 = x \<or> d + 1 < x" for x using inc_u64(4) [OF "1.prems", of x] by auto
    ultimately show ?thesis
      using "1.IH" True unfolding eq by auto
  next
    case False
    then show ?thesis using "1.prems" by (subst (1 2 3 4 5) advanceDone.simps) auto
  qed
qed


section \<open>Concurrent writers\<close>

text \<open>
  The writers of \<^verbatim>\<open>commitTS\<close>, one per allocated timestamp. A writer runs its body and calls
  \<^verbatim>\<open>CommitAt\<close> (\<open>InBody\<close>), after a successful commit takes \<^verbatim>\<open>discardMu\<close>, calls \<^verbatim>\<open>AdvanceDiscard\<close> and
  passes the value on to \<^verbatim>\<open>SetDiscardTs\<close> (\<open>Committed\<close>, \<open>Advanced\<close>), and in the end runs the deferred
  \<^verbatim>\<open>End\<close> (\<open>Leaving\<close>). \<open>log_keys\<close> are the timestamps under which a propagation log key exists, \<open>discard_ts\<close>
  is Badger's discard timestamp, \<open>discardMu\<close> the writer holding that mutex.
\<close>

datatype phase = InBody | Committed | Advanced u64 | Leaving

record commit_sys =
  src :: tsSource
  phases :: "u64 \<rightharpoonup> phase"
  discardMu :: "u64 option"
  discard_ts :: u64
  log_keys :: "u64 set"

datatype ts_event =
    EvBegin
  | EvCommit u64 bool       \<comment> \<open>\<^verbatim>\<open>CommitAt\<close> succeeded; was a log value written?\<close>
  | EvFail u64 bool         \<comment> \<open>body, log write or commit failed; did the tombstone get through?\<close>
  | EvAdvance u64
  | EvSetDiscard u64
  | EvEnd u64

definition log_after :: "bool \<Rightarrow> u64 \<Rightarrow> u64 set \<Rightarrow> u64 set" where
  "log_after lg ts ks = (if lg then insert ts ks else ks)"

text \<open>\<^verbatim>\<open>if sd := AdvanceDiscard(); sd > 0 { SetDiscardTs(sd) }\<close>\<close>

definition discard_after :: "u64 \<Rightarrow> u64 \<Rightarrow> u64" where
  "discard_after sd cur = (if sd > 0 then sd else cur)"

inductive ts_step :: "commit_sys \<Rightarrow> ts_event \<Rightarrow> commit_sys \<Rightarrow> bool" where
  step_begin: "tsBegin (src s) = (ts, t') \<Longrightarrow> ts_next (src s) < MaxUint64 \<Longrightarrow>
     ts_step s EvBegin (s\<lparr>src := t', phases := (phases s)(ts \<mapsto> InBody)\<rparr>)"
| step_commit: "phases s ts = Some InBody \<Longrightarrow>
     ts_step s (EvCommit ts lg) (s\<lparr>phases := (phases s)(ts \<mapsto> Committed),
        log_keys := log_after lg ts (log_keys s)\<rparr>)"
| step_fail: "phases s ts = Some InBody \<Longrightarrow>
     ts_step s (EvFail ts lg) (s\<lparr>phases := (phases s)(ts \<mapsto> Leaving),
        log_keys := log_after lg ts (log_keys s)\<rparr>)"
| step_advance: "phases s ts = Some Committed \<Longrightarrow> discardMu s = None \<Longrightarrow>
     AdvanceDiscard (src s) = (sd, t') \<Longrightarrow>
     ts_step s (EvAdvance ts) (s\<lparr>src := t', phases := (phases s)(ts \<mapsto> Advanced sd),
        discardMu := Some ts\<rparr>)"
| step_set_discard: "phases s ts = Some (Advanced sd) \<Longrightarrow>
     ts_step s (EvSetDiscard ts) (s\<lparr>phases := (phases s)(ts \<mapsto> Leaving), discardMu := None,
        discard_ts := discard_after sd (discard_ts s)\<rparr>)"
| step_end: "phases s ts = Some Leaving \<Longrightarrow>
     ts_step s (EvEnd ts) (s\<lparr>src := tsEnd ts (src s), phases := (phases s)(ts := None)\<rparr>)"

definition start_sys :: "u64 \<Rightarrow> commit_sys" where
  "start_sys mv = \<lparr>src = tsInit mv newTSSource, phases = Map.empty, discardMu = None, discard_ts = 0,
                   log_keys = {}\<rparr>"

inductive ts_run :: "u64 \<Rightarrow> ts_event list \<Rightarrow> commit_sys \<Rightarrow> bool" for mv where
  run_start: "mv < MaxUint64 \<Longrightarrow> ts_run mv [] (start_sys mv)"
| run_step: "ts_run mv evs s \<Longrightarrow> ts_step s ev s' \<Longrightarrow> ts_run mv (evs @ [ev]) s'"

inductive_cases ts_stepE: "ts_step s ev s'"

text \<open>The invariant: the watermark lies below every timestamp in flight, the writers in flight are the
  pending timestamps, and \<^verbatim>\<open>discardMu\<close> keeps \<^verbatim>\<open>discarded\<close> and Badger's value in step.\<close>

definition src_inv :: "tsSource \<Rightarrow> bool" where
  "src_inv t \<longleftrightarrow> ts_done t < ts_next t \<and> ts_discarded t \<le> ts_done t
     \<and> (\<forall>x. x \<in> ts_pending t \<longrightarrow> ts_done t < x \<and> x < ts_next t)"

definition is_advanced :: "phase option \<Rightarrow> bool" where
  "is_advanced p \<longleftrightarrow> (case p of Some (Advanced _) \<Rightarrow> True | _ \<Rightarrow> False)"

definition mu_inv :: "commit_sys \<Rightarrow> bool" where
  "mu_inv s \<longleftrightarrow> (case discardMu s of
      None \<Rightarrow> (\<forall>ts. \<not> is_advanced (phases s ts)) \<and> discard_ts s = ts_discarded (src s)
    | Some ts \<Rightarrow> (\<forall>x. is_advanced (phases s x) \<longleftrightarrow> x = ts)
        \<and> discard_ts s \<le> ts_discarded (src s)
        \<and> (\<forall>sd. phases s ts = Some (Advanced sd) \<longrightarrow>
             discard_after sd (discard_ts s) = ts_discarded (src s)))"

definition sys_inv :: "commit_sys \<Rightarrow> bool" where
  "sys_inv s \<longleftrightarrow> src_inv (src s) \<and> dom (phases s) = ts_pending (src s) \<and> mu_inv s"

lemma is_advanced_simps [simp]:
  "\<not> is_advanced None" "\<not> is_advanced (Some InBody)" "\<not> is_advanced (Some Committed)"
  "\<not> is_advanced (Some Leaving)" "is_advanced (Some (Advanced sd))"
  by (simp_all add: is_advanced_def)

lemma mu_inv_holder:
  assumes "mu_inv s" "phases s ts = Some (Advanced sd)"
  shows "discardMu s = Some ts" "discard_after sd (discard_ts s) = ts_discarded (src s)"
    "discard_ts s \<le> ts_discarded (src s)"
proof -
  have "is_advanced (phases s ts)" using assms(2) by simp
  then show h: "discardMu s = Some ts"
    using assms(1) by (auto simp: mu_inv_def split: option.splits)
  show "discard_after sd (discard_ts s) = ts_discarded (src s)"
    "discard_ts s \<le> ts_discarded (src s)"
    using assms h by (simp_all add: mu_inv_def)
qed

lemma src_inv_begin:
  assumes "src_inv t" "tsBegin t = (ts, t')" "ts_next t < MaxUint64"
  shows "src_inv t'" "ts_pending t' = insert ts (ts_pending t)" "ts_done t' = ts_done t"
    "ts_discarded t' = ts_discarded t" "ts = ts_next t" "ts_next t' = ts + 1"
  using assms inc_u64(1) [OF assms(3)]
  by (auto simp: src_inv_def tsBegin_def Let_def dest: order.strict_trans)

lemma src_inv_end:
  assumes "src_inv t"
  shows "src_inv (tsEnd ts t)" "ts_pending (tsEnd ts t) = ts_pending t - {ts}"
    "ts_done t \<le> ts_done (tsEnd ts t)" "ts_discarded (tsEnd ts t) = ts_discarded t"
    "ts_next (tsEnd ts t) = ts_next t"
proof -
  let ?P = "ts_pending t - {ts}"
  have spec: "ts_done t \<le> advanceDone ?P (ts_next t) (ts_done t)
      \<and> advanceDone ?P (ts_next t) (ts_done t) < ts_next t
      \<and> (\<forall>x. ts_done t < x \<and> x \<le> advanceDone ?P (ts_next t) (ts_done t) \<longrightarrow> x \<notin> ?P)"
    using advanceDone_spec [of "ts_done t" "ts_next t" ?P] assms by (simp add: src_inv_def)
  then show "src_inv (tsEnd ts t)"
    using assms by (fastforce simp: src_inv_def tsEnd_def Let_def simp flip: linorder_not_le)
  show "ts_done t \<le> ts_done (tsEnd ts t)" using spec by (simp add: tsEnd_def Let_def)
qed (simp_all add: tsEnd_def Let_def)

lemma src_inv_advance:
  assumes "src_inv t" "AdvanceDiscard t = (sd, t')"
  shows "src_inv t'" "ts_pending t' = ts_pending t" "ts_done t' = ts_done t" "ts_next t' = ts_next t"
    "ts_discarded t \<le> ts_discarded t'" "if sd > 0 then sd = ts_discarded t' else t' = t"
  using assms by (auto simp: src_inv_def AdvanceDiscard_def dest: less_u64_pos split: if_splits)

lemma sys_inv_start: "mv < MaxUint64 \<Longrightarrow> sys_inv (start_sys mv)"
  using inc_u64(1) [of mv MaxUint64]
  by (auto simp: sys_inv_def src_inv_def mu_inv_def start_sys_def tsInit_def newTSSource_def
      intro: order.strict_trans1 [of 0 mv])


lemma mu_inv_frame:
  assumes "mu_inv s" "discardMu s' = discardMu s" "discard_ts s' = discard_ts s"
    "ts_discarded (src s') = ts_discarded (src s)" "phases s' = (phases s)(ts := p)"
    "\<not> is_advanced (phases s ts)" "\<not> is_advanced p"
  shows "mu_inv s'"
  using assms by (auto simp: mu_inv_def split: option.splits)

lemma sys_inv_step:
  assumes "sys_inv s" "ts_step s ev s'"
  shows "sys_inv s'"
  using assms(2,1)
proof cases
  case (step_begin ts t')
  note b = src_inv_begin [of "src s" ts t']
  have "phases s ts = None"
    using assms(1) step_begin b(5) by (force simp: sys_inv_def src_inv_def domIff)
  then have "mu_inv s'"
    by (intro mu_inv_frame [of s s' ts "Some InBody"]) (use step_begin assms(1) b in \<open>auto simp: sys_inv_def\<close>)
  with step_begin assms(1) b show ?thesis by (auto simp: sys_inv_def)
next
  case (step_commit ts lg)
  then have "mu_inv s'"
    by (intro mu_inv_frame [of s s' ts "Some Committed"]) (use assms(1) in \<open>auto simp: sys_inv_def\<close>)
  with step_commit show ?thesis using assms(1) by (auto simp: sys_inv_def)
next
  case (step_fail ts lg)
  then have "mu_inv s'"
    by (intro mu_inv_frame [of s s' ts "Some Leaving"]) (use assms(1) in \<open>auto simp: sys_inv_def\<close>)
  with step_fail show ?thesis using assms(1) by (auto simp: sys_inv_def)
next
  case (step_advance ts sd t')
  then show ?thesis using assms(1) src_inv_advance [of "src s" sd t']
    by (auto simp: sys_inv_def mu_inv_def discard_after_def split: if_splits)
next
  case (step_set_discard ts sd)
  have mu: "mu_inv s" using assms(1) by (simp add: sys_inv_def)
  note h = mu_inv_holder [OF mu step_set_discard(3)]
  have "\<not> is_advanced (phases s' x)" for x
    using mu h(1) step_set_discard(2) by (auto simp: mu_inv_def)
  then have "mu_inv s'" using step_set_discard(2) h(2) by (simp add: mu_inv_def)
  with step_set_discard show ?thesis using assms(1) by (auto simp: sys_inv_def)
next
  case (step_end ts)
  note e = src_inv_end [of "src s" ts]
  from step_end have "mu_inv s'"
    by (intro mu_inv_frame [of s s' ts None]) (use assms(1) e in \<open>auto simp: sys_inv_def\<close>)
  with step_end e show ?thesis using assms(1) by (auto simp: sys_inv_def)
qed

lemma sys_inv_run: "ts_run mv evs s \<Longrightarrow> sys_inv s"
  by (induction rule: ts_run.induct) (auto intro: sys_inv_start sys_inv_step)

text \<open>Every timestamp above the start is unallocated, in flight or finished; one that has left its
  body in a run where every attempt leaves a frame has its log key.\<close>

fun leaves_log :: "ts_event \<Rightarrow> bool" where
  "leaves_log (EvCommit ts lg) = lg"
| "leaves_log (EvFail ts lg) = lg"
| "leaves_log _ = True"

definition log_inv :: "u64 \<Rightarrow> commit_sys \<Rightarrow> bool" where
  "log_inv mv s \<longleftrightarrow> (\<forall>ts. mv < ts \<and> ts < ts_next (src s) \<longrightarrow> ts \<in> log_keys s \<or> phases s ts = Some InBody)"

lemma log_inv_step:
  assumes "log_inv mv s" "ts_step s ev s'" "leaves_log ev" "sys_inv s"
  shows "log_inv mv s'"
  using assms(2,1,3)
proof cases
  case (step_begin ts t')
  then have "x < ts_next t' \<longleftrightarrow> x < ts_next (src s) \<or> x = ts" for x
    using src_inv_begin(5,6) [of "src s" ts t'] assms(4) inc_u64(5) [of "ts_next (src s)" MaxUint64 x]
    by (auto simp: sys_inv_def)
  with step_begin assms(1) show ?thesis by (auto simp: log_inv_def)
next
  case (step_advance ts sd t')
  then show ?thesis using assms(1,4) src_inv_advance [of "src s" sd t']
    by (auto simp: log_inv_def sys_inv_def)
next
  case (step_end ts)
  then show ?thesis using assms(1,4) src_inv_end(5) [of "src s" ts]
    by (auto simp: log_inv_def sys_inv_def)
qed (auto simp: log_inv_def log_after_def)

lemma log_inv_run: "ts_run mv evs s \<Longrightarrow> (\<And>ev. ev \<in> set evs \<Longrightarrow> leaves_log ev) \<Longrightarrow> log_inv mv s"
proof (induction rule: ts_run.induct)
  case run_start
  have "\<not> (mv < x \<and> x < mv + 1)" for x
    using inc_u64(5) [OF run_start(1), of x] by (simp add: not_less)
  then show ?case by (simp add: log_inv_def start_sys_def tsInit_def newTSSource_def)
next
  case (run_step evs s ev s')
  have "log_inv mv s" using run_step.IH run_step.prems by simp
  moreover have "leaves_log ev" using run_step.prems by simp
  ultimately show ?case
    by (rule log_inv_step [OF _ run_step.hyps(2) _ sys_inv_run [OF run_step.hyps(1)]])
qed

lemma ts_step_mono:
  assumes "ts_step s ev s'" "sys_inv s"
  shows "ts_done (src s) \<le> ts_done (src s')" "discard_ts s \<le> discard_ts s'"
    "ts_next (src s) \<le> ts_next (src s')"
proof -
  have inv: "src_inv (src s)" "mu_inv s" using assms(2) by (simp_all add: sys_inv_def)
  show "ts_done (src s) \<le> ts_done (src s')"
    using assms(1)
  proof cases
    case (step_begin ts t')
    then show ?thesis using src_inv_begin(3) [OF inv(1) step_begin(3,4)] by simp
  next
    case (step_advance ts sd t')
    then show ?thesis using src_inv_advance(3) [OF inv(1) step_advance(5)] by simp
  qed (simp_all add: src_inv_end(3) [OF inv(1)])
  show "discard_ts s \<le> discard_ts s'"
    using assms(1)
  proof cases
    case (step_set_discard ts sd)
    then show ?thesis using mu_inv_holder [OF inv(2) step_set_discard(3)] by simp
  qed simp_all
  show "ts_next (src s) \<le> ts_next (src s')"
    using assms(1)
  proof cases
    case (step_begin ts t')
    then show ?thesis
      using src_inv_begin(5,6) [OF inv(1) step_begin(3,4)] inc_u64(1) [OF step_begin(4)] by simp
  next
    case (step_advance ts sd t')
    then show ?thesis using src_inv_advance(4) [OF inv(1) step_advance(5)] by simp
  qed (simp_all add: src_inv_end(5) [OF inv(1)])
qed


text \<open>The timestamps in use: everything logged or in flight lies above the recovered version and below
  the next timestamp; once an attempt has ended the watermark is as far as it can be.\<close>

definition alloc_inv :: "u64 \<Rightarrow> commit_sys \<Rightarrow> bool" where
  "alloc_inv mv s \<longleftrightarrow> mv < ts_next (src s) \<and> (\<forall>k. k \<in> log_keys s \<longrightarrow> k < ts_next (src s))"

definition max_inv :: "commit_sys \<Rightarrow> bool" where
  "max_inv s \<longleftrightarrow> (ts_done (src s) + 1 < ts_next (src s) \<longrightarrow> ts_done (src s) + 1 \<in> ts_pending (src s))"

lemma alloc_inv_step:
  assumes "alloc_inv mv s" "ts_step s ev s'" "sys_inv s"
  shows "alloc_inv mv s'"
proof -
  have le: "ts_next (src s) \<le> ts_next (src s')" using ts_step_mono(3) assms by blast
  have "phases s ts = Some ph \<Longrightarrow> ts < ts_next (src s)" for ts ph
    using assms(3) by (auto simp: sys_inv_def src_inv_def)
  then have "k \<in> log_keys s' \<Longrightarrow> k \<in> log_keys s \<or> k < ts_next (src s)" for k
    using assms(2) by (auto simp: log_after_def elim!: ts_stepE split: if_splits)
  then show ?thesis using assms(1) le by (fastforce simp: alloc_inv_def)
qed

lemma alloc_inv_run: "ts_run mv evs s \<Longrightarrow> alloc_inv mv s"
proof (induction rule: ts_run.induct)
  case run_start
  then show ?case using inc_u64(1) [OF run_start]
    by (simp add: alloc_inv_def start_sys_def tsInit_def newTSSource_def)
next
  case (run_step evs s ev s')
  then show ?case using alloc_inv_step [OF _ run_step.hyps(2)] sys_inv_run [OF run_step.hyps(1)] by blast
qed

lemma max_inv_step:
  assumes "ts_step s ev s'" "sys_inv s" "max_inv s \<or> (\<exists>ts. ev = EvEnd ts)"
  shows "max_inv s'"
proof -
  have inv: "src_inv (src s)" using assms(2) by (simp add: sys_inv_def)
  show ?thesis
    using assms(1,3)
  proof cases
    case (step_begin ts t')
    note b = src_inv_begin [OF inv step_begin(3,4)]
    have "ts_done (src s) + 1 \<le> ts" using inv b(5) inc_u64(2) [of "ts_done (src s)" "ts_next (src s)"] by (simp add: src_inv_def)
    then have "ts_done (src s) + 1 = ts \<or> ts_done (src s) + 1 < ts_next (src s)" using b(5) by auto
    with step_begin(1,2) b(2,3,6) assms(3) show ?thesis by (auto simp: max_inv_def)
  next
    case (step_advance ts sd t')
    then show ?thesis using src_inv_advance(2,3,4) [OF inv step_advance(5)] assms(3)
      by (simp add: max_inv_def)
  next
    case (step_end ts)
    then show ?thesis
      using advanceDone_spec [of "ts_done (src s)" "ts_next (src s)" "ts_pending (src s) - {ts}"] inv
      by (simp add: max_inv_def src_inv_def tsEnd_def Let_def)
  qed (simp_all add: max_inv_def)
qed

lemma max_inv_run: "ts_run mv evs s \<Longrightarrow> EvEnd ts \<in> set evs \<Longrightarrow> max_inv s"
proof (induction rule: ts_run.induct)
  case (run_step evs s ev s')
  then show ?case
    using max_inv_step [OF run_step.hyps(2) sys_inv_run [OF run_step.hyps(1)]] by auto
qed simp

section \<open>Running the step relation\<close>

fun ts_exec :: "commit_sys \<Rightarrow> ts_event \<Rightarrow> commit_sys option" where
  "ts_exec s EvBegin = (if ts_next (src s) < MaxUint64
      then (case tsBegin (src s) of (ts, t') \<Rightarrow>
              Some (s\<lparr>src := t', phases := (phases s)(ts \<mapsto> InBody)\<rparr>)) else None)"
| "ts_exec s (EvCommit ts lg) = (if phases s ts = Some InBody
      then Some (s\<lparr>phases := (phases s)(ts \<mapsto> Committed),
                   log_keys := log_after lg ts (log_keys s)\<rparr>) else None)"
| "ts_exec s (EvFail ts lg) = (if phases s ts = Some InBody
      then Some (s\<lparr>phases := (phases s)(ts \<mapsto> Leaving),
                   log_keys := log_after lg ts (log_keys s)\<rparr>) else None)"
| "ts_exec s (EvAdvance ts) = (if phases s ts = Some Committed \<and> discardMu s = None
      then (case AdvanceDiscard (src s) of (sd, t') \<Rightarrow>
              Some (s\<lparr>src := t', phases := (phases s)(ts \<mapsto> Advanced sd), discardMu := Some ts\<rparr>))
      else None)"
| "ts_exec s (EvSetDiscard ts) = (case phases s ts of
      Some (Advanced sd) \<Rightarrow> Some (s\<lparr>phases := (phases s)(ts \<mapsto> Leaving), discardMu := None,
                                   discard_ts := discard_after sd (discard_ts s)\<rparr>)
    | _ \<Rightarrow> None)"
| "ts_exec s (EvEnd ts) = (if phases s ts = Some Leaving
      then Some (s\<lparr>src := tsEnd ts (src s), phases := (phases s)(ts := None)\<rparr>) else None)"

fun ts_exec_list :: "commit_sys \<Rightarrow> ts_event list \<Rightarrow> commit_sys option" where
  "ts_exec_list s [] = Some s"
| "ts_exec_list s (ev # evs) = (case ts_exec s ev of None \<Rightarrow> None | Some s' \<Rightarrow> ts_exec_list s' evs)"

lemma ts_exec_step: "ts_exec s ev = Some s' \<Longrightarrow> ts_step s ev s'"
  by (cases ev) (auto intro: ts_step.intros split: if_splits prod.splits option.splits phase.splits)

lemma ts_exec_run:
  "ts_run mv evs0 s \<Longrightarrow> ts_exec_list s evs = Some s' \<Longrightarrow> ts_run mv (evs0 @ evs) s'"
proof (induction evs arbitrary: evs0 s)
  case (Cons ev evs)
  then obtain s1 where s1: "ts_exec s ev = Some s1" "ts_exec_list s1 evs = Some s'"
    by (auto split: option.splits)
  have "ts_run mv (evs0 @ [ev]) s1" using Cons.prems(1) ts_exec_step [OF s1(1)] by (rule run_step)
  from Cons.IH [OF this s1(2)] show ?case by simp
qed simp

lemma ts_exec_list_run: "mv < MaxUint64 \<Longrightarrow> ts_exec_list (start_sys mv) evs = Some s \<Longrightarrow> ts_run mv evs s"
  using ts_exec_run [OF run_start] by fastforce

text \<open>Two writers that finish in the order opposite to their timestamps.\<close>

definition two_writers :: "ts_event list" where
  "two_writers = [EvBegin, EvBegin, EvCommit 2 True, EvAdvance 2, EvSetDiscard 2, EvEnd 2]"

definition two_writers_sys :: commit_sys where
  "two_writers_sys = the (ts_exec_list (start_sys 0) two_writers)"

definition both_done :: "ts_event list" where
  "both_done = two_writers @ [EvFail 1 True, EvEnd 1]"

lemma advanceDone_step:
  "dn + 1 < nxt \<Longrightarrow> dn + 1 \<in> pend \<Longrightarrow> advanceDone pend nxt dn = dn"
  "dn + 1 < nxt \<Longrightarrow> dn + 1 \<notin> pend \<Longrightarrow> advanceDone pend nxt dn = advanceDone pend nxt (dn + 1)"
  "\<not> dn + 1 < nxt \<Longrightarrow> advanceDone pend nxt dn = dn"
  by (subst advanceDone.simps, simp)+

lemma less_max_u64: "(0 :: u64) < MaxUint64" "(1 :: u64) < MaxUint64" "(2 :: u64) < MaxUint64"
  "(3 :: u64) < MaxUint64"
  by code_simp+

lemmas ts_eval = less_max_u64 log_after_def discard_after_def start_sys_def tsInit_def newTSSource_def tsBegin_def tsEnd_def AdvanceDiscard_def
  Let_def advanceDone_step

lemma two_writers_run: "ts_run 0 two_writers two_writers_sys"
proof (rule ts_exec_list_run)
  show "ts_exec_list (start_sys 0) two_writers = Some two_writers_sys"
    by (simp add: two_writers_sys_def two_writers_def ts_eval)
qed (simp add: less_max_u64)

lemma two_writers_state:
  "ts_pending (src two_writers_sys) = {1}" "ts_next (src two_writers_sys) = 3"
  "doneWater (src two_writers_sys) = 0" "discard_ts two_writers_sys = 0"
  "phases two_writers_sys 1 = Some InBody" "log_keys two_writers_sys = {2}"
  by (auto simp add: two_writers_sys_def two_writers_def ts_eval doneWater_def)

section \<open>Properties\<close>

text \<open>C13 In every interleaving of writers, the completion watermark lies strictly below every timestamp
  in flight, Badger's discard timestamp never passes the watermark, and neither of them ever moves
  backwards.\<close>

theorem watermark_safe:
  assumes "ts_run mv evs s" "ts_step s ev s'"
  shows "discard_ts s \<le> doneWater (src s) \<and> doneWater (src s) < ts_next (src s)
    \<and> (\<forall>ts. phases s ts \<noteq> None \<longrightarrow> doneWater (src s) < ts)
    \<and> doneWater (src s) \<le> doneWater (src s') \<and> discard_ts s \<le> discard_ts s'"
proof (intro conjI allI impI)
  have inv: "sys_inv s" using assms(1) by (rule sys_inv_run)
  have "discard_ts s \<le> ts_discarded (src s)"
    using inv by (auto simp: sys_inv_def mu_inv_def split: option.splits)
  then show "discard_ts s \<le> doneWater (src s)"
    using inv by (auto simp: sys_inv_def src_inv_def doneWater_def)
  show "doneWater (src s) < ts_next (src s)" "phases s ts \<noteq> None \<Longrightarrow> doneWater (src s) < ts" for ts
    using inv by (auto simp: sys_inv_def src_inv_def doneWater_def)
  show "doneWater (src s) \<le> doneWater (src s')" "discard_ts s \<le> discard_ts s'"
    using ts_step_mono(1,2) [OF assms(2) inv] by (simp_all add: doneWater_def)
qed

theorem watermark_safe_witness:
  "ts_step two_writers_sys (EvCommit 1 True) (the (ts_exec two_writers_sys (EvCommit 1 True)))
   \<and> phases two_writers_sys 1 = Some InBody \<and> doneWater (src two_writers_sys) < 1
   \<and> discard_ts two_writers_sys \<le> discard_ts (the (ts_exec two_writers_sys (EvCommit 1 True)))"
proof -
  have st: "ts_step two_writers_sys (EvCommit 1 True) (the (ts_exec two_writers_sys (EvCommit 1 True)))"
    by (rule ts_exec_step) (simp add: two_writers_state)
  show ?thesis using st watermark_safe [OF two_writers_run st] two_writers_state(5) by auto
qed

text \<open>C1 The replication log is dense up to the watermark: if every commit attempt leaves a frame under its
  timestamp (its log value, or the tombstone of a failed attempt), then every timestamp handed out
  since start-up that is at most the watermark has a log key, whatever the order of completion.\<close>

theorem log_dense_below_watermark:
  assumes "ts_run mv evs s" "\<And>ev. ev \<in> set evs \<Longrightarrow> leaves_log ev"
    and "mv < ts" "ts \<le> doneWater (src s)"
  shows "ts \<in> log_keys s"
proof -
  have inv: "sys_inv s" "log_inv mv s" using assms by (auto intro: sys_inv_run log_inv_run)
  then have "ts < ts_next (src s)" "ts \<notin> ts_pending (src s)"
    using assms(4) by (auto simp: sys_inv_def src_inv_def doneWater_def)
  then have "phases s ts = None" using inv(1) by (auto simp: sys_inv_def domIff)
  with \<open>ts < ts_next (src s)\<close> inv(2) assms(3) show ?thesis by (auto simp: log_inv_def)
qed

lemma both_done_run:
  obtains s where "ts_run 0 both_done s" "doneWater (src s) = 2" "ts_pending (src s) = {}" "ts_next (src s) = 3"
proof -
  have "\<exists>s. ts_exec_list (start_sys 0) both_done = Some s \<and> doneWater (src s) = 2
      \<and> ts_pending (src s) = {} \<and> ts_next (src s) = 3"
    by (simp add: both_done_def two_writers_def ts_eval doneWater_def)
  then show ?thesis using that ts_exec_list_run [of 0 both_done] less_max_u64(1) by blast
qed

theorem log_dense_below_watermark_witness:
  "\<exists>s. ts_run 0 both_done s \<and> doneWater (src s) = 2 \<and> 1 \<in> log_keys s \<and> 2 \<in> log_keys s"
proof -
  obtain s where s: "ts_run 0 both_done s" "doneWater (src s) = 2" by (rule both_done_run)
  have lv: "leaves_log ev" if "ev \<in> set both_done" for ev
    using that by (auto simp: both_done_def two_writers_def)
  have le: "(1 :: u64) \<le> 2" "(2 :: u64) \<le> 2" "(0 :: u64) < 1" "(0 :: u64) < 2" by simp_all
  show ?thesis
    using s log_dense_below_watermark [OF s(1) lv, of 1] log_dense_below_watermark [OF s(1) lv, of 2] le
    by auto
qed

text \<open>C21 Timestamps are never reused and the watermark does not lag: a new attempt gets a timestamp
  above the version recovered at start-up, above every log key and different from every timestamp
  in flight; and once some attempt has ended, a system with nothing in flight has its watermark at the
  last timestamp handed out.\<close>

theorem begin_fresh_and_watermark_complete:
  assumes "ts_run mv evs s"
  shows "mv < fst (tsBegin (src s)) \<and> (\<forall>k. k \<in> log_keys s \<longrightarrow> k < fst (tsBegin (src s)))
    \<and> phases s (fst (tsBegin (src s))) = None
    \<and> (EvEnd ts \<in> set evs \<and> phases s = Map.empty \<longrightarrow> doneWater (src s) + 1 = ts_next (src s))"
proof (intro conjI allI impI)
  have inv: "sys_inv s" "alloc_inv mv s" using assms by (auto intro: sys_inv_run alloc_inv_run)
  then show "mv < fst (tsBegin (src s))" "k \<in> log_keys s \<Longrightarrow> k < fst (tsBegin (src s))" for k
    by (auto simp: alloc_inv_def tsBegin_def Let_def)
  have "ts_next (src s) \<notin> dom (phases s)" using inv(1) by (auto simp: sys_inv_def src_inv_def)
  then show "phases s (fst (tsBegin (src s))) = None" by (auto simp: tsBegin_def Let_def)
  assume "EvEnd ts \<in> set evs \<and> phases s = Map.empty"
  then have "\<not> doneWater (src s) + 1 < ts_next (src s)"
    using max_inv_run [OF assms] inv(1) by (auto simp: max_inv_def sys_inv_def doneWater_def)
  moreover have "doneWater (src s) + 1 \<le> ts_next (src s)"
    using inv(1) inc_u64(2) [of "doneWater (src s)" "ts_next (src s)"]
    by (simp add: sys_inv_def src_inv_def doneWater_def)
  ultimately show "doneWater (src s) + 1 = ts_next (src s)" by simp
qed

theorem begin_fresh_and_watermark_complete_witness:
  "\<exists>s. ts_run 0 both_done s \<and> 0 < fst (tsBegin (src s)) \<and> doneWater (src s) + 1 = ts_next (src s)"
proof -
  obtain s where s: "ts_run 0 both_done s" "ts_pending (src s) = {}" by (rule both_done_run)
  have "phases s = Map.empty" using sys_inv_run [OF s(1)] s(2) by (simp add: sys_inv_def)
  moreover have "EvEnd 1 \<in> set both_done" by (simp add: both_done_def)
  ultimately show ?thesis
    using s(1) begin_fresh_and_watermark_complete [OF s(1), of 1] by blast
qed

end
