(* ===== verification/ReplLog.thy ===== *)
theory ReplLog
  imports Badger Resp
begin

text \<open>
  The propagation log, \<^verbatim>\<open>internal/store/repl_log.go\<close>. Every commit stores, in the same transaction as
  the data it changes, the command to replay on the replicas under the key \<^verbatim>\<open>REPLLOG_\<close> followed by
  its timestamp in eight big-endian bytes. The theory models the key and value encodings and the four
  readers, and proves that byte order on the keys is timestamp order, so that a prefix scan returns
  exactly the frames of a timestamp interval, in order.
\<close>

section \<open>Keys and values\<close>

definition replLogPrefix :: bytes where
  "replLogPrefix = ''REPLLOG_''"

definition replLogKey :: "u64 \<Rightarrow> bytes" where
  "replLogKey ts = replLogPrefix @ put_be64 ts"

definition encodePropagateCommand :: "bytes list \<Rightarrow> bytes" where
  "encodePropagateCommand args =
     ''*'' @ utoa (length args) @ crlf
     @ concat (map (\<lambda>a. ''$'' @ utoa (length a) @ crlf @ a @ crlf) args)"

definition encodePropagateStringArgs :: "bytes \<Rightarrow> bytes list \<Rightarrow> bytes" where
  "encodePropagateStringArgs cmd args = encodePropagateCommand (cmd # args)"

definition noopLogValue :: bytes where
  "noopLogValue = encodePropagateCommand [''NOOP'']"

record ReplLogEntry =
  eTS :: u64
  eValue :: bytes

text \<open>\<^verbatim>\<open>binary.BigEndian.Uint64(key[len(key)-8:])\<close>\<close>

definition keyTS :: "bytes \<Rightarrow> u64" where
  "keyTS key = get_be64 (drop (length key - 8) key)"

section \<open>Readers\<close>

definition ReplLogStartTS :: "'t txn_ops \<Rightarrow> ('t, u64) tx" where
  "ReplLogStartTS B = bnd (iterFrom B False replLogPrefix) (\<lambda>its. case its of
      (key, i) # _ \<Rightarrow> ret (if prefix replLogPrefix key then keyTS key else 0)
    | [] \<Rightarrow> ret 0)"

definition ReplLogCurrentTS :: "'t txn_ops \<Rightarrow> ('t, u64) tx" where
  "ReplLogCurrentTS B = bnd (iterFrom B True (replLogKey MaxUint64)) (\<lambda>its. case its of
      (key, i) # _ \<Rightarrow> ret (if prefix replLogPrefix key then keyTS key else 0)
    | [] \<Rightarrow> ret 0)"

text \<open>The loop body of the bounded reader stops at the first timestamp beyond the bound.\<close>

fun readRange :: "'t txn_ops \<Rightarrow> u64 \<Rightarrow> (bytes \<times> item) list \<Rightarrow> ('t, ReplLogEntry list) tx" where
  "readRange B hi [] = ret []"
| "readRange B hi ((key, i) # its) =
     (if keyTS key > hi then ret []
      else bnd (ValueCopy B i) (\<lambda>v. bnd (readRange B hi its) (\<lambda>out.
             ret (\<lparr>eTS = keyTS key, eValue = v\<rparr> # out))))"

definition ReplLogEntriesRange ::
  "'t txn_ops \<Rightarrow> ('d, 't) db_ops \<Rightarrow> 'd \<Rightarrow> u64 \<Rightarrow> u64 \<Rightarrow> go_error + ReplLogEntry list" where
  "ReplLogEntriesRange B D d since hi =
     (if hi < since then Inr []
      else let txn = newTransactionAt D d hi
           in case bnd (iterPrefix B False (replLogKey since) replLogPrefix) (readRange B hi) txn of
                Inl e \<Rightarrow> Inl e
              | Inr (out, _) \<Rightarrow> Inr out)"

fun readAll :: "'t txn_ops \<Rightarrow> (bytes \<times> item) list \<Rightarrow> ('t, ReplLogEntry list) tx" where
  "readAll B [] = ret []"
| "readAll B ((key, i) # its) =
     bnd (ValueCopy B i) (\<lambda>v. bnd (readAll B its) (\<lambda>out.
       ret (\<lparr>eTS = keyTS key, eValue = v\<rparr> # out)))"

definition ReplLogEntriesFrom :: "'t txn_ops \<Rightarrow> u64 \<Rightarrow> ('t, ReplLogEntry list) tx" where
  "ReplLogEntriesFrom B since =
     bnd (iterPrefix B False (replLogKey since) replLogPrefix) (readAll B)"

definition ReplLogEntries :: "'t txn_ops \<Rightarrow> ('t, ReplLogEntry list) tx" where
  "ReplLogEntries B = ReplLogEntriesFrom B 0"

section \<open>The key order\<close>

lemma length_replLogKey [simp]: "length (replLogKey ts) = 16"
  by (simp add: replLogKey_def replLogPrefix_def)

lemma keyTS_replLogKey [simp]: "keyTS (replLogKey ts) = ts"
  by (simp add: keyTS_def replLogKey_def replLogPrefix_def)

lemma replLogKey_le [simp]: "replLogKey a \<le> replLogKey b \<longleftrightarrow> a \<le> b"
  by (simp add: replLogKey_def append_le_iff put_be64_le_iff)

lemma replLogKey_less [simp]: "replLogKey a < replLogKey b \<longleftrightarrow> a < b"
  by (simp add: replLogKey_def append_less_iff put_be64_less_iff)

lemma replLogKey_inject [simp]: "replLogKey a = replLogKey b \<longleftrightarrow> a = b"
  by (simp add: replLogKey_def)

lemma prefix_replLogKey [simp]: "prefix replLogPrefix (replLogKey ts)"
  by (simp add: replLogKey_def)

lemma encodePropagateCommand_Array: "encodePropagateCommand args = Array_String (map Some args)"
  by (simp add: encodePropagateCommand_def Array_String_def joinBulkStrings_def bulk_string_def comp_def)

text \<open>A store is log well-formed when every key under the log prefix is the key of a timestamp.\<close>

definition log_wf :: "(bytes \<rightharpoonup> item) \<Rightarrow> bool" where
  "log_wf m \<longleftrightarrow> (\<forall>k. k \<in> dom m \<and> prefix replLogPrefix k \<longrightarrow> (\<exists>ts. k = replLogKey ts))"

definition log_ts :: "(bytes \<rightharpoonup> item) \<Rightarrow> u64 set" where
  "log_ts m = {ts. replLogKey ts \<in> dom m}"

definition log_entry :: "(bytes \<rightharpoonup> item) \<Rightarrow> u64 \<Rightarrow> ReplLogEntry" where
  "log_entry m ts = \<lparr>eTS = ts, eValue = ival (the (m (replLogKey ts)))\<rparr>"

lemma sorted_list_of_set_image_mono:
  fixes f :: "'a :: linorder \<Rightarrow> 'b :: linorder"
  assumes "\<And>x y. f x < f y \<longleftrightarrow> x < y" "finite S"
  shows "sorted_list_of_set (f ` S) = map f (sorted_list_of_set S)"
proof (rule sorted_distinct_set_unique)
  have mono: "f x \<le> f y" if "x \<le> y" for x y
    using that assms(1) [of y x] by (meson linorder_not_le)
  have "x = y" if "f x = f y" for x y
    using that assms(1) [of x y] assms(1) [of y x] by (cases x y rule: linorder_cases) simp_all
  then show "distinct (map f (sorted_list_of_set S))" by (simp add: distinct_map inj_on_def)
  show "sorted (map f (sorted_list_of_set S))"
    unfolding sorted_map by (rule sorted_wrt_mono_rel [of _ "(\<le>)"]) (simp_all add: mono)
  show "sorted (sorted_list_of_set (f ` S))" "distinct (sorted_list_of_set (f ` S))" by simp_all
  show "set (sorted_list_of_set (f ` S)) = set (map f (sorted_list_of_set S))"
    using assms(2) by simp
qed

lemma scan_log:
  assumes "finite (dom m)" "log_wf m"
  shows "takeWhile (\<lambda>x. prefix replLogPrefix (fst x)) (live_from m (replLogKey since)) =
    map (\<lambda>ts. (replLogKey ts, the (m (replLogKey ts)))) (sorted_list_of_set {ts \<in> log_ts m. since \<le> ts})"
proof -
  let ?ks = "sorted_list_of_set {x \<in> dom m. replLogKey since \<le> x}"
  let ?S = "{ts \<in> log_ts m. since \<le> ts}"
  have fin: "finite {x \<in> dom m. replLogKey since \<le> x}" using assms(1) by simp
  have "takeWhile (\<lambda>x. prefix replLogPrefix (fst x)) (live_from m (replLogKey since)) =
        map (\<lambda>x. (x, the (m x))) (takeWhile (prefix replLogPrefix) ?ks)"
    by (simp add: live_from_def takeWhile_map comp_def)
  also have "takeWhile (prefix replLogPrefix) ?ks = filter (prefix replLogPrefix) ?ks"
    by (rule takeWhile_prefix_sorted)
      (use fin prefix_ge [OF prefix_replLogKey] in \<open>auto intro: order.trans\<close>)
  also have "filter (prefix replLogPrefix) ?ks = sorted_list_of_set (replLogKey ` ?S)"
  proof (rule sorted_distinct_set_unique)
    have "finite (replLogKey ` ?S)"
      by (rule finite_subset [OF _ assms(1)]) (auto simp: log_ts_def)
    then show "set (filter (prefix replLogPrefix) ?ks) = set (sorted_list_of_set (replLogKey ` ?S))"
      using assms fin by (auto simp: log_wf_def log_ts_def) fastforce
  qed (use fin in \<open>simp_all add: sorted_wrt_filter\<close>)
  also have "\<dots> = map replLogKey (sorted_list_of_set ?S)"
    by (rule sorted_list_of_set_image_mono) simp_all
  finally show ?thesis by (simp add: comp_def)
qed


lemma rev_sorted_list_of_set:
  assumes "finite S"
  shows "rev (sorted_list_of_set S) =
    (if S = {} then [] else Max S # rev (sorted_list_of_set (S - {Max S})))"
proof (cases "S = {}")
  case False
  have m: "Max S \<in> S" using assms False by (rule Max_in)
  have "sorted_list_of_set S = sorted_list_of_set (S - {Max S}) @ [Max S]"
  proof (rule sorted_distinct_set_unique)
    show "set (sorted_list_of_set S) = set (sorted_list_of_set (S - {Max S}) @ [Max S])"
      using assms m by auto
    show "sorted (sorted_list_of_set (S - {Max S}) @ [Max S])"
      using assms by (auto simp: sorted_append)
  qed (use assms in simp_all)
  with False show ?thesis by simp
qed simp

lemma finite_log_ts: "finite (dom m) \<Longrightarrow> finite (log_ts m)"
  by (rule finite_imageD [of replLogKey])
    (rule finite_subset [of _ "dom m"], simp_all add: log_ts_def inj_on_def image_subset_iff)

lemma takeWhile_le_filter: "sorted (xs :: u64 list) \<Longrightarrow> takeWhile (\<lambda>x. x \<le> u) xs = filter (\<lambda>x. x \<le> u) xs"
proof (induction xs)
  case (Cons x xs)
  then show ?case
  proof (cases "x \<le> u")
    case False
    have "\<not> y \<le> u" if "y \<in> set xs" for y using Cons.prems False that by (auto dest: order.trans)
    then show ?thesis using False by (simp add: filter_False)
  qed simp
qed simp

context badger_txn
begin

lemma readRange_run:
  "readRange B hi (map (\<lambda>ts. (replLogKey ts, f ts)) tss) t =
   Inr (map (\<lambda>ts. \<lparr>eTS = ts, eValue = ival (f ts)\<rparr>) (takeWhile (\<lambda>ts. ts \<le> hi) tss), t)"
  by (induction tss) (auto simp: bnd_def ValueCopy_run not_le)

lemma readAll_run:
  "readAll B (map (\<lambda>ts. (replLogKey ts, f ts)) tss) t =
   Inr (map (\<lambda>ts. \<lparr>eTS = ts, eValue = ival (f ts)\<rparr>) tss, t)"
  by (induction tss) (simp_all add: bnd_def ValueCopy_run)

lemma iterLog_run:
  assumes "log_wf (view t)"
  shows "iterPrefix B False (replLogKey since) replLogPrefix t =
    Inr (map (\<lambda>ts. (replLogKey ts, the (view t (replLogKey ts))))
           (sorted_list_of_set {ts \<in> log_ts (view t). since \<le> ts}), t)"
  using scan_log [OF finite_view assms] by (simp add: iterPrefix_def iter_law)

lemma ReplLogEntriesFrom_run:
  assumes "log_wf (view t)"
  shows "ReplLogEntriesFrom B since t =
    Inr (map (log_entry (view t)) (sorted_list_of_set {ts \<in> log_ts (view t). since \<le> ts}), t)"
  using iterLog_run [OF assms] readAll_run
  by (simp add: ReplLogEntriesFrom_def bnd_def log_entry_def [abs_def])

text \<open>The two watermarks of the log: its first and its last timestamp, 0 for an empty log.\<close>

lemma ReplLogStartTS_run:
  assumes "log_wf (view t)"
  shows "ReplLogStartTS B t = Inr (if log_ts (view t) = {} then 0 else Min (log_ts (view t)), t)"
proof -
  let ?L = "live_from (view t) replLogPrefix"
  have eq: "takeWhile (\<lambda>x. prefix replLogPrefix (fst x)) ?L
      = map (\<lambda>x. (x, the (view t x))) (scan_prefix (view t) replLogPrefix)"
    by (rule takeWhile_live_from [OF finite_view])
  have "{x \<in> dom (view t). prefix replLogPrefix x} = replLogKey ` log_ts (view t)"
    using assms by (fastforce simp: log_wf_def log_ts_def)
  then have scan: "scan_prefix (view t) replLogPrefix = map replLogKey (sorted_list_of_set (log_ts (view t)))"
    by (simp add: scan_prefix_def sorted_list_of_set_image_mono finite_log_ts [OF finite_view])
  have tw: "takeWhile (\<lambda>x. prefix replLogPrefix (fst x)) ?L
      = map (\<lambda>ts. (replLogKey ts, the (view t (replLogKey ts)))) (sorted_list_of_set (log_ts (view t)))"
    unfolding eq scan by simp
  show ?thesis
  proof (cases "log_ts (view t) = {}")
    case True
    with tw have "takeWhile (\<lambda>x. prefix replLogPrefix (fst x)) ?L = []" by simp
    then have "ReplLogStartTS B t = Inr (0, t)"
      by (cases ?L) (auto simp: ReplLogStartTS_def iterFrom_def iter_law bnd_def split: if_splits)
    with True show ?thesis by simp
  next
    case False
    have "sorted_list_of_set (log_ts (view t)) =
        Min (log_ts (view t)) # sorted_list_of_set (log_ts (view t) - {Min (log_ts (view t))})"
      using finite_log_ts [OF finite_view] False by (rule sorted_list_of_set_nonempty)
    with tw have "fst (hd ?L) = replLogKey (Min (log_ts (view t))) \<and> ?L \<noteq> []"
      by (cases ?L) (auto split: if_splits)
    then have "ReplLogStartTS B t = Inr (Min (log_ts (view t)), t)"
      by (cases ?L) (auto simp: ReplLogStartTS_def iterFrom_def iter_law bnd_def)
    with False show ?thesis by simp
  qed
qed

lemma ReplLogCurrentTS_run:
  assumes "log_wf (view t)"
  shows "ReplLogCurrentTS B t = Inr (if log_ts (view t) = {} then 0 else Max (log_ts (view t)), t)"
proof -
  let ?K = "replLogKey MaxUint64"
  define S where "S = {x \<in> dom (view t). x \<le> ?K}"
  have fin: "finite S" using finite_view [of t] by (simp add: S_def)
  have "map fst (live_downto (view t) ?K) = rev (sorted_list_of_set S)"
    by (simp add: live_downto_def comp_def S_def)
  then have L: "map fst (live_downto (view t) ?K) =
      (if S = {} then [] else Max S # rev (sorted_list_of_set (S - {Max S})))"
    using rev_sorted_list_of_set [OF fin] by simp
  have "ReplLogCurrentTS B t = Inr (case map fst (live_downto (view t) ?K) of
      key # _ \<Rightarrow> (if prefix replLogPrefix key then keyTS key else 0) | [] \<Rightarrow> 0, t)"
    by (simp add: ReplLogCurrentTS_def iterFrom_def iter_rev_law bnd_def split: list.split prod.split)
  then have run: "ReplLogCurrentTS B t = Inr (if S = {} then 0
      else if prefix replLogPrefix (Max S) then keyTS (Max S) else 0, t)"
    unfolding L by simp
  show ?thesis
  proof (cases "log_ts (view t) = {}")
    case True
    have "\<not> prefix replLogPrefix x" if "x \<in> S" for x
      using that True assms by (fastforce simp: log_wf_def log_ts_def S_def)
    then have "S \<noteq> {} \<Longrightarrow> \<not> prefix replLogPrefix (Max S)" using Max_in [OF fin] by blast
    with True show ?thesis unfolding run by simp
  next
    case False
    let ?m = "Max (log_ts (view t))"
    have m: "?m \<in> log_ts (view t)" using Max_in [OF finite_log_ts [OF finite_view] False] .
    have top: "x \<le> replLogKey ?m" if x: "x \<in> S" for x
    proof (rule ccontr)
      assume "\<not> x \<le> replLogKey ?m"
      then have gt: "replLogKey ?m < x" by simp
      have "replLogPrefix \<le> x" using prefix_ge [OF prefix_replLogKey, of ?m] gt by simp
      then have "prefix replLogPrefix x" using prefix_convex [of _ ?K x] x by (simp add: S_def)
      then obtain ts where ts: "x = replLogKey ts" using x assms by (auto simp: log_wf_def S_def)
      then have "ts \<le> ?m" using x finite_log_ts [OF finite_view] by (intro Max_ge) (auto simp: log_ts_def S_def)
      then show False using gt ts by simp
    qed
    have "replLogKey ?m \<in> S" using m by (simp add: log_ts_def S_def)
    then have "Max S = replLogKey ?m" using top by (intro Max_eqI [OF fin]) auto
    then show ?thesis unfolding run using False \<open>replLogKey ?m \<in> S\<close> by auto
  qed
qed

end

context badger_db
begin

lemma ReplLogEntriesRange_run:
  assumes "log_wf (snap d hi)"
  shows "ReplLogEntriesRange B D d since hi =
    Inr (map (log_entry (snap d hi))
          (sorted_list_of_set {ts \<in> log_ts (snap d hi). since \<le> ts \<and> ts \<le> hi}))"
proof (cases "hi < since")
  case True
  then have "{ts \<in> log_ts (snap d hi). since \<le> ts \<and> ts \<le> hi} = {}" by auto
  then show ?thesis using True by (simp only: ReplLogEntriesRange_def) simp
next
  case False
  let ?S = "sorted_list_of_set {ts \<in> log_ts (snap d hi). since \<le> ts}"
  have fin: "finite (log_ts (snap d hi))" using finite_log_ts [OF finite_view] new_view by metis
  have "takeWhile (\<lambda>ts. ts \<le> hi) ?S = filter (\<lambda>ts. ts \<le> hi) ?S"
    by (rule takeWhile_le_filter) simp
  also have "\<dots> = sorted_list_of_set {ts \<in> log_ts (snap d hi). since \<le> ts \<and> ts \<le> hi}"
    by (rule sorted_distinct_set_unique) (use fin in \<open>auto simp: sorted_wrt_filter\<close>)
  finally show ?thesis
    using False iterLog_run [of "newTransactionAt D d hi" since] assms
    by (simp add: ReplLogEntriesRange_def bnd_def readRange_run new_view log_entry_def [abs_def])
qed

end

section \<open>Properties\<close>

text \<open>C35 On a store whose log is well formed, the bounded reader returns exactly the frames with a
  timestamp in the requested interval that are visible at its upper end, in increasing order of
  their timestamps and each with the value stored for it. The engine is any that meets the
  contract of \<^verbatim>\<open>badger.OpenManaged\<close>.\<close>

theorem ReplLogEntriesRange_exact:
  assumes "badger_db B view upd now D snap pend" "log_wf (snap d hi)"
  shows "ReplLogEntriesRange B D d since hi =
    Inr (map (log_entry (snap d hi))
          (sorted_list_of_set {ts \<in> log_ts (snap d hi). since \<le> ts \<and> ts \<le> hi}))"
  using assms by (rule badger_db.ReplLogEntriesRange_run)

definition sample_db :: kv_db where
  "sample_db = \<lparr>kv_versions = [(3, [(replLogKey 3, Some \<lparr>ival = noopLogValue, iexp = 0\<rparr>)]),
     (2, [(replLogKey 2, Some \<lparr>ival = encodePropagateCommand [''DEL'', ''k''], iexp = 0\<rparr>)])]\<rparr>"

lemma sample_db_snap:
  "kv_snap sample_db 2 = [replLogKey 2 \<mapsto> \<lparr>ival = encodePropagateCommand [''DEL'', ''k''], iexp = 0\<rparr>]"
  by (auto simp: kv_snap_def kv_snap_list_def sample_db_def fun_eq_iff split: option.splits)

theorem ReplLogEntriesRange_exact_witness:
  "ReplLogEntriesRange kv_ops kv_db_ops sample_db 1 2 =
     Inr [\<lparr>eTS = 2, eValue = encodePropagateCommand [''DEL'', ''k'']\<rparr>]"
proof -
  have wf: "log_wf (kv_snap sample_db 2)" by (auto simp: sample_db_snap log_wf_def)
  have "{ts \<in> log_ts (kv_snap sample_db 2). 1 \<le> ts \<and> ts \<le> 2} = {2}"
    by (auto simp: sample_db_snap log_ts_def)
  then have "map (log_entry (kv_snap sample_db 2))
      (sorted_list_of_set {ts \<in> log_ts (kv_snap sample_db 2). 1 \<le> ts \<and> ts \<le> 2}) =
      [\<lparr>eTS = 2, eValue = encodePropagateCommand [''DEL'', ''k'']\<rparr>]"
    by (simp only: sorted_list_of_set_insert_remove) (simp add: log_entry_def sample_db_snap)
  then show ?thesis by (subst ReplLogEntriesRange_exact [OF kvd.badger_db_axioms wf]) (rule arg_cong)
qed

end
