(* ===== verification/Commit.thy ===== *)
theory Commit
  imports Complex_Main TsSource ReplLog
begin

text \<open>
  The write path: \<^verbatim>\<open>commitTS\<close>, \<^verbatim>\<open>commitTSLazy\<close> and \<^verbatim>\<open>writeNoopTombstone\<close> of
  \<^verbatim>\<open>internal/store/ts_source.go\<close>, the retry loops of \<^verbatim>\<open>internal/store/set.go\<close> and the back-pressure of
  \<^verbatim>\<open>internal/store/backpressure.go\<close>. A transaction body is a function of the variables its closure
  captures (type \<open>'c\<close>, threaded from attempt to attempt the way Go's closures share them) and of the
  transaction. The environment of a run - clock, random jitter, Badger's level scores, float
  rounding - is the record \<open>run_env\<close>.
\<close>

section \<open>State\<close>

record metrics =
  activeRetries :: int
  totalRetries :: int
  writesBlocked :: int
  l0Rejected :: int
  l0Delayed :: int
  conflicts :: int
  slowWrite10ms :: int
  slowWrite50ms :: int
  slowWrite100ms :: int

record BackpressureConfig =
  Enabled :: bool
  MaxConcurrentWrites :: int
  L0SoftThreshold :: rat
  L0HardThreshold :: rat
  MaxPreDelay :: int

record l0Cache =
  l0score :: "rat option"
  lastCheck :: int

text \<open>\<open>inUse\<close> counts the tokens in the channel of the current \<^verbatim>\<open>writeSlot\<close>, \<open>slept\<close> lists the pauses.\<close>

record 'd store =
  db :: 'd
  tsSrc :: tsSource
  mtr :: metrics
  bpConfig :: BackpressureConfig
  l0c :: l0Cache
  slotCap :: int
  inUse :: nat
  slept :: "int list"

record run_env =
  envNow :: int
  envLevels :: "(int \<times> rat) list"
  envLatency :: "nat \<Rightarrow> int"
  envJitter :: "nat \<Rightarrow> int \<Rightarrow> int"
  fl :: "rat \<Rightarrow> rat"

abbreviation Millisecond :: int where "Millisecond \<equiv> 1000000"
abbreviation Second :: int where "Second \<equiv> 1000000000"

definition DefaultBackpressureConfig :: BackpressureConfig where
  "DefaultBackpressureConfig = \<lparr>Enabled = True, MaxConcurrentWrites = 50, L0SoftThreshold = 8,
     L0HardThreshold = 20, MaxPreDelay = 1 * Second\<rparr>"

section \<open>commitTS\<close>

text \<open>A body: captured variables in, captured variables and transaction out.\<close>

type_synonym ('t, 'c) body = "'c \<Rightarrow> ('t, 'c) tx"

definition writeNoopTombstone :: "'t txn_ops \<Rightarrow> ('d, 't) db_ops \<Rightarrow> u64 \<Rightarrow> 'd \<Rightarrow> 'd" where
  "writeNoopTombstone B D ts d =
     (let txn = newTransactionAt D d MaxUint64
      in case txn_set B txn (replLogKey ts) noopLogValue of
           Inl e \<Rightarrow> d
         | Inr txn' \<Rightarrow> (case commitAt D d txn' ts of Inl e \<Rightarrow> d | Inr d' \<Rightarrow> d'))"

text \<open>\<^verbatim>\<open>AdvanceDiscard\<close> and \<^verbatim>\<open>SetDiscardTs\<close> under \<^verbatim>\<open>discardMu\<close>.\<close>

definition advanceDiscardTs :: "('d, 't) db_ops \<Rightarrow> 'd store \<Rightarrow> 'd store" where
  "advanceDiscardTs D st =
     (let (sd, src') = AdvanceDiscard (tsSrc st)
      in st\<lparr>tsSrc := src', db := (if sd > 0 then setDiscardTs D (db st) sd else db st)\<rparr>)"

definition commitTS ::
  "'t txn_ops \<Rightarrow> ('d, 't) db_ops \<Rightarrow> ('t, 'c) body \<Rightarrow> bytes list \<Rightarrow> 'c \<Rightarrow> 'd store
   \<Rightarrow> (go_error + unit) \<times> 'c \<times> 'd store" where
  "commitTS B D fn logValue c st =
     (let txn = newTransactionAt D (db st) MaxUint64;
          (ts, src1) = tsBegin (tsSrc st);
          st1 = st\<lparr>tsSrc := src1\<rparr>;
          failed = (\<lambda>e c'. (Inl e, c', st1\<lparr>db := writeNoopTombstone B D ts (db st),
                                          tsSrc := tsEnd ts src1\<rparr>))
      in case fn c txn of
           Inl e \<Rightarrow> if is_panic e then (Inl e, c, st1\<lparr>tsSrc := tsEnd ts src1\<rparr>) else failed e c
         | Inr (c', txn1) \<Rightarrow>
             (case (if length logValue > 0 \<and> length (hd logValue) > 0
                    then txn_set B txn1 (replLogKey ts) (hd logValue) else Inr txn1) of
                Inl e \<Rightarrow> failed e c'
              | Inr txn2 \<Rightarrow>
                  (case commitAt D (db st) txn2 ts of
                     Inl e \<Rightarrow> failed e c'
                   | Inr d' \<Rightarrow>
                       (let st2 = advanceDiscardTs D (st1\<lparr>db := d'\<rparr>)
                        in (Inr (), c', st2\<lparr>tsSrc := tsEnd ts (tsSrc st2)\<rparr>)))))"

text \<open>The variant whose log value is computed from what the body left in its captured variables.\<close>

definition commitTSLazy ::
  "'t txn_ops \<Rightarrow> ('d, 't) db_ops \<Rightarrow> ('t, 'c) body \<Rightarrow> ('c \<Rightarrow> bytes) \<Rightarrow> 'c \<Rightarrow> 'd store
   \<Rightarrow> (go_error + unit) \<times> 'c \<times> 'd store" where
  "commitTSLazy B D fn logValue c st =
     (let txn = newTransactionAt D (db st) MaxUint64;
          (ts, src1) = tsBegin (tsSrc st);
          st1 = st\<lparr>tsSrc := src1\<rparr>;
          failed = (\<lambda>e c'. (Inl e, c', st1\<lparr>db := writeNoopTombstone B D ts (db st),
                                          tsSrc := tsEnd ts src1\<rparr>))
      in case fn c txn of
           Inl e \<Rightarrow> if is_panic e then (Inl e, c, st1\<lparr>tsSrc := tsEnd ts src1\<rparr>) else failed e c
         | Inr (c', txn1) \<Rightarrow>
             (let lv = logValue c'
              in case (if length lv > 0 then txn_set B txn1 (replLogKey ts) lv else Inr txn1) of
                   Inl e \<Rightarrow> failed e c'
                 | Inr txn2 \<Rightarrow>
                     (case commitAt D (db st) txn2 ts of
                        Inl e \<Rightarrow> failed e c'
                      | Inr d' \<Rightarrow>
                          (let st2 = advanceDiscardTs D (st1\<lparr>db := d'\<rparr>)
                           in (Inr (), c', st2\<lparr>tsSrc := tsEnd ts (tsSrc st2)\<rparr>)))))"

section \<open>Back-pressure\<close>

definition L0Score :: "(int \<times> rat) list \<Rightarrow> rat" where
  "L0Score levels = (case find (\<lambda>l. fst l = 0) levels of Some l \<Rightarrow> snd l | None \<Rightarrow> 0)"

definition l0ScoreCached :: "run_env \<Rightarrow> l0Cache \<Rightarrow> rat \<times> l0Cache" where
  "l0ScoreCached E c =
     (let fresh = (L0Score (envLevels E), \<lparr>l0score = Some (L0Score (envLevels E)), lastCheck = envNow E\<rparr>)
      in if envNow E - lastCheck c < 100 * Millisecond
         then (case l0score c of Some v \<Rightarrow> (v, c) | None \<Rightarrow> fresh)
         else fresh)"

text \<open>\<^verbatim>\<open>time.Duration(x)\<close> truncates towards zero. Each float64 operation rounds (\<open>fl\<close>).\<close>

definition to_duration :: "rat \<Rightarrow> int" where
  "to_duration x = (if x \<ge> 0 then \<lfloor>x\<rfloor> else \<lceil>x\<rceil>)"

definition preWriteCheck :: "run_env \<Rightarrow> BackpressureConfig \<Rightarrow> rat \<Rightarrow> int \<times> bool" where
  "preWriteCheck E cfg score =
     (if \<not> Enabled cfg then (0, False)
      else if score \<ge> L0HardThreshold cfg \<and> L0HardThreshold cfg > 0 then (0, True)
      else if score > L0SoftThreshold cfg \<and> L0SoftThreshold cfg > 0 then
        (let ratio = fl E (fl E (score - L0SoftThreshold cfg)
                           / fl E (L0HardThreshold cfg - L0SoftThreshold cfg));
             ratio = min ratio 1
         in (to_duration (fl E (ratio * fl E (of_int (MaxPreDelay cfg)))), False))
      else (0, False))"

definition Acquire :: "'d store \<Rightarrow> 'd store" where
  "Acquire st = st\<lparr>inUse := Suc (inUse st)\<rparr>"

definition Release :: "'d store \<Rightarrow> 'd store" where
  "Release st = st\<lparr>inUse := inUse st - 1\<rparr>"

definition SetBackpressureConfig :: "BackpressureConfig \<Rightarrow> 'd store \<Rightarrow> 'd store" where
  "SetBackpressureConfig cfg st =
     (let cfg' = (if MaxConcurrentWrites cfg \<le> 0 then cfg\<lparr>MaxConcurrentWrites := 50\<rparr> else cfg)
      in st\<lparr>slotCap := MaxConcurrentWrites cfg', inUse := 0, bpConfig := cfg'\<rparr>)"

section \<open>The retry loop\<close>

definition recordUpdateLatency :: "int \<Rightarrow> metrics \<Rightarrow> metrics" where
  "recordUpdateLatency d m =
     (if d \<le> 10 * Millisecond then m
      else if d > 100 * Millisecond then m\<lparr>slowWrite100ms := slowWrite100ms m + 1\<rparr>
      else if d > 50 * Millisecond then m\<lparr>slowWrite50ms := slowWrite50ms m + 1\<rparr>
      else m\<lparr>slowWrite10ms := slowWrite10ms m + 1\<rparr>)"

text \<open>\<^verbatim>\<open>time.Duration(1<<uint(i)) * time.Millisecond\<close>, capped.\<close>

definition baseBackoff :: "nat \<Rightarrow> int \<Rightarrow> int" where
  "baseBackoff i cap =
     (let b = sint (push_bit i (1 :: u64) * word_of_int Millisecond) in if b > cap then cap else b)"

definition doneRetrying :: "'d store \<Rightarrow> 'd store" where
  "doneRetrying st = st\<lparr>mtr := (mtr st)\<lparr>activeRetries := activeRetries (mtr st) - 1\<rparr>\<rparr>"

definition sleepFor :: "int \<Rightarrow> 'd store \<Rightarrow> 'd store" where
  "sleepFor n st = st\<lparr>slept := slept st @ [n]\<rparr>"

fun retryLoop ::
  "run_env \<Rightarrow> ('c \<Rightarrow> 'd store \<Rightarrow> (go_error + unit) \<times> 'c \<times> 'd store) \<Rightarrow> nat \<Rightarrow> nat \<Rightarrow> go_error option
   \<Rightarrow> 'c \<Rightarrow> 'd store \<Rightarrow> (go_error + unit) \<times> 'c \<times> 'd store" where
  "retryLoop E attempt 0 i err c st =
     (Inl (case err of None \<Rightarrow> Errorf ''max retries exhausted''
           | Some e \<Rightarrow> Wrap ''max retries exhausted'' e), c, doneRetrying st)"
| "retryLoop E attempt (Suc n) i err c st =
     (let (r, c', st1) = attempt c st;
          st2 = st1\<lparr>mtr := recordUpdateLatency (envLatency E i) (mtr st1)\<rparr>
      in case r of
           Inr u \<Rightarrow> (Inr (), c', doneRetrying st2)
         | Inl e \<Rightarrow>
             if is_panic e then (Inl e, c', st1)
             else if errors_is e ErrConflict then
               (let base = baseBackoff i (50 * Millisecond);
                    st3 = st2\<lparr>mtr := (mtr st2)\<lparr>conflicts := conflicts (mtr st2) + 1\<rparr>\<rparr>
                in retryLoop E attempt n (Suc i) (Some e) c' (sleepFor (base + envJitter E i base) st3))
             else if errors_is e ErrBlockedWrites then
               (let base = baseBackoff i (2 * Second);
                    st3 = st2\<lparr>mtr := (mtr st2)\<lparr>writesBlocked := writesBlocked (mtr st2) + 1\<rparr>\<rparr>
                in retryLoop E attempt n (Suc i) (Some e) c' (sleepFor (base + envJitter E i base) st3))
             else (Inl e, c', doneRetrying st2))"

text \<open>Admission (\<^verbatim>\<open>preWriteCheck\<close>), the write slot, the loop. \<^verbatim>\<open>Acquire\<close> waits while the slots are taken;
  the model continues from the moment a slot is free.\<close>

definition withAdmission ::
  "run_env \<Rightarrow> ('c \<Rightarrow> 'd store \<Rightarrow> (go_error + unit) \<times> 'c \<times> 'd store) \<Rightarrow> nat \<Rightarrow> 'c \<Rightarrow> 'd store
   \<Rightarrow> (go_error + unit) \<times> 'c \<times> 'd store" where
  "withAdmission E attempt maxRetries c st =
     (let (delay, reject, st0) =
            (if Enabled (bpConfig st) then
               (let (score, cache) = l0ScoreCached E (l0c st);
                    (dl, rj) = preWriteCheck E (bpConfig st) score
                in (dl, rj, st\<lparr>l0c := cache\<rparr>))
             else (0, False, st))
      in if reject then
           (Inl (Errorf ''write rejected''), c,
            st0\<lparr>mtr := (mtr st0)\<lparr>l0Rejected := l0Rejected (mtr st0) + 1\<rparr>\<rparr>)
         else
           (let st1 = (if delay > 0
                       then sleepFor delay (st0\<lparr>mtr := (mtr st0)\<lparr>l0Delayed := l0Delayed (mtr st0) + 1\<rparr>\<rparr>)
                       else st0);
                st2 = Acquire st1;
                st3 = st2\<lparr>mtr := (mtr st2)\<lparr>activeRetries := activeRetries (mtr st2) + 1\<rparr>\<rparr>;
                (r, c', st4) = retryLoop E attempt maxRetries 0 None c st3
            in (r, c', Release st4)))"

definition retryUpdate ::
  "run_env \<Rightarrow> 't txn_ops \<Rightarrow> ('d, 't) db_ops \<Rightarrow> ('t, 'c) body \<Rightarrow> nat \<Rightarrow> bytes list \<Rightarrow> 'c \<Rightarrow> 'd store
   \<Rightarrow> (go_error + unit) \<times> 'c \<times> 'd store" where
  "retryUpdate E B D fn maxRetries logValue c st =
     withAdmission E (commitTS B D fn logValue) maxRetries c st"

definition retryUpdateLazy ::
  "run_env \<Rightarrow> 't txn_ops \<Rightarrow> ('d, 't) db_ops \<Rightarrow> ('t, 'c) body \<Rightarrow> nat \<Rightarrow> ('c \<Rightarrow> bytes) \<Rightarrow> 'c \<Rightarrow> 'd store
   \<Rightarrow> (go_error + unit) \<times> 'c \<times> 'd store" where
  "retryUpdateLazy E B D fn maxRetries logValue c st =
     withAdmission E (commitTSLazy B D fn logValue) maxRetries c st"

text \<open>\<^verbatim>\<open>db.View\<close>: a read-only transaction on the latest content.\<close>

definition View :: "('d, 't) db_ops \<Rightarrow> ('t, 'a) tx \<Rightarrow> 'd store \<Rightarrow> go_error + 'a" where
  "View D m st = (case m (newTransactionAt D (db st) MaxUint64) of
      Inl e \<Rightarrow> Inl e | Inr (x, _) \<Rightarrow> Inr x)"

section \<open>Query budget\<close>

definition checkScanBudget :: "int option \<Rightarrow> int \<Rightarrow> int \<Rightarrow> (go_error + unit) \<times> int" where
  "checkScanBudget maxScan iterations trips = (case maxScan of
      None \<Rightarrow> (Inr (), trips)
    | Some m \<Rightarrow> if m > 0 \<and> iterations > m then (Inl (Errorf ''query budget exceeded''), trips + 1)
               else (Inr (), trips))"


section \<open>The commit protocol on a healthy engine\<close>

lemma commitTS_lazy:
  "commitTS B D fn logValue c st =
   commitTSLazy B D fn (\<lambda>_. case logValue of [] \<Rightarrow> [] | v # _ \<Rightarrow> v) c st"
  by (cases logValue) (simp_all add: commitTS_def commitTSLazy_def Let_def split: prod.split sum.split)

text \<open>What readers of the data see: everything outside the log.\<close>

definition data :: "(bytes \<rightharpoonup> item) \<Rightarrow> bytes \<rightharpoonup> item" where
  "data m k = (if prefix replLogPrefix k then None else m k)"

lemma data_cong: "(\<And>k. \<not> prefix replLogPrefix k \<Longrightarrow> m k = m' k) \<Longrightarrow> data m = data m'"
  by (auto simp: data_def)

lemma data_upd_log [simp]: "data (m(replLogKey ts := x)) = data m"
  by (rule data_cong) auto

definition log_frame :: "bytes \<Rightarrow> u64 \<Rightarrow> (bytes \<rightharpoonup> item) \<Rightarrow> bytes \<rightharpoonup> item" where
  "log_frame lv ts m = (if lv = [] then m else m(replLogKey ts \<mapsto> \<lparr>ival = lv, iexp = 0\<rparr>))"

lemma data_log_frame [simp]: "data (log_frame lv ts m) = data m"
  by (simp add: log_frame_def)

lemma noopLogValue_nonempty [simp]: "noopLogValue \<noteq> []"
  by (simp add: noopLogValue_def encodePropagateCommand_def)

lemma advanceDiscardTs_simps [simp]:
  "mtr (advanceDiscardTs D st) = mtr st" "inUse (advanceDiscardTs D st) = inUse st"
  "slept (advanceDiscardTs D st) = slept st" "bpConfig (advanceDiscardTs D st) = bpConfig st"
  "l0c (advanceDiscardTs D st) = l0c st" "slotCap (advanceDiscardTs D st) = slotCap st"
  "ts_next (tsSrc (advanceDiscardTs D st)) = ts_next (tsSrc st)"
  "ts_pending (tsSrc (advanceDiscardTs D st)) = ts_pending (tsSrc st)"
  "ts_done (tsSrc (advanceDiscardTs D st)) = ts_done (tsSrc st)"
  by (simp_all add: advanceDiscardTs_def AdvanceDiscard_def Let_def)

lemma tsEnd_next [simp]: "ts_next (tsEnd ts t) = ts_next t"
  by (simp add: tsEnd_def Let_def)

lemma commitTSLazy_frame:
  assumes "commitTSLazy B D fn lv c st = (r, c', st')"
  shows "mtr st' = mtr st" "inUse st' = inUse st" "slept st' = slept st" "bpConfig st' = bpConfig st"
    "ts_next (tsSrc st') = ts_next (tsSrc st) + 1"
  using assms
  by (auto simp: commitTSLazy_def Let_def tsBegin_def split: sum.splits prod.splits if_splits)

context badger_db
begin

lemma advanceDiscardTs_db:
  "snap (db (advanceDiscardTs D st)) MaxUint64 = snap (db st) MaxUint64"
  "maxVersion D (db (advanceDiscardTs D st)) = maxVersion D (db st)"
  by (simp_all add: advanceDiscardTs_def AdvanceDiscard_def Let_def discard_snap discard_version)

lemma commit_frame:
  assumes "maxVersion D d < ts" "from_latest d t" "commitAt D d (if lv = [] then t
       else upd t (replLogKey ts) (Some \<lparr>ival = lv, iexp = 0\<rparr>)) ts = Inr d'"
  shows "snap d' MaxUint64 = log_frame lv ts (view t)"
  using commit_view [OF assms(1,3)] assms(2) from_latest_upd
  by (auto simp: log_frame_def view_upd)

lemma tombstone_snap:
  assumes "maxVersion D d < ts"
  shows "snap (writeNoopTombstone B D ts d) MaxUint64 \<in>
      {snap d MaxUint64, log_frame noopLogValue ts (snap d MaxUint64)}"
    "maxVersion D (writeNoopTombstone B D ts d) \<le> ts"
proof -
  let ?t = "newTransactionAt D d MaxUint64"
  let ?t' = "upd ?t (replLogKey ts) (Some \<lparr>ival = noopLogValue, iexp = 0\<rparr>)"
  show "snap (writeNoopTombstone B D ts d) MaxUint64 \<in>
      {snap d MaxUint64, log_frame noopLogValue ts (snap d MaxUint64)}"
    using commit_frame [OF assms from_latest_new, of noopLogValue]
    by (auto simp: writeNoopTombstone_def Let_def set_law new_view split: sum.splits)
  show "maxVersion D (writeNoopTombstone B D ts d) \<le> ts"
    using assms commit_version [OF assms, of ?t']
    by (auto simp: writeNoopTombstone_def Let_def set_law split: sum.splits)
qed

definition src_ok :: "'d store \<Rightarrow> bool" where
  "src_ok st \<longleftrightarrow> maxVersion D (db st) < ts_next (tsSrc st)"

lemma commitTSLazy_run:
  assumes ok: "src_ok st" and reg: "regular (fn c)"
    and run: "commitTSLazy B D fn lv c st = (r, c', st')"
  shows "case r of
      Inr u \<Rightarrow> \<exists>txn1. fn c (newTransactionAt D (db st) MaxUint64) = Inr (c', txn1)
        \<and> snap (db st') MaxUint64 = log_frame (lv c') (ts_next (tsSrc st)) (view txn1)
    | Inl e \<Rightarrow> snap (db st') MaxUint64 \<in> {snap (db st) MaxUint64,
          log_frame noopLogValue (ts_next (tsSrc st)) (snap (db st) MaxUint64)}"
    and "maxVersion D (db st') \<le> ts_next (tsSrc st)"
proof -
  let ?txn = "newTransactionAt D (db st) MaxUint64" and ?ts = "ts_next (tsSrc st)"
  have v: "maxVersion D (db st) < ?ts" using ok by (simp add: src_ok_def)
  have latest: "from_latest (db st) txn1" if "fn c ?txn = Inr (c1, txn1)" for c1 txn1
    using reg that from_latest_writes [OF from_latest_new] by (auto simp: regular_def)
  note tomb = tombstone_snap [OF v]
  show "case r of
      Inr u \<Rightarrow> \<exists>txn1. fn c ?txn = Inr (c', txn1)
        \<and> snap (db st') MaxUint64 = log_frame (lv c') ?ts (view txn1)
    | Inl e \<Rightarrow> snap (db st') MaxUint64 \<in> {snap (db st) MaxUint64,
          log_frame noopLogValue ?ts (snap (db st) MaxUint64)}"
    using run tomb(1) commit_frame [OF v latest]
    by (auto simp: commitTSLazy_def Let_def tsBegin_def set_law advanceDiscardTs_db
        split: sum.splits if_splits)
  show "maxVersion D (db st') \<le> ?ts"
    using run tomb(2) commit_version [OF v] order.strict_implies_order [OF v]
    by (auto simp: commitTSLazy_def Let_def tsBegin_def set_law advanceDiscardTs_db
        split: sum.splits if_splits)
qed

end


section \<open>The retry loop\<close>

lemma unat_MaxUint64: "unat MaxUint64 = 2 ^ 64 - 1"
  by (simp add: unsigned_minus_1_eq_mask mask_eq_exp_minus_1)

lemma baseBackoff_val:
  assumes "i < 43"
  shows "baseBackoff i cap = min (2 ^ i * Millisecond) cap"
proof -
  have "(2 :: int) ^ i \<le> 2 ^ 42" using assms by (intro power_increasing) auto
  then have range: "2 ^ i * Millisecond < (2 :: int) ^ 63" by simp
  have "push_bit i (1 :: u64) * word_of_int Millisecond = word_of_int (2 ^ i * Millisecond)"
    by (simp add: push_bit_eq_mult)
  then have "sint (push_bit i (1 :: u64) * word_of_int Millisecond)
      = signed_take_bit 63 (2 ^ i * Millisecond)"
    by (simp only: sint_sbintrunc') simp
  also have "\<dots> = 2 ^ i * Millisecond"
    by (rule signed_take_bit_int_eq_self [OF _ range]) (rule order.trans [of _ 0], simp_all)
  finally have "sint (push_bit i (1 :: u64) * word_of_int Millisecond) = 2 ^ i * Millisecond" .
  then show ?thesis by (simp add: baseBackoff_def Let_def min_def)
qed

definition retryable :: "go_error \<Rightarrow> bool" where
  "retryable e \<longleftrightarrow> errors_is e ErrConflict \<or> errors_is e ErrBlockedWrites"

definition frame_ok :: "('c \<Rightarrow> 'd store \<Rightarrow> (go_error + unit) \<times> 'c \<times> 'd store) \<Rightarrow> bool" where
  "frame_ok attempt \<longleftrightarrow> (\<forall>c st r c' st'. attempt c st = (r, c', st') \<longrightarrow>
     mtr st' = mtr st \<and> inUse st' = inUse st \<and> slept st' = slept st)"

definition jitter_ok :: "run_env \<Rightarrow> bool" where
  "jitter_ok E \<longleftrightarrow> (\<forall>i b. 0 \<le> b \<longrightarrow> 0 \<le> envJitter E i b \<and> 2 * envJitter E i b \<le> b)"

lemma sleep_bound:
  assumes "jitter_ok E" "i < 43" "0 \<le> cap" "cap \<le> 2 * Second"
  shows "0 \<le> baseBackoff i cap + envJitter E i (baseBackoff i cap)"
    "baseBackoff i cap + envJitter E i (baseBackoff i cap) \<le> 3 * Second"
proof -
  have b: "0 \<le> baseBackoff i cap" "baseBackoff i cap \<le> 2 * Second"
    using assms by (simp_all add: baseBackoff_val)
  then have "0 \<le> envJitter E i (baseBackoff i cap)"
    "2 * envJitter E i (baseBackoff i cap) \<le> baseBackoff i cap"
    using assms(1) by (auto simp: jitter_ok_def)
  with b show "0 \<le> baseBackoff i cap + envJitter E i (baseBackoff i cap)"
    "baseBackoff i cap + envJitter E i (baseBackoff i cap) \<le> 3 * Second" by simp_all
qed

lemma recordUpdateLatency_simps [simp]:
  "activeRetries (recordUpdateLatency d m) = activeRetries m"
  by (simp add: recordUpdateLatency_def)

text \<open>One turn of the loop: success, a panic, a final error, or another turn after a pause.\<close>

lemma retryLoop_turn:
  assumes "retryLoop E attempt (Suc n) i err c st = (r, c', st')" "attempt c st = (r1, c1, st1)"
  obtains
    (success) m where "r1 = Inr ()" "r = Inr ()" "c' = c1" "activeRetries m = activeRetries (mtr st1)"
      "st' = doneRetrying (st1\<lparr>mtr := m\<rparr>)"
  | (panicked) e where "r1 = Inl e" "is_panic e" "r = Inl e" "c' = c1" "st' = st1"
  | (final) e m where "r1 = Inl e" "\<not> is_panic e" "\<not> retryable e" "r = Inl e" "c' = c1"
      "activeRetries m = activeRetries (mtr st1)" "st' = doneRetrying (st1\<lparr>mtr := m\<rparr>)"
  | (again) e m cap where "r1 = Inl e" "retryable e" "activeRetries m = activeRetries (mtr st1)"
      "0 \<le> cap" "cap \<le> 2 * Second"
      "retryLoop E attempt n (Suc i) (Some e) c1
         (sleepFor (baseBackoff i cap + envJitter E i (baseBackoff i cap)) (st1\<lparr>mtr := m\<rparr>)) = (r, c', st')"
proof (cases r1)
  case (Inr u)
  show ?thesis
    by (rule success [of "recordUpdateLatency (envLatency E i) (mtr st1)"])
      (use assms Inr in \<open>simp_all add: Let_def\<close>)
next
  case (Inl e)
  let ?m = "recordUpdateLatency (envLatency E i) (mtr st1)"
  consider (panic) "is_panic e" | (conflict) "\<not> is_panic e" "errors_is e ErrConflict"
    | (blocked) "\<not> is_panic e" "\<not> errors_is e ErrConflict" "errors_is e ErrBlockedWrites"
    | (other) "\<not> is_panic e" "\<not> errors_is e ErrConflict" "\<not> errors_is e ErrBlockedWrites" by blast
  then show ?thesis
  proof cases
    case panic
    show ?thesis by (rule panicked [of e]) (use assms Inl panic in \<open>simp_all add: Let_def\<close>)
  next
    case conflict
    show ?thesis
      by (rule again [of e "?m\<lparr>conflicts := conflicts ?m + 1\<rparr>" "50 * Millisecond"])
        (use assms Inl conflict in \<open>simp_all add: Let_def retryable_def\<close>)
  next
    case blocked
    show ?thesis
      by (rule again [of e "?m\<lparr>writesBlocked := writesBlocked ?m + 1\<rparr>" "2 * Second"])
        (use assms Inl blocked in \<open>simp_all add: Let_def retryable_def\<close>)
  next
    case other
    show ?thesis
      by (rule final [of e ?m]) (use assms Inl other in \<open>simp_all add: Let_def retryable_def\<close>)
  qed
qed

lemma doneRetrying_simps [simp]:
  "db (doneRetrying st) = db st" "tsSrc (doneRetrying st) = tsSrc st" "inUse (doneRetrying st) = inUse st"
  "slept (doneRetrying st) = slept st" "bpConfig (doneRetrying st) = bpConfig st"
  "activeRetries (mtr (doneRetrying st)) = activeRetries (mtr st) - 1"
  by (simp_all add: doneRetrying_def)

lemma sleepFor_simps [simp]:
  "db (sleepFor p st) = db st" "tsSrc (sleepFor p st) = tsSrc st" "inUse (sleepFor p st) = inUse st"
  "slept (sleepFor p st) = slept st @ [p]" "bpConfig (sleepFor p st) = bpConfig st"
  "mtr (sleepFor p st) = mtr st"
  by (simp_all add: sleepFor_def)

definition panicked :: "go_error + 'a \<Rightarrow> bool" where
  "panicked r = (case r of Inl e \<Rightarrow> is_panic e | Inr x \<Rightarrow> False)"

lemma panicked_simps [simp]: "panicked (Inl e) = is_panic e" "\<not> panicked (Inr x)" "\<not> is_panic (Errorf m)" "\<not> is_panic (Wrap m e)"
  by (simp_all add: panicked_def is_panic_def)

lemma panic_not_retryable: "is_panic e \<Longrightarrow> \<not> retryable e"
  by (cases e) (simp_all add: is_panic_def retryable_def)

lemma retryLoop_resources:
  assumes "frame_ok attempt" "jitter_ok E" "i + n < 43"
    and "retryLoop E attempt n i err c st = (r, c', st')"
  shows "inUse st' = inUse st \<and> activeRetries (mtr st') = activeRetries (mtr st) - (if panicked r then 0 else 1)
    \<and> (\<exists>ss. slept st' = slept st @ ss \<and> length ss \<le> n \<and> list_all (\<lambda>p. 0 \<le> p \<and> p \<le> 3 * Second) ss)"
  using assms(3,4)
proof (induction n arbitrary: i err c st)
  case 0
  then show ?case by (auto split: option.splits)
next
  case (Suc n)
  obtain r1 c1 st1 where att: "attempt c st = (r1, c1, st1)" by (metis prod_cases3)
  then have fr: "mtr st1 = mtr st" "inUse st1 = inUse st" "slept st1 = slept st"
    using assms(1) by (auto simp: frame_ok_def)
  from Suc.prems(2) att show ?case
  proof (cases rule: retryLoop_turn)
    case (again e m cap)
    let ?p = "baseBackoff i cap + envJitter E i (baseBackoff i cap)"
    from Suc.IH [OF _ again(6)] Suc.prems(1) again(3) fr
    obtain ss where ss: "slept st' = (slept st @ [?p]) @ ss" "length ss \<le> n"
      "list_all (\<lambda>p. 0 \<le> p \<and> p \<le> 3 * Second) ss"
      "inUse st' = inUse st" "activeRetries (mtr st') = activeRetries (mtr st) - (if panicked r then 0 else 1)"
      by auto
    moreover have "0 \<le> ?p \<and> ?p \<le> 3 * Second"
      using sleep_bound [OF assms(2), of i cap] Suc.prems(1) again(4,5) by simp
    ultimately show ?thesis by (auto intro!: exI [of _ "?p # ss"])
  qed (use fr in auto)
qed

lemma retryLoop_result:
  assumes "retryLoop E attempt n i err c st = (Inl e, c', st')"
  shows "\<not> retryable e \<or> e = Errorf ''max retries exhausted'' \<or> (\<exists>e'. e = Wrap ''max retries exhausted'' e')"
  using assms
proof (induction n arbitrary: i err c st)
  case 0
  then show ?case by (auto split: option.splits)
next
  case (Suc n)
  obtain r1 c1 st1 where att: "attempt c st = (r1, c1, st1)" by (metis prod_cases3)
  from Suc.prems att show ?case
    by (cases rule: retryLoop_turn) (use Suc.IH panic_not_retryable in auto)
qed

context badger_db
begin

lemma src_ok_cong [simp]:
  "src_ok (doneRetrying st) = src_ok st" "src_ok (sleepFor p st) = src_ok st"
  "src_ok (st\<lparr>mtr := m\<rparr>) = src_ok st" "src_ok (st\<lparr>inUse := n\<rparr>) = src_ok st" "src_ok (st\<lparr>l0c := l\<rparr>) = src_ok st"
  by (simp_all add: src_ok_def)

text \<open>Effect of a write on the data: none on failure, one run of the body on success.\<close>

definition once ::
  "('c \<Rightarrow> bool) \<Rightarrow> ('c \<Rightarrow> ('t, 'c) tx) \<Rightarrow> 'd store \<Rightarrow> go_error + unit \<Rightarrow> 'c \<Rightarrow> 'd store \<Rightarrow> bool" where
  "once I fn st r c' st' \<longleftrightarrow> (case r of
      Inr u \<Rightarrow> \<exists>c0 txn0 txn1. I c0 \<and> fn c0 txn0 = Inr (c', txn1)
        \<and> data (view txn0) = data (snap (db st) MaxUint64)
        \<and> data (snap (db st') MaxUint64) = data (view txn1)
    | Inl e \<Rightarrow> data (snap (db st') MaxUint64) = data (snap (db st) MaxUint64))"

text \<open>\<open>stays I fn m\<close>: an attempt on the data \<open>m\<close> keeps the invariant \<open>I\<close> of the captured variables.\<close>

definition stays :: "('c \<Rightarrow> bool) \<Rightarrow> ('c \<Rightarrow> ('t, 'c) tx) \<Rightarrow> (bytes \<rightharpoonup> item) \<Rightarrow> bool" where
  "stays I fn m \<longleftrightarrow> (\<forall>c t c' t'. I c \<longrightarrow> data (view t) = m \<longrightarrow> fn c t = Inr (c', t') \<longrightarrow> I c')"

lemma stays_True [simp]: "stays (\<lambda>_. True) fn m"
  by (simp add: stays_def)

lemma commitTSLazy_vars:
  assumes "commitTSLazy B D fn lv c st = (r, c', st')"
  shows "c' = c \<or> (\<exists>t'. fn c (newTransactionAt D (db st) MaxUint64) = Inr (c', t'))"
  using assms by (auto simp: commitTSLazy_def Let_def tsBegin_def split: sum.splits if_splits)

lemma commitTSLazy_once:
  assumes "src_ok st" "regular (fn c)" "commitTSLazy B D fn lv c st = (r, c', st')"
    "ts_next (tsSrc st) < MaxUint64" "I c" "stays I fn (data (snap (db st) MaxUint64))"
  shows "once I fn st r c' st'" "src_ok st'" "I c'"
proof -
  note run = commitTSLazy_run [OF assms(1,2,3)]
  show "once I fn st r c' st'"
  proof (cases r)
    case (Inr u)
    with run(1) obtain txn1 where "fn c (newTransactionAt D (db st) MaxUint64) = Inr (c', txn1)"
      "snap (db st') MaxUint64 = log_frame (lv c') (ts_next (tsSrc st)) (view txn1)" by auto
    then show ?thesis unfolding once_def Inr sum.case
      by (intro exI [of _ c] exI [of _ "newTransactionAt D (db st) MaxUint64"] exI [of _ txn1])
        (simp add: new_view assms(5))
  next
    case (Inl e)
    with run(1) show ?thesis by (auto simp: once_def)
  qed
  have "ts_next (tsSrc st) < ts_next (tsSrc st) + 1" using inc_u64(1) [OF assms(4)] .
  then show "src_ok st'"
    using run(2) commitTSLazy_frame(5) [OF assms(3)] by (simp add: src_ok_def)
  show "I c'"
    using commitTSLazy_vars [OF assms(3)] assms(5,6) new_view [of "db st" MaxUint64]
    unfolding stays_def by metis
qed

lemma retryLoop_once:
  assumes "src_ok st" "\<And>c. regular (fn c)" "unat (ts_next (tsSrc st)) + n < 2 ^ 64 - 1"
    "retryLoop E (commitTSLazy B D fn lv) n i err c st = (r, c', st')"
    "I c" "stays I fn (data (snap (db st) MaxUint64))"
  shows "once I fn st r c' st' \<and> src_ok st'"
  using assms(1,3-)
proof (induction n arbitrary: i err c st)
  case 0
  then show ?case by (auto simp: once_def)
next
  case (Suc n)
  obtain r1 c1 st1 where att: "commitTSLazy B D fn lv c st = (r1, c1, st1)" by (metis prod_cases3)
  have lt: "ts_next (tsSrc st) < MaxUint64"
    using Suc.prems(2) unat_MaxUint64 by (simp add: word_less_nat_alt)
  note one = commitTSLazy_once [OF Suc.prems(1) assms(2) att lt Suc.prems(4,5)]
  have nx: "unat (ts_next (tsSrc st1)) = Suc (unat (ts_next (tsSrc st)))"
    using commitTSLazy_frame(5) [OF att] unat_inc [OF lt] by simp
  from Suc.prems(3) att show ?case
  proof (cases rule: retryLoop_turn)
    case (again e m cap)
    let ?st2 = "sleepFor (baseBackoff i cap + envJitter E i (baseBackoff i cap)) (st1\<lparr>mtr := m\<rparr>)"
    have same: "data (snap (db st1) MaxUint64) = data (snap (db st) MaxUint64)"
      using one(1) again(1) by (simp add: once_def)
    have "once I fn ?st2 r c' st' \<and> src_ok st'"
      by (rule Suc.IH [OF _ _ again(6)]) (use one(2,3) nx Suc.prems(2,5) same in simp_all)
    with same show ?thesis by (simp add: once_def split: sum.splits)
  qed (use one in \<open>auto simp: once_def\<close>)
qed

end


text \<open>Admission: a refused write changes only the cache and a counter; an admitted one runs the loop.\<close>

lemma withAdmission_cases:
  assumes "withAdmission E attempt n c st = (r, c', st')"
  obtains
    (rejected) l m where "r = Inl (Errorf ''write rejected'')" "c' = c" "st' = st\<lparr>l0c := l, mtr := m\<rparr>"
      "activeRetries m = activeRetries (mtr st)"
  | (admitted) st3 st4 ss where "retryLoop E attempt n 0 None c st3 = (r, c', st4)" "st' = Release st4"
      "db st3 = db st" "tsSrc st3 = tsSrc st" "inUse st3 = Suc (inUse st)" "slept st3 = slept st @ ss"
      "length ss \<le> 1" "activeRetries (mtr st3) = activeRetries (mtr st) + 1"
proof -
  obtain dl rj l where adm: "(if Enabled (bpConfig st) then
        (let (score, cache) = l0ScoreCached E (l0c st); (dl, rj) = preWriteCheck E (bpConfig st) score
         in (dl, rj, st\<lparr>l0c := cache\<rparr>)) else (0, False, st)) = (dl, rj, st\<lparr>l0c := l\<rparr>)"
  proof (cases "Enabled (bpConfig st)")
    case True
    obtain score cache where sc: "l0ScoreCached E (l0c st) = (score, cache)" by force
    obtain dl rj where "preWriteCheck E (bpConfig st) score = (dl, rj)" by force
    with True sc show ?thesis by (intro that [of dl rj cache]) simp
  next
    case False
    then show ?thesis by (intro that [of 0 False "l0c st"]) simp
  qed
  show ?thesis
  proof (cases rj)
    case True
    show ?thesis
      by (rule rejected [where l = l and m = "(mtr st)\<lparr>l0Rejected := l0Rejected (mtr st) + 1\<rparr>"])
        (use assms True in \<open>simp_all add: withAdmission_def adm\<close>)
  next
    case False
    define st1 where "st1 = (if dl > 0
      then sleepFor dl (st\<lparr>l0c := l, mtr := (mtr st)\<lparr>l0Delayed := l0Delayed (mtr st) + 1\<rparr>\<rparr>) else st\<lparr>l0c := l\<rparr>)"
    define st3 where "st3 = (Acquire st1)\<lparr>mtr := (mtr st1)\<lparr>activeRetries := activeRetries (mtr st1) + 1\<rparr>\<rparr>"
    obtain st4 where "retryLoop E attempt n 0 None c st3 = (r, c', st4)" "st' = Release st4"
      using assms False
      by (cases "dl > 0") (auto simp: withAdmission_def adm Let_def st1_def st3_def Acquire_def split: prod.splits)
    then show ?thesis
      by (rule admitted [of st3 st4 "if dl > 0 then [dl] else []"])
        (auto simp: st3_def st1_def Acquire_def)
  qed
qed

lemma frame_ok_commitTSLazy: "frame_ok (commitTSLazy B D fn lv)"
  using commitTSLazy_frame by (fastforce simp: frame_ok_def)

context badger_db
begin

lemma retryUpdateLazy_once:
  assumes "src_ok st" "\<And>c. regular (fn c)" "unat (ts_next (tsSrc st)) + n < 2 ^ 64 - 1"
    "retryUpdateLazy E B D fn n lv c st = (r, c', st')"
    "I c" "stays I fn (data (snap (db st) MaxUint64))"
  shows "once I fn st r c' st' \<and> src_ok st'"
  using assms(4) [unfolded retryUpdateLazy_def]
proof (cases rule: withAdmission_cases)
  case (rejected l m)
  then show ?thesis using assms(1) by (simp add: once_def src_ok_def)
next
  case (admitted st3 st4 ss)
  have "once I fn st3 r c' st4 \<and> src_ok st4"
    by (rule retryLoop_once [OF _ assms(2) _ admitted(1)])
      (use assms(1,3,5,6) admitted(3,4) in \<open>simp_all add: src_ok_def\<close>)
  then show ?thesis using admitted(2,3)
    by (simp add: once_def Release_def src_ok_def split: sum.splits)
qed

lemma log_ts_log_frame: "log_ts (log_frame lv ts m) = (if lv = [] then log_ts m else insert ts (log_ts m))"
  by (auto simp: log_frame_def log_ts_def)

text \<open>One call of \<^verbatim>\<open>commitTS\<close> is a run of the writer's steps.\<close>

lemma commitTSLazy_steps:
  assumes ok: "src_ok st" and reg: "regular (fn c)"
    and keep: "\<And>t c1 t1. fn c t = Inr (c1, t1) \<Longrightarrow> log_ts (view t1) = log_ts (view t)"
    and run: "commitTSLazy B D fn lv c st = (r, c', st')"
    and s: "src s = tsSrc st" "log_keys s = log_ts (snap (db st) MaxUint64)" "discardMu s = None"
    and lt: "ts_next (tsSrc st) < MaxUint64"
  shows "\<exists>b s'. ts_exec_list s (let ts = ts_next (tsSrc st) in case r of
        Inr u \<Rightarrow> [EvBegin, EvCommit ts (lv c' \<noteq> []), EvAdvance ts, EvSetDiscard ts, EvEnd ts]
      | Inl e \<Rightarrow> [EvBegin, EvFail ts b, EvEnd ts]) = Some s'
    \<and> src s' = tsSrc st' \<and> log_keys s' = log_ts (snap (db st') MaxUint64)
    \<and> phases s' = (phases s)(ts_next (tsSrc st) := None) \<and> discardMu s' = None"
proof (cases r)
  case (Inr u)
  let ?ts = "ts_next (tsSrc st)"
  from commitTSLazy_run(1) [OF ok reg run] Inr obtain txn1 where
    fn: "fn c (newTransactionAt D (db st) MaxUint64) = Inr (c', txn1)"
    and sn: "snap (db st') MaxUint64 = log_frame (lv c') ?ts (view txn1)" by auto
  have src': "tsSrc st' = tsEnd ?ts (snd (AdvanceDiscard (snd (tsBegin (tsSrc st)))))"
    using run Inr fn by (auto simp: commitTSLazy_def Let_def advanceDiscardTs_def tsBegin_def set_law
        split: sum.splits prod.splits if_splits)
  have "log_ts (snap (db st') MaxUint64) = log_after (lv c' \<noteq> []) ?ts (log_keys s)"
    using sn keep [OF fn] s(2) by (simp add: log_ts_log_frame log_after_def new_view)
  then show ?thesis
    using src' lt s(1,3) Inr
    by (auto simp: Let_def tsBegin_def AdvanceDiscard_def fun_upd_def)
next
  case (Inl e)
  let ?ts = "ts_next (tsSrc st)"
  from commitTSLazy_run(1) [OF ok reg run] Inl obtain b where
    b: "log_ts (snap (db st') MaxUint64) = log_after b ?ts (log_keys s)"
    using s(2) log_ts_log_frame by (force simp: log_after_def intro: that [of True] that [of False])
  have src': "tsSrc st' = tsEnd ?ts (snd (tsBegin (tsSrc st)))"
    using run Inl by (auto simp: commitTSLazy_def Let_def tsBegin_def split: sum.splits if_splits)
  show ?thesis
    using src' lt s(1,3) Inl b
    by (intro exI [of _ b]) (auto simp: Let_def tsBegin_def fun_upd_def)
qed

end


section \<open>Back-pressure\<close>

definition rounding :: "(rat \<Rightarrow> rat) \<Rightarrow> bool" where
  "rounding f \<longleftrightarrow> (\<forall>x y. x \<le> y \<longrightarrow> f x \<le> f y) \<and> f 0 = 0 \<and> f 1 = 1"

lemma to_duration_mono:
  assumes "x \<le> y"
  shows "to_duration x \<le> to_duration y"
proof -
  have "\<lceil>x\<rceil> \<le> \<lfloor>y\<rfloor>" if "\<not> 0 \<le> x" "0 \<le> y"
    by (rule order.trans [of _ 0]) (use that in simp_all)
  then show ?thesis using assms by (auto simp: to_duration_def floor_mono ceiling_mono)
qed

section \<open>A sample run\<close>

definition metrics0 :: metrics where
  "metrics0 = \<lparr>activeRetries = 0, totalRetries = 0, writesBlocked = 0, l0Rejected = 0, l0Delayed = 0,
     conflicts = 0, slowWrite10ms = 0, slowWrite50ms = 0, slowWrite100ms = 0\<rparr>"

definition store0 :: "'d \<Rightarrow> 'd store" where
  "store0 d = \<lparr>db = d, tsSrc = newTSSource, mtr = metrics0, bpConfig = DefaultBackpressureConfig,
     l0c = \<lparr>l0score = None, lastCheck = 0\<rparr>, slotCap = 50, inUse = 0, slept = []\<rparr>"

definition env0 :: run_env where
  "env0 = \<lparr>envNow = 0, envLevels = [(0, 1)], envLatency = (\<lambda>_. 0), envJitter = (\<lambda>_ _. 0), fl = (\<lambda>x. x)\<rparr>"

definition kv0 :: "kv_db store" where
  "kv0 = store0 \<lparr>kv_versions = []\<rparr>"

definition set_ab :: "(kv_txn, unit) body" where
  "set_ab c = Set kv_ops ''a'' ''b''"

lemma kv0_ok: "maxVersion kv_db_ops (db kv0) < ts_next (tsSrc kv0)"
  by (simp add: kv0_def store0_def newTSSource_def kv_db_ops_def)

lemma kv0_room: "ts_next (tsSrc kv0) < MaxUint64" "unat (ts_next (tsSrc kv0)) + 30 < 2 ^ 64 - 1"
  by (simp_all add: kv0_def store0_def newTSSource_def less_max_u64)


lemmas sample_eval = kv0_def store0_def env0_def set_ab_def Set_def kv_ops_def kv_db_ops_def
  DefaultBackpressureConfig_def l0ScoreCached_def L0Score_def preWriteCheck_def Let_def commitTS_def
  tsBegin_def newTSSource_def advanceDiscardTs_def AdvanceDiscard_def tsEnd_def

lemma set_ab_run:
  obtains st' where "retryUpdate env0 kv_ops kv_db_ops set_ab 30 [''x''] () kv0 = (Inr (), (), st')"
proof -
  have "fst (retryUpdate env0 kv_ops kv_db_ops set_ab 30 [''x''] () kv0) = Inr ()"
    by (simp add: retryUpdate_def withAdmission_def sample_eval eval_nat_numeral)
  then show ?thesis using that by (cases "retryUpdate env0 kv_ops kv_db_ops set_ab 30 [''x''] () kv0") auto
qed

lemma set_ab_commit:
  obtains st' where "commitTS kv_ops kv_db_ops set_ab [''x''] () kv0 = (Inr (), (), st')"
proof -
  have "fst (commitTS kv_ops kv_db_ops set_ab [''x''] () kv0) = Inr ()"
    by (simp add: sample_eval)
  then show ?thesis using that by (cases "commitTS kv_ops kv_db_ops set_ab [''x''] () kv0") auto
qed

lemma set_ab_regular: "badger_txn.regular kv_upd (set_ab c)"
  by (simp add: set_ab_def)

lemma retryUpdate_lazy:
  "retryUpdate E B D fn n logValue c st =
   retryUpdateLazy E B D fn n (\<lambda>_. case logValue of [] \<Rightarrow> [] | v # _ \<Rightarrow> v) c st"
proof -
  have "commitTS B D fn logValue = commitTSLazy B D fn (\<lambda>_. case logValue of [] \<Rightarrow> [] | v # _ \<Rightarrow> v)"
    by (intro ext) (rule commitTS_lazy)
  then show ?thesis by (simp add: retryUpdate_def retryUpdateLazy_def)
qed

section \<open>Properties\<close>

text \<open>C2 A write happens exactly once or not at all. Whatever commit conflicts and blocked writes the
  engine reports, if \<^verbatim>\<open>retryUpdate\<close> succeeds then the data afterwards is the result of one run of the
  transaction body on the data before (failed attempts leave only log frames behind), and if it
  returns an error the data is unchanged.\<close>

theorem retryUpdate_exactly_once:
  assumes "badger_db B view upd now D snap pend"
    and "maxVersion D (db st) < ts_next (tsSrc st)" "unat (ts_next (tsSrc st)) + n < 2 ^ 64 - 1"
    and "\<And>c. badger_txn.regular upd (fn c)"
    and "retryUpdate E B D fn n logValue c st = (r, c', st')"
  shows "(case r of
      Inr u \<Rightarrow> \<exists>c0 txn0 txn1. fn c0 txn0 = Inr (c', txn1)
        \<and> data (view txn0) = data (snap (db st) MaxUint64)
        \<and> data (snap (db st') MaxUint64) = data (view txn1)
    | Inl e \<Rightarrow> data (snap (db st') MaxUint64) = data (snap (db st) MaxUint64))
    \<and> maxVersion D (db st') < ts_next (tsSrc st')"
proof -
  note d = assms(1)
  have "badger_db.src_ok D st" using assms(2) by (simp add: badger_db.src_ok_def [OF d])
  then have "badger_db.once view snap (\<lambda>_. True) fn st r c' st' \<and> badger_db.src_ok D st'"
    by (rule badger_db.retryUpdateLazy_once [OF d _ assms(4,3) assms(5) [unfolded retryUpdate_lazy]])
      (simp_all add: badger_db.stays_True [OF d])
  then show ?thesis by (cases r) (simp_all add: badger_db.once_def [OF d] badger_db.src_ok_def [OF d])
qed

theorem retryUpdate_exactly_once_witness:
  "\<exists>st'. retryUpdate env0 kv_ops kv_db_ops set_ab 30 [''x''] () kv0 = (Inr (), (), st')
     \<and> data (kv_snap (db st') MaxUint64) = data [''a'' \<mapsto> \<lparr>ival = ''b'', iexp = 0\<rparr>]"
proof -
  obtain st' where run: "retryUpdate env0 kv_ops kv_db_ops set_ab 30 [''x''] () kv0 = (Inr (), (), st')"
    by (rule set_ab_run)
  from retryUpdate_exactly_once [OF kvd.badger_db_axioms kv0_ok kv0_room(2) set_ab_regular run]
  obtain txn0 txn1 where
    t: "set_ab () txn0 = Inr ((), txn1)" "data (kv_view txn0) = data (kv_snap (db kv0) MaxUint64)"
      "data (kv_snap (db st') MaxUint64) = data (kv_view txn1)" by auto
  have "kv_snap (db kv0) MaxUint64 = Map.empty"
    by (simp add: kv0_def store0_def kv_snap_def kv_snap_list_def fun_eq_iff)
  moreover have "kv_view txn1 = (kv_view txn0)(''a'' \<mapsto> \<lparr>ival = ''b'', iexp = 0\<rparr>)"
    using t(1) by (auto simp: set_ab_def kv.Set_run kv.view_upd)
  ultimately have "data (kv_view txn1) = data [''a'' \<mapsto> \<lparr>ival = ''b'', iexp = 0\<rparr>]"
    using t(2) by (auto simp: data_def fun_eq_iff split: if_splits)
  then show ?thesis using run t(3) by auto
qed






text \<open>C6 \<^verbatim>\<open>commitTS\<close> refines the writer of the concurrent model: whatever other writers are in flight,
  one call moves the timestamp source and the set of logged timestamps exactly as the writer's steps
  begin, commit (or fail, with or without its tombstone), advance, set-discard, end do.\<close>

theorem commitTS_refines_steps:
  assumes "badger_db B view upd now D snap pend"
    and "maxVersion D (db st) < ts_next (tsSrc st)" "ts_next (tsSrc st) < MaxUint64"
    and "badger_txn.regular upd (fn c)"
    and "\<And>t c1 t1. fn c t = Inr (c1, t1) \<Longrightarrow> log_ts (view t1) = log_ts (view t)"
    and "commitTS B D fn [lv] c st = (r, c', st')"
    and "src s = tsSrc st" "log_keys s = log_ts (snap (db st) MaxUint64)" "discardMu s = None"
  shows "\<exists>b s'. ts_exec_list s (let ts = ts_next (tsSrc st) in case r of
        Inr u \<Rightarrow> [EvBegin, EvCommit ts (lv \<noteq> []), EvAdvance ts, EvSetDiscard ts, EvEnd ts]
      | Inl e \<Rightarrow> [EvBegin, EvFail ts b, EvEnd ts]) = Some s'
    \<and> src s' = tsSrc st' \<and> log_keys s' = log_ts (snap (db st') MaxUint64)
    \<and> phases s' = (phases s)(ts_next (tsSrc st) := None) \<and> discardMu s' = None"
proof -
  note d = assms(1)
  have ok: "badger_db.src_ok D st" using assms(2) by (simp add: badger_db.src_ok_def [OF d])
  have run: "commitTSLazy B D fn (\<lambda>_. lv) c st = (r, c', st')" using assms(6) by (simp add: commitTS_lazy)
  show ?thesis
    by (rule badger_db.commitTSLazy_steps [OF d ok assms(4) assms(5) run assms(7,8,9,3)])
qed

theorem commitTS_refines_steps_witness:
  "\<exists>st' s'. commitTS kv_ops kv_db_ops set_ab [''x''] () kv0 = (Inr (), (), st')
     \<and> ts_exec_list (start_sys 0) [EvBegin, EvCommit 1 True, EvAdvance 1, EvSetDiscard 1, EvEnd 1] = Some s'
     \<and> src s' = tsSrc st' \<and> log_keys s' = log_ts (kv_snap (db st') MaxUint64)"
proof -
  obtain st' where run: "commitTS kv_ops kv_db_ops set_ab [''x''] () kv0 = (Inr (), (), st')"
    by (rule set_ab_commit)
  have keep: "log_ts (kv_view t1) = log_ts (kv_view t)" if "set_ab () t = Inr (c1, t1)" for t c1 t1
    using that by (auto simp: set_ab_def kv.Set_run kv.view_upd log_ts_def replLogKey_def replLogPrefix_def)
  have s: "src (start_sys 0) = tsSrc kv0" "discardMu (start_sys 0) = None"
    "log_keys (start_sys 0) = log_ts (kv_snap (db kv0) MaxUint64)" "ts_next (tsSrc kv0) = 1"
    by (simp_all add: start_sys_def kv0_def store0_def tsInit_def newTSSource_def log_ts_def kv_snap_def
        kv_snap_list_def dom_def)
  from commitTS_refines_steps [OF kvd.badger_db_axioms kv0_ok kv0_room(1) set_ab_regular keep run
      s(1,3,2)] obtain s' where
    "ts_exec_list (start_sys 0) [EvBegin, EvCommit 1 True, EvAdvance 1, EvSetDiscard 1, EvEnd 1] = Some s'"
    "src s' = tsSrc st'" "log_keys s' = log_ts (kv_snap (db st') MaxUint64)"
    by (auto simp: Let_def s(4) simp del: ts_exec_list.simps)
  with run show ?thesis by blast
qed



end
