(* ===== verification/Feed.thy ===== *)
theory Feed
  imports Commit
begin

text \<open>
  The sending side of replication, \<^verbatim>\<open>internal/replication/feed_wire.go\<close>, \<^verbatim>\<open>feed_source.go\<close>, \<^verbatim>\<open>psync.go\<close>
  and the parts of \<^verbatim>\<open>replication.go\<close> and \<^verbatim>\<open>slave.go\<close> that drive it. The master reads the log up to its
  completion watermark, checks that the timestamps are consecutive, decodes each log value back into
  a command and sends it as \<^verbatim>\<open>REPLLOG <ts> <cmd> <arg>...\<close>; a cursor per replica remembers where to go on.
\<close>

section \<open>Strings\<close>

definition ascii_upper :: "char \<Rightarrow> char" where
  "ascii_upper c = (if 97 \<le> (of_char c :: nat) \<and> (of_char c :: nat) \<le> 122 then char_of (of_char c - 32 :: nat) else c)"

text \<open>\<^verbatim>\<open>strings.ToUpper\<close> as far as a comparison with an ASCII name can tell: besides the ASCII letters
  only the runes U+017F and U+0131 have an ASCII upper case.\<close>

fun ToUpper :: "bytes \<Rightarrow> bytes" where
  "ToUpper [] = []"
| "ToUpper [c] = [ascii_upper c]"
| "ToUpper (c # d # s) =
     (if c = CHR 0xC5 \<and> d = CHR 0xBF then CHR ''S'' # ToUpper s
      else if c = CHR 0xC4 \<and> d = CHR 0xB1 then CHR ''I'' # ToUpper s
      else ascii_upper c # ToUpper (d # s))"

section \<open>The wire format\<close>

definition feedEntryCommand :: bytes where
  "feedEntryCommand = ''REPLLOG''"

definition feedEntryArgs :: "u64 \<Rightarrow> bytes list \<Rightarrow> bytes list" where
  "feedEntryArgs ts command = [feedEntryCommand, utoa (unat ts)] @ command"

definition str :: "bytes option \<Rightarrow> bytes" where
  "str a = (case a of None \<Rightarrow> [] | Some v \<Rightarrow> v)"

definition feedEntryParse :: "bytes option list \<Rightarrow> bytes + (u64 \<times> bytes list)" where
  "feedEntryParse args =
     (if length args < 3 \<or> str (args ! 0) \<noteq> feedEntryCommand then Inl ''not a REPLLOG feed entry''
      else case parse_uint (str (args ! 1)) of
             None \<Rightarrow> Inl ''invalid feed ts''
           | Some ts \<Rightarrow> Inr (ts, map str (drop 2 args)))"

definition EncodeReplconfAck :: "int \<Rightarrow> u64 \<Rightarrow> bytes" where
  "EncodeReplconfAck offset ts =
     ''*4'' @ crlf @ ''$8'' @ crlf @ ''REPLCONF'' @ crlf @ ''$3'' @ crlf @ ''ACK'' @ crlf
     @ ''$'' @ utoa (length (itoa offset)) @ crlf @ itoa offset @ crlf
     @ ''$'' @ utoa (length (utoa (unat ts))) @ crlf @ utoa (unat ts) @ crlf"

definition serializeCommand :: "bytes list \<Rightarrow> bytes" where
  "serializeCommand cmd =
     ''*'' @ utoa (length cmd) @ crlf
     @ concat (map (\<lambda>a. ''$'' @ utoa (length a) @ crlf @ a @ crlf) cmd)"

section \<open>Decoding log values\<close>

text \<open>
  \<^verbatim>\<open>parseCommandEvents\<close> scans the bytes with an index; the model keeps the rest of the input. Stepping
  over a CR LF that is not there moves the index past the end, and slicing there panics unless the
  slice has spare capacity: \<open>spare\<close> is that capacity and \<open>None\<close> the panic.
\<close>

fun argSplit :: "bytes \<Rightarrow> bytes \<times> bytes" where
  "argSplit [] = ([], [])"
| "argSplit (c # s) =
     (if c = CR \<and> s \<noteq> [] \<and> hd s = LF then ([], c # s)
      else let (a, r) = argSplit s in (c # a, r))"

lemma argSplit_length: "length (snd (argSplit s)) \<le> length s"
  by (induction s rule: argSplit.induct) (auto split: prod.splits)

function parseArgs :: "nat \<Rightarrow> int \<Rightarrow> bytes \<Rightarrow> (bytes list \<times> bytes) option" where
  "parseArgs spare n d =
     (if n \<le> 0 \<or> d = [] then Some ([], d)
      else if hd d \<noteq> CHR ''$'' then Some ([], d)
      else let r = dropWhile (\<lambda>c. c \<noteq> CR) (tl d)
           in if length r + spare < 2 then None
              else case argSplit (drop 2 r) of (a, r') \<Rightarrow>
                     (case parseArgs spare (n - 1) (drop 2 r') of
                        None \<Rightarrow> None
                      | Some (as, rest) \<Rightarrow> Some (a # as, rest)))"
  by pat_completeness auto

termination
proof (relation "measure (\<lambda>(_, _, d). length d)")
  fix spare :: nat and n :: int and d r a r' :: bytes
  assume d: "\<not> (n \<le> 0 \<or> d = [])" and r: "r = dropWhile (\<lambda>c. c \<noteq> CR) (tl d)"
    and x: "(a, r') = argSplit (drop 2 r)"
  have "length r' \<le> length (drop 2 r)" using argSplit_length [of "drop 2 r"] x by (metis snd_conv)
  also have "\<dots> \<le> length (tl d)" using length_dropWhile_le [of "\<lambda>c. c \<noteq> CR" "tl d"] r by simp
  finally show "((spare, n - 1, drop 2 r'), spare, n, d) \<in> measure (\<lambda>(_, _, d). length d)"
    using d by (cases d) auto
qed auto

declare parseArgs.simps [simp del]

text \<open>The count line: digits accumulated in an \<^verbatim>\<open>int\<close>, which wraps.\<close>

definition nArgs_of :: "bytes \<Rightarrow> int" where
  "nArgs_of ds = sint (word_of_nat (digits_val ds) :: u64)"

lemma parseArgs_length: "parseArgs spare n d = Some (as, rest) \<Longrightarrow> length rest \<le> length d"
proof (induction spare n d arbitrary: as rest rule: parseArgs.induct)
  case (1 spare n d)
  show ?case
  proof (cases "n \<le> 0 \<or> d = [] \<or> hd d \<noteq> CHR ''$''")
    case True
    then show ?thesis using "1.prems" by (subst (asm) parseArgs.simps) (auto split: if_splits)
  next
    case False
    let ?r = "dropWhile (\<lambda>c. c \<noteq> CR) (tl d)"
    obtain a r' where ar: "argSplit (drop 2 ?r) = (a, r')" by force
    from "1.prems" False ar obtain as' where
      sp: "\<not> length ?r + spare < 2" and sub: "parseArgs spare (n - 1) (drop 2 r') = Some (as', rest)"
      by (subst (asm) parseArgs.simps) (auto simp: Let_def split: if_splits option.splits)
    have "length rest \<le> length (drop 2 r')"
      by (rule "1.IH" [OF _ _ refl _ ar [symmetric] sub]) (use False sp in auto)
    also have "\<dots> \<le> length (tl d)"
      using argSplit_length [of "drop 2 ?r"] ar length_dropWhile_le [of "\<lambda>c. c \<noteq> CR" "tl d"] by simp
    finally show ?thesis by simp
  qed
qed

function parseCommandEvents :: "nat \<Rightarrow> bytes \<Rightarrow> bytes list list option" where
  "parseCommandEvents spare d =
     (if d = [] \<or> hd d \<noteq> CHR ''*'' then Some []
      else let ds = takeWhile is_digit (tl d);
               r = dropWhile is_digit (tl d)
           in if length r < 2 \<or> r ! 0 \<noteq> CR \<or> r ! 1 \<noteq> LF then Some []
              else case parseArgs spare (nArgs_of ds) (drop 2 r) of
                     None \<Rightarrow> None
                   | Some (args, rest) \<Rightarrow>
                       (case parseCommandEvents spare rest of
                          None \<Rightarrow> None
                        | Some out \<Rightarrow> Some (if length args \<ge> 1 then args # out else out)))"
  by pat_completeness auto

termination
proof (relation "measure (\<lambda>(_, d). length d)")
  fix spare :: nat and d ds r rest :: bytes and x :: "bytes list \<times> bytes" and args :: "bytes list"
  assume d: "\<not> (d = [] \<or> hd d \<noteq> CHR ''*'')" and r: "r = dropWhile is_digit (tl d)"
    and p: "parseArgs spare (nArgs_of ds) (drop 2 r) = Some x" "(args, rest) = x"
  have "length rest \<le> length (drop 2 r)" using parseArgs_length p by metis
  also have "\<dots> \<le> length (tl d)" using length_dropWhile_le [of is_digit "tl d"] r by simp
  finally show "((spare, rest), spare, d) \<in> measure (\<lambda>(_, d). length d)" using d by (cases d) auto
qed simp

declare parseCommandEvents.simps [simp del]

datatype feed_error = FeedStore go_error | FeedGap u64 | FeedUnparseable | FeedPanic | FeedSend bytes
  | FeedTS

definition parseReplLogValue :: "nat \<Rightarrow> bytes \<Rightarrow> feed_error + bytes list" where
  "parseReplLogValue spare logValue = (case parseCommandEvents spare logValue of
      None \<Rightarrow> Inl FeedPanic
    | Some idArgs \<Rightarrow>
        if length idArgs \<noteq> 1 \<or> length (hd idArgs) < 1 then Inl FeedUnparseable
        else if length (hd idArgs) < 2 \<and> ToUpper (hd (hd idArgs)) \<notin> {''FLUSHDB'', ''FLUSHALL'', ''NOOP''}
             then Inl FeedUnparseable
             else Inr (hd idArgs))"

section \<open>Reading the feed\<close>

fun verifyFeedTSContinuity :: "ReplLogEntry list \<Rightarrow> feed_error + unit" where
  "verifyFeedTSContinuity (e # e' # es) =
     (if eTS e' \<noteq> eTS e + 1 then Inl (FeedGap (eTS e')) else verifyFeedTSContinuity (e' # es))"
| "verifyFeedTSContinuity _ = Inr ()"

fun decodeEntries :: "nat \<Rightarrow> ReplLogEntry list \<Rightarrow> feed_error + bytes list list" where
  "decodeEntries spare [] = Inr []"
| "decodeEntries spare (e # es) = (case parseReplLogValue spare (eValue e) of
      Inl er \<Rightarrow> Inl er
    | Inr args \<Rightarrow> (case decodeEntries spare es of
          Inl er \<Rightarrow> Inl er
        | Inr out \<Rightarrow> Inr (feedEntryArgs (eTS e) args # out)))"

definition ReplLogDoneTS :: "'d store \<Rightarrow> u64" where
  "ReplLogDoneTS st = doneWater (tsSrc st)"

definition FeedEntriesFrom ::
  "'t txn_ops \<Rightarrow> ('d, 't) db_ops \<Rightarrow> nat \<Rightarrow> 'd store \<Rightarrow> u64 \<Rightarrow> feed_error + bytes list list" where
  "FeedEntriesFrom B D spare st since =
     (let dn = ReplLogDoneTS st
      in case ReplLogEntriesRange B D (db st) since dn of
           Inl e \<Rightarrow> Inl (FeedStore e)
         | Inr entries \<Rightarrow> (case verifyFeedTSContinuity entries of
               Inl er \<Rightarrow> Inl er
             | Inr u \<Rightarrow> decodeEntries spare entries))"

section \<open>Sending to a replica\<close>

text \<open>A replica's connection as the master sees it. \<open>conn\<close> is the buffered connection; writing and
  flushing are parameters, since what they do is up to the network.\<close>

record 'w SlaveConnection =
  sID :: bytes
  conn :: 'w
  ReplOffset :: int
  ReplAckOffset :: int
  ReplAckTS :: u64
  feedEnabled :: bool
  feedSinceTS :: u64
  Ready :: bool

record 'w conn_ops =
  conn_write :: "'w \<Rightarrow> bytes \<Rightarrow> bytes + 'w"
  conn_flush :: "'w \<Rightarrow> bytes + 'w"

definition FeedSetEnabled :: "bool \<Rightarrow> u64 \<Rightarrow> 'w SlaveConnection \<Rightarrow> 'w SlaveConnection" where
  "FeedSetEnabled enabled sinceTS sc = sc\<lparr>feedEnabled := enabled, feedSinceTS := sinceTS\<rparr>"

definition SetReady :: "bool \<Rightarrow> 'w SlaveConnection \<Rightarrow> 'w SlaveConnection" where
  "SetReady ready sc = sc\<lparr>Ready := ready\<rparr>"

definition UpdateReplAck :: "int \<Rightarrow> 'w SlaveConnection \<Rightarrow> 'w SlaveConnection" where
  "UpdateReplAck offset sc = sc\<lparr>ReplAckOffset := offset\<rparr>"

definition UpdateReplAckTS :: "u64 \<Rightarrow> 'w SlaveConnection \<Rightarrow> 'w SlaveConnection" where
  "UpdateReplAckTS ts sc = sc\<lparr>ReplAckTS := ts\<rparr>"

definition SendCommand ::
  "'w conn_ops \<Rightarrow> bytes \<Rightarrow> int \<Rightarrow> 'w SlaveConnection \<Rightarrow> (feed_error + unit) \<times> 'w SlaveConnection" where
  "SendCommand N cmdBytes offset sc =
     (if \<not> Ready sc then (Inl (FeedSend ''slave not ready''), sc)
      else case conn_write N (conn sc) cmdBytes of
             Inl e \<Rightarrow> (Inl (FeedSend e), sc)
           | Inr w \<Rightarrow> (case conn_flush N w of
                 Inl e \<Rightarrow> (Inl (FeedSend e), sc\<lparr>conn := w\<rparr>)
               | Inr w' \<Rightarrow> (Inr (), sc\<lparr>conn := w', ReplOffset := offset\<rparr>)))"

fun sendFrames ::
  "'w conn_ops \<Rightarrow> bytes list list \<Rightarrow> 'w SlaveConnection \<Rightarrow> (feed_error + unit) \<times> 'w SlaveConnection" where
  "sendFrames N [] sc = (Inr (), sc)"
| "sendFrames N (args # rest) sc = (case SendCommand N (serializeCommand args) 0 sc of
      (Inl e, sc') \<Rightarrow> (Inl e, sc')
    | (Inr u, sc') \<Rightarrow> sendFrames N rest sc')"

definition FeedSlave ::
  "'t txn_ops \<Rightarrow> ('d, 't) db_ops \<Rightarrow> 'w conn_ops \<Rightarrow> nat \<Rightarrow> 'd store \<Rightarrow> 'w SlaveConnection
   \<Rightarrow> (feed_error + unit) \<times> 'w SlaveConnection" where
  "FeedSlave B D N spare st sc =
     (if \<not> feedEnabled sc then (Inr (), sc)
      else case FeedEntriesFrom B D spare st (feedSinceTS sc) of
             Inl e \<Rightarrow> (Inl e, sc)
           | Inr entries \<Rightarrow>
               if entries = [] then (Inr (), sc)
               else case sendFrames N entries sc of
                      (Inl e, sc') \<Rightarrow> (Inl e, sc')
                    | (Inr u, sc') \<Rightarrow>
                        (case parse_uint (last entries ! 1) of
                           None \<Rightarrow> (Inl FeedTS, sc')
                         | Some lastTS \<Rightarrow> (Inr (), FeedSetEnabled True (lastTS + 1) sc')))"

text \<open>\<^verbatim>\<open>CatchUpAndEnableSlaveTS\<close> activates the feed and sends the gap.\<close>

definition CatchUpAndEnableSlaveTS ::
  "'t txn_ops \<Rightarrow> ('d, 't) db_ops \<Rightarrow> 'w conn_ops \<Rightarrow> nat \<Rightarrow> 'd store \<Rightarrow> u64 \<Rightarrow> 'w SlaveConnection
   \<Rightarrow> (feed_error + unit) \<times> 'w SlaveConnection" where
  "CatchUpAndEnableSlaveTS B D N spare st resumeTS sc =
     FeedSlave B D N spare st (SetReady True (FeedSetEnabled True (resumeTS + 1) sc))"

text \<open>\<^verbatim>\<open>PropagateCommand\<close> pushes to every ready replica and counts the sends that failed.\<close>

fun PropagateCommand ::
  "'t txn_ops \<Rightarrow> ('d, 't) db_ops \<Rightarrow> 'w conn_ops \<Rightarrow> nat \<Rightarrow> 'd store \<Rightarrow> 'w SlaveConnection list \<Rightarrow> int
   \<Rightarrow> 'w SlaveConnection list \<times> int" where
  "PropagateCommand B D N spare st [] drops = ([], drops)"
| "PropagateCommand B D N spare st (sc # scs) drops =
     (let (sc', drops') = (if Ready sc then
              (case FeedSlave B D N spare st sc of
                 (Inl e, sc') \<Rightarrow> (sc', drops + 1) | (Inr u, sc') \<Rightarrow> (sc', drops))
            else (sc, drops));
          (scs', drops'') = PropagateCommand B D N spare st scs drops'
      in (sc' # scs', drops''))"

section \<open>PSYNC\<close>

record PSyncResult =
  FullResync :: bool
  psReplId :: bytes
  psTS :: u64

definition viewTS :: "('d, 't) db_ops \<Rightarrow> ('t, u64) tx \<Rightarrow> 'd store \<Rightarrow> u64" where
  "viewTS D m st = (case View D m st of Inl e \<Rightarrow> 0 | Inr ts \<Rightarrow> ts)"

definition fullResyncResult ::
  "'t txn_ops \<Rightarrow> ('d, 't) db_ops \<Rightarrow> 'd store \<Rightarrow> bytes \<Rightarrow> PSyncResult" where
  "fullResyncResult B D st rmReplId =
     \<lparr>FullResync = True, psReplId = rmReplId, psTS = viewTS D (ReplLogCurrentTS B) st\<rparr>"

definition HandlePSync ::
  "'t txn_ops \<Rightarrow> ('d, 't) db_ops \<Rightarrow> 'd store \<Rightarrow> bytes \<Rightarrow> bytes \<Rightarrow> u64 \<Rightarrow> PSyncResult" where
  "HandlePSync B D st currentReplId replId ts =
     (if ts = 0 \<or> replId \<noteq> currentReplId then fullResyncResult B D st currentReplId
      else let logStartTS = viewTS D (ReplLogStartTS B) st;
               currentTS = viewTS D (ReplLogCurrentTS B) st
           in if ts \<ge> logStartTS \<and> ts \<le> currentTS
              then \<lparr>FullResync = False, psReplId = currentReplId, psTS = ts\<rparr>
              else fullResyncResult B D st currentReplId)"

text \<open>The lines the server's PSYNC handler writes (\<^verbatim>\<open>internal/server/replication_handler.go\<close>), and the
  two helpers of \<^verbatim>\<open>psync.go\<close> meant for the same purpose.\<close>

definition fullResyncLine :: "bytes \<Rightarrow> u64 \<Rightarrow> bytes" where
  "fullResyncLine replId ts = ''+FULLRESYNC '' @ replId @ '' 0 '' @ utoa (unat ts) @ crlf"

definition continueLine :: "bytes \<Rightarrow> bytes" where
  "continueLine replId = ''+CONTINUE '' @ replId @ crlf"

definition SendFullResync :: "bytes \<Rightarrow> u64 \<Rightarrow> unit resp" where
  "SendFullResync replId ts = SimpleString (TrimSpace (fullResyncLine replId ts))"

definition SendContinueResync :: "bytes \<Rightarrow> unit resp" where
  "SendContinueResync replId = SimpleString (TrimSpace (continueLine replId))"

section \<open>Decoding what was encoded\<close>

definition no_crlf :: "bytes \<Rightarrow> bool" where
  "no_crlf a \<longleftrightarrow> \<not> sublist crlf a"

lemma no_crlf_Cons: "no_crlf (c # a) \<Longrightarrow> no_crlf a" "no_crlf (CR # LF # a) \<Longrightarrow> False"
  by (auto simp: no_crlf_def sublist_Cons_right)

lemma no_crlf_eval:
  "no_crlf []" "no_crlf (c # a) \<longleftrightarrow> \<not> (c = CR \<and> a \<noteq> [] \<and> hd a = LF) \<and> no_crlf a"
  by (cases a; auto simp: no_crlf_def sublist_Cons_right)+

lemma argSplit_crlf: "no_crlf a \<Longrightarrow> argSplit (a @ crlf @ r) = (a, crlf @ r)"
proof (induction a)
  case (Cons c a)
  have "\<not> (c = CR \<and> a @ crlf @ r \<noteq> [] \<and> hd (a @ crlf @ r) = LF)"
    using no_crlf_Cons(2) Cons.prems by (cases a) auto
  then show ?case using Cons no_crlf_Cons(1) by auto
qed simp

definition enc_arg :: "bytes \<Rightarrow> bytes" where
  "enc_arg a = ''$'' @ utoa (length a) @ crlf @ a @ crlf"

lemma dropWhile_utoa: "dropWhile (\<lambda>c. c \<noteq> CR) (utoa n @ CR # r) = CR # r"
  by (subst dropWhile_append2) auto

lemma parseArgs_encoded:
  assumes "list_all no_crlf args"
  shows "parseArgs spare (int (length args)) (concat (map enc_arg args) @ rest) = Some (args, rest)"
  using assms
proof (induction args)
  case Nil
  then show ?case by (subst parseArgs.simps) simp
next
  case (Cons a args)
  have "parseArgs spare (int (length (a # args)) - 1) (concat (map enc_arg args) @ rest) = Some (args, rest)"
    using Cons by simp
  then show ?case
    using Cons.prems argSplit_crlf [of a "concat (map enc_arg args) @ rest"]
    by (subst parseArgs.simps) (simp add: enc_arg_def dropWhile_utoa)
qed

lemma takeWhile_digits_utoa:
  "takeWhile is_digit (utoa n @ CR # r) = utoa n" "dropWhile is_digit (utoa n @ CR # r) = CR # r"
  using utoa_set [of _ n] is_digit_neq(3) by (auto simp: takeWhile_append2 dropWhile_append2)

lemma nArgs_of_utoa: "n < 2 ^ 63 \<Longrightarrow> nArgs_of (utoa n) = int n"
proof -
  assume "n < 2 ^ 63"
  then have "int n < 2 ^ 63" using of_nat_less_iff [of n "2 ^ 63", where 'a = int] by simp
  moreover have "sint (word_of_nat n :: u64) = signed_take_bit 63 (int n)"
    using sint_sbintrunc' [where 'a = 64, of "int n"] by simp
  ultimately show ?thesis
    by (simp add: nArgs_of_def digits_val_utoa signed_take_bit_int_eq_self)
qed

definition cmd_wf :: "bytes list \<Rightarrow> bool" where
  "cmd_wf args \<longleftrightarrow> args \<noteq> [] \<and> length args < 2 ^ 63 \<and> list_all no_crlf args"

lemma encodePropagateCommand_enc:
  "encodePropagateCommand args = ''*'' @ utoa (length args) @ crlf @ concat (map enc_arg args)"
  by (simp add: encodePropagateCommand_def enc_arg_def [abs_def])

lemma serializeCommand_eq: "serializeCommand = encodePropagateCommand"
  by (simp add: fun_eq_iff encodePropagateCommand_def serializeCommand_def)

lemma parseCommandEvents_Cons:
  assumes "cmd_wf args"
  shows "parseCommandEvents spare (encodePropagateCommand args @ rest) =
    map_option ((#) args) (parseCommandEvents spare rest)"
  using assms parseArgs_encoded [of args spare rest]
  by (subst parseCommandEvents.simps)
    (auto simp: encodePropagateCommand_enc takeWhile_digits_utoa nArgs_of_utoa cmd_wf_def Let_def Suc_le_eq
      split: option.splits)

text \<open>\<^verbatim>\<open>parseCommandEvents\<close> inverts the encoding of a sequence of commands whose arguments contain no CR LF.\<close>

lemma parseCommandEvents_encoded:
  "list_all cmd_wf cmds \<Longrightarrow> parseCommandEvents spare (concat (map encodePropagateCommand cmds)) = Some cmds"
proof (induction cmds)
  case Nil
  then show ?case by (simp add: parseCommandEvents.simps)
next
  case (Cons c cmds)
  then show ?case by (simp add: parseCommandEvents_Cons)
qed

definition replayable :: "bytes list \<Rightarrow> bool" where
  "replayable args \<longleftrightarrow> cmd_wf args \<and>
     (length args \<ge> 2 \<or> ToUpper (hd args) \<in> {''FLUSHDB'', ''FLUSHALL'', ''NOOP''})"

lemma parseReplLogValue_encoded:
  "replayable args \<Longrightarrow> parseReplLogValue spare (encodePropagateCommand args) = Inr args"
  using parseCommandEvents_encoded [of "[args]" spare]
  by (auto simp: parseReplLogValue_def replayable_def cmd_wf_def Suc_le_eq not_less)

section \<open>The feed of a dense log\<close>

definition ts_range :: "u64 \<Rightarrow> u64 \<Rightarrow> u64 list" where
  "ts_range a b = map word_of_nat [unat a..<Suc (unat b)]"

lemma unat_word_of_nat_le: "n \<le> unat (b :: u64) \<Longrightarrow> unat (word_of_nat n :: u64) = n"
proof -
  assume "n \<le> unat b"
  also have "unat b < 2 ^ 64" using unsigned_less [of b] by simp
  finally show ?thesis by (simp add: unat_of_nat take_bit_nat_eq_self)
qed

lemma set_ts_range: "set (ts_range a b) = {ts. a \<le> ts \<and> ts \<le> b}"
proof (intro set_eqI iffI)
  fix ts :: u64
  assume "ts \<in> set (ts_range a b)"
  then obtain n where "ts = word_of_nat n" "unat a \<le> n" "n \<le> unat b"
    by (force simp: ts_range_def)
  then show "ts \<in> {ts. a \<le> ts \<and> ts \<le> b}" by (simp add: word_le_nat_alt unat_word_of_nat_le)
next
  fix ts :: u64
  assume "ts \<in> {ts. a \<le> ts \<and> ts \<le> b}"
  then have "ts = word_of_nat (unat ts)" "unat ts \<in> {unat a..<Suc (unat b)}"
    by (auto simp: word_le_nat_alt)
  then show "ts \<in> set (ts_range a b)" unfolding ts_range_def set_map set_upt by (rule image_eqI)
qed

lemma sorted_ts_range: "sorted (ts_range a b)" "distinct (ts_range a b)"
proof -
  have "sorted_wrt (<) [unat a..<Suc (unat b)]" by (rule sorted_wrt_upt)
  then have "sorted_wrt (\<lambda>x y. (word_of_nat x :: u64) < word_of_nat y) [unat a..<Suc (unat b)]"
  proof (rule sorted_wrt_mono_rel [rotated])
    fix x y
    assume "x \<in> set [unat a..<Suc (unat b)]" "y \<in> set [unat a..<Suc (unat b)]" "x < y"
    then have "x \<le> unat b" "y \<le> unat b" by auto
    with \<open>x < y\<close> show "(word_of_nat x :: u64) < word_of_nat y"
      using unat_word_of_nat_le [of x b] unat_word_of_nat_le [of y b] by (simp add: word_less_nat_alt)
  qed
  then have "sorted_wrt (<) (ts_range a b)" by (simp add: ts_range_def sorted_wrt_map)
  then show "sorted (ts_range a b)" "distinct (ts_range a b)"
    by (simp_all add: strict_sorted_iff)
qed

lemma sorted_list_of_ts_interval: "sorted_list_of_set {ts. a \<le> ts \<and> ts \<le> b} = ts_range a b"
  by (rule sorted_distinct_set_unique) (use set_ts_range [of a b] sorted_ts_range in auto)

lemma verify_range:
  assumes "\<And>k. eTS (f (Suc k)) = eTS (f k) + 1"
  shows "verifyFeedTSContinuity (map f [m..<n]) = Inr ()"
proof (induction "n - m" arbitrary: m)
  case 0
  then show ?case by simp
next
  case (Suc d)
  then have m: "m < n" and IH: "verifyFeedTSContinuity (map f [Suc m..<n]) = Inr ()" by auto
  show ?case
  proof (cases "Suc m < n")
    case True
    then have "[m..<n] = m # Suc m # [Suc (Suc m)..<n]" "[Suc m..<n] = Suc m # [Suc (Suc m)..<n]"
      using m by (simp_all add: upt_conv_Cons)
    with IH assms show ?thesis by simp
  next
    case False
    with m have "[m..<n] = [m]" by (simp add: upt_conv_Cons)
    then show ?thesis by simp
  qed
qed

text \<open>The log between two timestamps, as the commit protocol leaves it: a frame for every timestamp,
  each the encoding of a replayable command.\<close>

definition feedable :: "(bytes \<rightharpoonup> item) \<Rightarrow> (u64 \<Rightarrow> bytes list) \<Rightarrow> u64 \<Rightarrow> u64 \<Rightarrow> bool" where
  "feedable m cmd a b \<longleftrightarrow> (\<forall>ts. a \<le> ts \<and> ts \<le> b \<longrightarrow>
     replayable (cmd ts) \<and> map_option ival (m (replLogKey ts)) = Some (encodePropagateCommand (cmd ts)))"

lemma feedable_log_ts:
  "feedable m cmd a b \<Longrightarrow> {ts \<in> log_ts m. a \<le> ts \<and> ts \<le> b} = {ts. a \<le> ts \<and> ts \<le> b}"
  by (force simp: feedable_def log_ts_def domIff)

lemma decodeEntries_feedable:
  "(\<And>ts. ts \<in> set tss \<Longrightarrow> replayable (cmd ts) \<and> eValue (f ts) = encodePropagateCommand (cmd ts) \<and> eTS (f ts) = ts) \<Longrightarrow>
   decodeEntries spare (map f tss) = Inr (map (\<lambda>ts. feedEntryArgs ts (cmd ts)) tss)"
  by (induction tss) (simp_all add: parseReplLogValue_encoded)

context badger_db
begin

lemma FeedEntriesFrom_run:
  assumes "log_wf (snap (db st) (ReplLogDoneTS st))"
    and feed: "feedable (snap (db st) (ReplLogDoneTS st)) cmd since (ReplLogDoneTS st)"
  shows "FeedEntriesFrom B D spare st since =
    Inr (map (\<lambda>ts. feedEntryArgs ts (cmd ts)) (ts_range since (ReplLogDoneTS st)))"
proof -
  let ?dn = "ReplLogDoneTS st" and ?m = "snap (db st) (ReplLogDoneTS st)"
  have entries: "ReplLogEntriesRange B D (db st) since ?dn =
      Inr (map (log_entry ?m) (ts_range since ?dn))"
    using ReplLogEntriesRange_run [OF assms(1)] feedable_log_ts [OF feed]
    by (simp add: sorted_list_of_ts_interval)
  have "verifyFeedTSContinuity (map (log_entry ?m) (ts_range since ?dn)) = Inr ()"
    unfolding ts_range_def map_map
    by (rule verify_range) (simp add: log_entry_def comp_def)
  moreover have "decodeEntries spare (map (log_entry ?m) (ts_range since ?dn)) =
      Inr (map (\<lambda>ts. feedEntryArgs ts (cmd ts)) (ts_range since ?dn))"
  proof (rule decodeEntries_feedable)
    fix ts
    assume "ts \<in> set (ts_range since ?dn)"
    then have "since \<le> ts" "ts \<le> ?dn" by (simp_all add: set_ts_range)
    then show "replayable (cmd ts) \<and> eValue (log_entry ?m ts) = encodePropagateCommand (cmd ts)
        \<and> eTS (log_entry ?m ts) = ts"
      using feed by (auto simp: feedable_def log_entry_def)
  qed
  ultimately show ?thesis by (simp add: FeedEntriesFrom_def Let_def entries)
qed

end

section \<open>A connection that keeps what it is sent\<close>

definition buf_ops :: "bytes conn_ops" where
  "buf_ops = \<lparr>conn_write = (\<lambda>w b. Inr (w @ b)), conn_flush = Inr\<rparr>"

lemma sendFrames_buf:
  "Ready sc \<Longrightarrow> sendFrames buf_ops frames sc =
     (Inr (), sc\<lparr>conn := conn sc @ concat (map serializeCommand frames),
                 ReplOffset := (if frames = [] then ReplOffset sc else 0)\<rparr>)"
proof (induction frames arbitrary: sc)
  case (Cons f fs)
  then show ?case by (simp add: SendCommand_def buf_ops_def)
qed simp

lemma ts_range_last: "a \<le> b \<Longrightarrow> ts_range a b \<noteq> [] \<and> last (ts_range a b) = b"
  by (simp add: ts_range_def word_le_nat_alt)

lemma ts_range_empty: "b < a \<Longrightarrow> ts_range a b = []"
  by (simp add: ts_range_def word_less_nat_alt)

definition frame :: "(u64 \<Rightarrow> bytes list) \<Rightarrow> u64 \<Rightarrow> bytes" where
  "frame cmd ts = serializeCommand (feedEntryArgs ts (cmd ts))"

context badger_db
begin

text \<open>One call of \<^verbatim>\<open>FeedSlave\<close> sends the frames from the cursor to the watermark and moves the cursor
  past the watermark.\<close>

lemma FeedSlave_run:
  assumes "log_wf (snap (db st) (ReplLogDoneTS st))"
    and "feedable (snap (db st) (ReplLogDoneTS st)) cmd (feedSinceTS sc) (ReplLogDoneTS st)"
    and "Ready sc" "feedEnabled sc"
  shows "\<exists>sc'. FeedSlave B D buf_ops spare st sc = (Inr (), sc')
    \<and> conn sc' = conn sc @ concat (map (frame cmd) (ts_range (feedSinceTS sc) (ReplLogDoneTS st)))
    \<and> feedSinceTS sc' = (if feedSinceTS sc \<le> ReplLogDoneTS st then ReplLogDoneTS st + 1 else feedSinceTS sc)
    \<and> Ready sc' \<and> feedEnabled sc'"
proof -
  let ?dn = "ReplLogDoneTS st" and ?a = "feedSinceTS sc"
  note fe = FeedEntriesFrom_run [OF assms(1,2)]
  show ?thesis
  proof (cases "?a \<le> ?dn")
    case True
    have "last (map (\<lambda>ts. feedEntryArgs ts (cmd ts)) (ts_range ?a ?dn)) = feedEntryArgs ?dn (cmd ?dn)"
      using ts_range_last [OF True] by (simp add: last_map)
    then show ?thesis
      using True assms(3,4) ts_range_last [OF True]
      by (simp add: FeedSlave_def fe sendFrames_buf FeedSetEnabled_def feedEntryArgs_def frame_def [abs_def] comp_def)
  next
    case False
    then have "ts_range ?a ?dn = []" using ts_range_empty [of ?dn ?a] by simp
    then show ?thesis using False assms(3,4) by (simp add: FeedSlave_def fe)
  qed
qed

end

section \<open>Feeding again and again\<close>

text \<open>The calls of \<^verbatim>\<open>FeedSlave\<close> for one replica, serialised by \<^verbatim>\<open>feedMu\<close>, each on the master's state of
  its time.\<close>

fun feedAll ::
  "'t txn_ops \<Rightarrow> ('d, 't) db_ops \<Rightarrow> 'w conn_ops \<Rightarrow> nat \<Rightarrow> 'd store list \<Rightarrow> 'w SlaveConnection
   \<Rightarrow> (feed_error + unit) \<times> 'w SlaveConnection" where
  "feedAll B D N spare [] sc = (Inr (), sc)"
| "feedAll B D N spare (st # sts) sc = (case FeedSlave B D N spare st sc of
      (Inl e, sc') \<Rightarrow> (Inl e, sc')
    | (Inr u, sc') \<Rightarrow> feedAll B D N spare sts sc')"

lemma ts_range_append:
  assumes "a \<le> b" "b \<le> c" "b < MaxUint64"
  shows "ts_range a b @ ts_range (b + 1) c = ts_range a c"
proof -
  have "unat (b + 1) = Suc (unat b)" using unat_inc [OF assms(3)] .
  moreover have "[unat a..<Suc (unat b)] @ [Suc (unat b)..<Suc (unat c)] = [unat a..<Suc (unat c)]"
    using assms(1,2) upt_add_eq_append [of "unat a" "Suc (unat b)" "unat c - unat b"]
    by (simp add: word_le_nat_alt del: upt_Suc)
  ultimately show ?thesis by (simp add: ts_range_def flip: map_append)
qed

context badger_db
begin

lemma feedAll_run:
  assumes "\<And>st. st \<in> set sts \<Longrightarrow> log_wf (snap (db st) (ReplLogDoneTS st))
      \<and> feedable (snap (db st) (ReplLogDoneTS st)) cmd since (ReplLogDoneTS st)
      \<and> ReplLogDoneTS st < MaxUint64"
    and "sorted (map ReplLogDoneTS sts)" "sts \<noteq> []"
    and "Ready sc" "feedEnabled sc" "since \<le> feedSinceTS sc"
  shows "\<exists>sc'. feedAll B D buf_ops spare sts sc = (Inr (), sc')
    \<and> conn sc' = conn sc @ concat (map (frame cmd) (ts_range (feedSinceTS sc) (ReplLogDoneTS (last sts))))"
  using assms
proof (induction sts arbitrary: sc)
  case (Cons st sts)
  let ?dn = "ReplLogDoneTS st" and ?a = "feedSinceTS sc" and ?hi = "ReplLogDoneTS (last (st # sts))"
  have fd: "feedable (snap (db st) ?dn) cmd ?a ?dn"
    using Cons.prems(1) [of st] Cons.prems(6) by (auto simp: feedable_def)
  obtain sc1 where sc1: "FeedSlave B D buf_ops spare st sc = (Inr (), sc1)"
    "conn sc1 = conn sc @ concat (map (frame cmd) (ts_range ?a ?dn))"
    "feedSinceTS sc1 = (if ?a \<le> ?dn then ?dn + 1 else ?a)" "Ready sc1" "feedEnabled sc1"
    using FeedSlave_run [OF _ fd Cons.prems(4,5)] Cons.prems(1) [of st] by auto
  have lt: "?dn < MaxUint64" using Cons.prems(1) [of st] by simp
  have le: "?dn \<le> ?hi" using Cons.prems(2) by (cases sts) auto
  have split: "ts_range ?a ?hi = ts_range ?a ?dn @ ts_range (feedSinceTS sc1) ?hi"
    using sc1(3) ts_range_append [OF _ le lt, of ?a] ts_range_empty [of ?dn ?a] by auto
  show ?case
  proof (cases "sts = []")
    case True
    then show ?thesis using sc1 by simp
  next
    case False
    have "since \<le> feedSinceTS sc1"
      using sc1(3) Cons.prems(6) inc_u64(1) [OF lt] by (auto dest: order.trans)
    with Cons.IH [of sc1] Cons.prems False sc1(4,5) obtain sc' where
      "feedAll B D buf_ops spare sts sc1 = (Inr (), sc')"
      "conn sc' = conn sc1 @ concat (map (frame cmd) (ts_range (feedSinceTS sc1) (ReplLogDoneTS (last sts))))"
      by auto
    then show ?thesis using sc1 split False by simp
  qed
qed simp

end

context badger_db
begin

lemma viewTS_log:
  assumes "log_wf (snap (db st) MaxUint64)"
  shows "viewTS D (ReplLogStartTS B) st =
      (if log_ts (snap (db st) MaxUint64) = {} then 0 else Min (log_ts (snap (db st) MaxUint64)))"
    and "viewTS D (ReplLogCurrentTS B) st =
      (if log_ts (snap (db st) MaxUint64) = {} then 0 else Max (log_ts (snap (db st) MaxUint64)))"
  using assms ReplLogStartTS_run [of "newTransactionAt D (db st) MaxUint64"]
    ReplLogCurrentTS_run [of "newTransactionAt D (db st) MaxUint64"]
  by (simp_all add: viewTS_def View_def new_view)

lemma HandlePSync_run:
  assumes "log_wf (snap (db st) MaxUint64)"
  defines "L \<equiv> log_ts (snap (db st) MaxUint64)"
  shows "HandlePSync B D st cur replId ts =
    (if ts \<noteq> 0 \<and> replId = cur \<and> L \<noteq> {} \<and> Min L \<le> ts \<and> ts \<le> Max L
     then \<lparr>FullResync = False, psReplId = cur, psTS = ts\<rparr>
     else \<lparr>FullResync = True, psReplId = cur, psTS = (if L = {} then 0 else Max L)\<rparr>)"
  using viewTS_log [OF assms(1)] word_le_0_iff [of ts]
  by (auto simp: HandlePSync_def fullResyncResult_def Let_def L_def)

end

section \<open>Properties\<close>


lemma sample_db_all:
  "kv_snap sample_db MaxUint64 =
     [replLogKey 2 \<mapsto> \<lparr>ival = encodePropagateCommand [''DEL'', ''k''], iexp = 0\<rparr>,
      replLogKey 3 \<mapsto> \<lparr>ival = noopLogValue, iexp = 0\<rparr>]"
  by (auto simp: kv_snap_def kv_snap_list_def sample_db_def fun_eq_iff split: option.splits)

definition fed_store :: "u64 \<Rightarrow> kv_db store" where
  "fed_store dn = (store0 sample_db)\<lparr>tsSrc := newTSSource\<lparr>ts_done := dn\<rparr>\<rparr>"

definition fed_conn :: "bytes SlaveConnection" where
  "fed_conn = \<lparr>sID = ''s'', conn = [], ReplOffset = 0, ReplAckOffset = 0, ReplAckTS = 0,
     feedEnabled = True, feedSinceTS = 2, Ready = True\<rparr>"


text \<open>C9 \<^verbatim>\<open>HandlePSync\<close> grants a partial resynchronisation exactly when the replica names this master's
  replication id and a nonzero timestamp between the first and the last log record; every other
  request gets a full resynchronisation at the last record.\<close>

theorem HandlePSync_decides:
  assumes "badger_db B view upd now D snap pend" "log_wf (snap (db st) MaxUint64)"
    and "L = log_ts (snap (db st) MaxUint64)"
  shows "HandlePSync B D st cur replId ts =
    (if ts \<noteq> 0 \<and> replId = cur \<and> L \<noteq> {} \<and> Min L \<le> ts \<and> ts \<le> Max L
     then \<lparr>FullResync = False, psReplId = cur, psTS = ts\<rparr>
     else \<lparr>FullResync = True, psReplId = cur, psTS = (if L = {} then 0 else Max L)\<rparr>)"
  using badger_db.HandlePSync_run [OF assms(1,2)] unfolding assms(3) .

theorem HandlePSync_decides_witness:
  "HandlePSync kv_ops kv_db_ops (store0 sample_db) ''id'' ''id'' 2 =
     \<lparr>FullResync = False, psReplId = ''id'', psTS = 2\<rparr> \<and>
   HandlePSync kv_ops kv_db_ops (store0 sample_db) ''id'' ''id'' 5 =
     \<lparr>FullResync = True, psReplId = ''id'', psTS = 3\<rparr>"
proof -
  let ?st = "store0 sample_db"
  have wf: "log_wf (kv_snap (db ?st) MaxUint64)" and L: "{2, 3} = log_ts (kv_snap (db ?st) MaxUint64)"
    by (auto simp: store0_def sample_db_all log_wf_def log_ts_def split: if_splits)
  show ?thesis
    using HandlePSync_decides [OF kvd.badger_db_axioms wf L, of "''id''" "''id''"] by simp
qed

text \<open>C19 Decoding the log inverts encoding it: \<^verbatim>\<open>parseCommandEvents\<close> gives back every sequence of commands
  whose arguments contain no CR LF, from the bytes \<^verbatim>\<open>serializeCommand\<close> writes for them.\<close>

theorem parseCommandEvents_inverse:
  assumes "list_all cmd_wf cmds"
  shows "parseCommandEvents spare (concat (map serializeCommand cmds)) = Some cmds"
  using parseCommandEvents_encoded [OF assms] by (simp add: serializeCommand_eq)

theorem parseCommandEvents_inverse_witness:
  "parseCommandEvents 0 (concat (map serializeCommand [[''SET'', ''k'', [CR, CHR ''v'']], [''DEL'', ''k'']])) =
     Some [[''SET'', ''k'', [CR, CHR ''v'']], [''DEL'', ''k'']]"
  by (rule parseCommandEvents_inverse) (simp add: cmd_wf_def no_crlf_eval)

text \<open>The replica reads back the frame it is sent: \<^verbatim>\<open>feedEntryParse\<close> inverts \<^verbatim>\<open>feedEntryArgs\<close> for every
  command that is not empty.\<close>

theorem feedEntryParse_inverse:
  assumes "command \<noteq> []"
  shows "feedEntryParse (map Some (feedEntryArgs ts command)) = Inr (ts, command)"
  using assms by (cases command) (auto simp: feedEntryParse_def feedEntryArgs_def str_def comp_def)

theorem feedEntryParse_inverse_witness:
  "feedEntryParse (map Some (feedEntryArgs 7 [''DEL'', ''k''])) = Inr (7, [''DEL'', ''k''])"
  by (rule feedEntryParse_inverse) simp

section \<open>Deviations\<close>

text \<open>A bulk argument with a CR LF in it is cut there by the decoder, which ignores the announced
  lengths: the feed then hands the replica another command than the one the master ran.\<close>

theorem crlf_argument_truncated:
  assumes "no_crlf a"
  shows "parseReplLogValue spare (encodePropagateCommand [''SET'', ''k'', a @ crlf @ ''x'']) =
    Inr [''SET'', ''k'', a]"
proof -
  let ?n = "length (a @ crlf @ ''x'')"
  let ?v = "''$'' @ utoa ?n @ crlf @ a @ crlf @ ''x'' @ crlf"
  have "argSplit (a @ crlf @ ''x'' @ crlf) = (a, crlf @ ''x'' @ crlf)" by (rule argSplit_crlf [OF assms])
  then have "parseArgs spare 1 ?v = Some ([a], ''x'' @ crlf)"
    by (subst parseArgs.simps) (simp add: dropWhile_utoa parseArgs.simps [of spare 0])
  then have "parseArgs spare 3 (enc_arg ''SET'' @ enc_arg ''k'' @ ?v) = Some ([''SET'', ''k'', a], ''x'' @ crlf)"
    using argSplit_crlf [of "''SET''" "enc_arg ''k'' @ ?v"] argSplit_crlf [of "''k''" ?v]
    by (simp add: parseArgs.simps [of spare 3] parseArgs.simps [of spare 2] enc_arg_def no_crlf_eval dropWhile_utoa
        del: argSplit.simps)
  moreover have "encodePropagateCommand [''SET'', ''k'', a @ crlf @ ''x''] =
      ''*'' @ utoa 3 @ crlf @ enc_arg ''SET'' @ enc_arg ''k'' @ ?v"
    by (simp add: encodePropagateCommand_enc enc_arg_def del: utoa.simps)
  ultimately have "parseCommandEvents spare (encodePropagateCommand [''SET'', ''k'', a @ crlf @ ''x'']) =
      Some [[''SET'', ''k'', a]]"
    by (subst parseCommandEvents.simps)
      (simp add: takeWhile_digits_utoa nArgs_of_utoa parseCommandEvents.simps [of spare "CHR ''x'' # crlf"])
  then show ?thesis by (simp add: parseReplLogValue_def)
qed

text \<open>After a restart the feed is silent until the first new command completes: \<^verbatim>\<open>Init\<close> leaves the
  completion watermark at 0, so no logged entry is handed to a replica that catches up.\<close>

theorem restart_feed_empty:
  assumes "badger_db B view upd now D snap pend" "since \<noteq> 0" "tsSrc st = tsInit mv newTSSource"
  shows "FeedEntriesFrom B D spare st since = Inr []"
  using assms by (simp add: FeedEntriesFrom_def ReplLogDoneTS_def ReplLogEntriesRange_def doneWater_def tsInit_def
      newTSSource_def word_gt_0)

text \<open>The helper \<^verbatim>\<open>SendFullResync\<close> puts the line with its leading plus sign into a simple string, which
  is written with another plus sign in front.\<close>

theorem SendFullResync_double_plus:
  "resp_String (\<lambda>_. []) (SendFullResync ''id'' 7) = Some (''++FULLRESYNC id 0 7'' @ crlf)"
  by code_simp

end
