(* ===== verification/Keyspace.thy ===== *)
theory Keyspace
  imports Commit
begin

text \<open>
  The key space of the store: how logical keys and their parts become Badger keys (\<^verbatim>\<open>define.go\<close>,
  \<^verbatim>\<open>list_types.go\<close>, \<^verbatim>\<open>hash.go\<close>, \<^verbatim>\<open>set.go\<close>, \<^verbatim>\<open>zset_types.go\<close> and the other type files), the type record
  every logical key has, and the commands that work on keys of any type: \<^verbatim>\<open>del.go\<close> and \<^verbatim>\<open>base.go\<close>. A
  logical key \<open>k\<close> of type \<open>T\<close> owns the record \<open>TYPE_k\<close> and the records under its data prefix; a
  transaction body changes no other record. The locks of \<^verbatim>\<open>keyLockMgr\<close> only order the operations; the
  error injector is nil outside the tests and is left out.
\<close>

section \<open>Type names and keys\<close>

abbreviation "KeyTypeString \<equiv> ''STRING''"
abbreviation "KeyTypeList \<equiv> ''LIST''"
abbreviation "KeyTypeHash \<equiv> ''HASH''"
abbreviation "KeyTypeSet \<equiv> ''SET''"
abbreviation "KeyTypeJSON \<equiv> ''JSON''"
abbreviation "KeyTypeTimeSeries \<equiv> ''TIMESERIES''"
abbreviation "KeyTypeStream \<equiv> ''STREAM''"
abbreviation "KeyTypeHyperLogLog \<equiv> ''hyperloglog''"
abbreviation "KeyTypeSortedSet \<equiv> ''zset''"
abbreviation "KeyTypeGeo \<equiv> ''GEOHASH''"

abbreviation "prefixKeyTypeBytes \<equiv> ''TYPE_''"

definition TypeOfKeyGet :: "bytes \<Rightarrow> bytes" where
  "TypeOfKeyGet strKey = prefixKeyTypeBytes @ strKey"

text \<open>\<^verbatim>\<open>strings.Join\<close>\<close>

fun Join :: "bytes list \<Rightarrow> bytes \<Rightarrow> bytes" where
  "Join [] sep = []"
| "Join [x] sep = x"
| "Join (x # y # xs) sep = x @ sep @ Join (y # xs) sep"

definition stringKey :: "bytes \<Rightarrow> bytes" where
  "stringKey key = KeyTypeString @ '':'' @ key"

definition listKey :: "bytes \<Rightarrow> bytes list \<Rightarrow> bytes" where
  "listKey key parts = KeyTypeList @ '':'' @ key @ '':'' @ Join parts '':''"

definition hashKey :: "bytes \<Rightarrow> bytes \<Rightarrow> bytes" where
  "hashKey key field = KeyTypeHash @ '':'' @ key @ '':'' @ field"

definition hashCountKey :: "bytes \<Rightarrow> bytes" where
  "hashCountKey key = KeyTypeHash @ '':'' @ key @ '':__count__''"

definition setKey :: "bytes \<Rightarrow> bytes list \<Rightarrow> bytes" where
  "setKey key parts = Join (KeyTypeSet # key # parts) '':''"

definition sortedSetKeyMeta :: "bytes \<Rightarrow> bytes" where
  "sortedSetKeyMeta zSetName = ''zset:'' @ zSetName @ '':meta''"

definition jsonKey :: "bytes \<Rightarrow> bytes" where
  "jsonKey key = ''JSON:'' @ key"

definition tsMetaKey :: "bytes \<Rightarrow> bytes" where
  "tsMetaKey key = ''TS:'' @ key @ '':meta''"

definition streamKey :: "bytes \<Rightarrow> bytes" where
  "streamKey key = ''stream:'' @ key @ '':meta''"

definition geoKey :: "bytes \<Rightarrow> bytes" where
  "geoKey key = ''geo:'' @ key @ '':meta''"

definition hllKey :: "bytes \<Rightarrow> bytes" where
  "hllKey key = ''hll:'' @ key"

definition typeNames :: "bytes list" where
  "typeNames = [KeyTypeString, KeyTypeList, KeyTypeHash, KeyTypeSet, KeyTypeSortedSet, KeyTypeJSON,
     KeyTypeTimeSeries, KeyTypeStream, KeyTypeHyperLogLog, KeyTypeGeo]"

definition getKeyValueKey :: "bytes \<Rightarrow> bytes \<Rightarrow> go_error + bytes" where
  "getKeyValueKey key keyType =
     (if keyType = KeyTypeString then Inr (stringKey key)
      else if keyType = KeyTypeList then Inr (listKey key [''length''])
      else if keyType = KeyTypeHash then Inr (hashCountKey key)
      else if keyType = KeyTypeSet then Inr (setKey key [''count''])
      else if keyType = KeyTypeSortedSet then Inr (sortedSetKeyMeta key)
      else if keyType = KeyTypeJSON then Inr (jsonKey key)
      else if keyType = KeyTypeTimeSeries then Inr (tsMetaKey key)
      else if keyType = KeyTypeStream then Inr (streamKey key)
      else if keyType = KeyTypeGeo then Inr (geoKey key)
      else if keyType = KeyTypeHyperLogLog then Inr (hllKey key)
      else Inl (Errorf (''unknown key type: '' @ keyType)))"

section \<open>The state around the engine\<close>

text \<open>\<open>core\<close> is the part of \<^verbatim>\<open>BotreonStore\<close> the write path works on; the rest are the caches that
  commands keep beside it. Scores are kept as the bits of their \<^verbatim>\<open>float64\<close>.\<close>

record zsetRankCache =
  dirty :: bool
  cmembers :: "bytes \<rightharpoonup> int"
  cscores :: "bytes \<rightharpoonup> u64"

record 'd bolt =
  core :: "'d store"
  zsetRankCaches :: "bytes \<rightharpoonup> zsetRankCache"
  scanBookmarks :: "u64 \<rightharpoonup> bytes"
  scanBookmarkSeq :: u64

definition markZSetDirty :: "bytes \<Rightarrow> 'd bolt \<Rightarrow> 'd bolt" where
  "markZSetDirty zsetName s = (case zsetRankCaches s zsetName of
      None \<Rightarrow> s
    | Some c \<Rightarrow> s\<lparr>zsetRankCaches := (zsetRankCaches s)(zsetName \<mapsto> c\<lparr>dirty := True\<rparr>)\<rparr>)"

definition clearAllZSetRankCaches :: "'d bolt \<Rightarrow> 'd bolt" where
  "clearAllZSetRankCaches s = s\<lparr>zsetRankCaches := Map.empty\<rparr>"

section \<open>DEL\<close>

definition deleteByPrefix :: "'t txn_ops \<Rightarrow> bytes \<Rightarrow> ('t, unit) tx" where
  "deleteByPrefix B p = bnd (iterPrefix B False p p) (forEach (\<lambda>(k, i). Delete B k))"

definition delByType :: "'t txn_ops \<Rightarrow> bytes \<Rightarrow> bytes \<Rightarrow> ('t, unit) tx" where
  "delByType B key keyType =
     (if keyType = KeyTypeString then andThen (Delete B (TypeOfKeyGet key)) (Delete B (stringKey key))
      else andThen
       (if keyType = KeyTypeList then deleteByPrefix B (KeyTypeList @ '':'' @ key @ '':'')
        else if keyType = KeyTypeHash then deleteByPrefix B (KeyTypeHash @ '':'' @ key @ '':'')
        else if keyType = KeyTypeSet then deleteByPrefix B (KeyTypeSet @ '':'' @ key @ '':'')
        else if keyType = KeyTypeSortedSet then deleteByPrefix B (''zset:'' @ key @ '':'')
        else if keyType = KeyTypeJSON then Delete B (jsonKey key)
        else if keyType = KeyTypeTimeSeries then deleteByPrefix B (''TS:'' @ key @ '':'')
        else if keyType = KeyTypeStream then deleteByPrefix B (''stream:'' @ key @ '':'')
        else if keyType = KeyTypeHyperLogLog then Delete B (hllKey key)
        else if keyType = KeyTypeGeo then
          andThen (deleteByPrefix B (''geo:'' @ key @ '':'')) (deleteByPrefix B (''zset:'' @ key @ '':''))
        else ret ())
       (Delete B (TypeOfKeyGet key)))"

text \<open>The closure captures \<^verbatim>\<open>deleted\<close> and \<^verbatim>\<open>delKeyType\<close> and does not reset them.\<close>

definition delBody :: "'t txn_ops \<Rightarrow> bytes \<Rightarrow> ('t, int \<times> bytes) body" where
  "delBody B key c = bnd (lookupValue B (TypeOfKeyGet key)) (\<lambda>r. case r of
      None \<Rightarrow> ret c
    | Some keyType \<Rightarrow> andThen (delByType B key keyType) (ret (1, keyType)))"

definition Del ::
  "run_env \<Rightarrow> 't txn_ops \<Rightarrow> ('d, 't) db_ops \<Rightarrow> bytes \<Rightarrow> 'd bolt \<Rightarrow> int \<times> (go_error + unit) \<times> 'd bolt" where
  "Del E B D key s =
     (case retryUpdate E B D (delBody B key) 30 [encodePropagateCommand [''DEL'', key]] (0, []) (core s) of
        (r, (deleted, delKeyType), st') \<Rightarrow>
          (let s' = s\<lparr>core := st'\<rparr>
           in (deleted, r,
               if r = Inr () \<and> deleted > 0 \<and> (delKeyType = KeyTypeSortedSet \<or> delKeyType = KeyTypeGeo)
               then markZSetDirty key s' else s')))"

text \<open>\<open>errText\<close> is the \<^verbatim>\<open>Error()\<close> text that \<^verbatim>\<open>%v\<close> prints.\<close>

definition delStringBody :: "(go_error \<Rightarrow> bytes) \<Rightarrow> 't txn_ops \<Rightarrow> bytes \<Rightarrow> ('t, unit) body" where
  "delStringBody errText B key c = (\<lambda>t. case Delete B (TypeOfKeyGet key) t of
      Inl e \<Rightarrow> Inl (Errorf (''BotreonStoreDelString,Del Badger Type Key:'' @ errText e))
    | Inr (u, t1) \<Rightarrow> (case Delete B (stringKey key) t1 of
          Inl e \<Rightarrow> Inl (Errorf (''BotreonStoreDelString,Del Badger Value Key:'' @ errText e))
        | Inr (u, t2) \<Rightarrow> Inr (c, t2)))"

definition DelString ::
  "(go_error \<Rightarrow> bytes) \<Rightarrow> run_env \<Rightarrow> 't txn_ops \<Rightarrow> ('d, 't) db_ops \<Rightarrow> bytes \<Rightarrow> 'd store
   \<Rightarrow> (go_error + unit) \<times> 'd store" where
  "DelString errText E B D key st =
     (case retryUpdate E B D (delStringBody errText B key) 30 [] () st of (r, c, st') \<Rightarrow> (r, st'))"

definition checkKeyType :: "'t txn_ops \<Rightarrow> bytes \<Rightarrow> bytes \<Rightarrow> ('t, unit) tx" where
  "checkKeyType B key expectedType = bnd (lookupValue B (TypeOfKeyGet key)) (\<lambda>r. case r of
      None \<Rightarrow> ret ()
    | Some keyType \<Rightarrow> if keyType \<noteq> expectedType then fail ErrWrongType else ret ())"

definition checkTypeBeforeOp ::
  "'t txn_ops \<Rightarrow> ('d, 't) db_ops \<Rightarrow> bytes \<Rightarrow> bytes \<Rightarrow> 'd store \<Rightarrow> go_error + unit" where
  "checkTypeBeforeOp B D key expectedType st = View D (checkKeyType B key expectedType) st"

section \<open>EXISTS, TYPE, OBJECT\<close>

definition Exists :: "'t txn_ops \<Rightarrow> ('d, 't) db_ops \<Rightarrow> bytes \<Rightarrow> 'd store \<Rightarrow> go_error + bool" where
  "Exists B D key st = View D (bnd (lookup B (TypeOfKeyGet key)) (\<lambda>r. ret (r \<noteq> None))) st"

definition RawType :: "'t txn_ops \<Rightarrow> ('d, 't) db_ops \<Rightarrow> bytes \<Rightarrow> 'd store \<Rightarrow> go_error + bytes" where
  "RawType B D key st = View D (bnd (lookupValue B (TypeOfKeyGet key)) (\<lambda>r. case r of
      None \<Rightarrow> ret ''none''
    | Some v \<Rightarrow> ret v)) st"

definition typeAlias :: "bytes \<Rightarrow> bytes" where
  "typeAlias raw =
     (if raw = ''none'' then ''none''
      else if raw = KeyTypeString then ''string''
      else if raw = KeyTypeList then ''list''
      else if raw = KeyTypeHash then ''hash''
      else if raw = KeyTypeSet then ''set''
      else if raw = KeyTypeSortedSet then ''zset''
      else if raw = KeyTypeJSON then ''json''
      else if raw = KeyTypeTimeSeries then ''ts''
      else if raw = KeyTypeStream then ''stream''
      else if raw = KeyTypeHyperLogLog then ''string''
      else if raw = KeyTypeGeo then ''zset''
      else ''none'')"

definition Type :: "'t txn_ops \<Rightarrow> ('d, 't) db_ops \<Rightarrow> bytes \<Rightarrow> 'd store \<Rightarrow> go_error + bytes" where
  "Type B D key st = (case RawType B D key st of Inl e \<Rightarrow> Inl e | Inr raw \<Rightarrow> Inr (typeAlias raw))"

definition ObjectRefCount :: "'t txn_ops \<Rightarrow> ('d, 't) db_ops \<Rightarrow> bytes \<Rightarrow> 'd store \<Rightarrow> go_error + int" where
  "ObjectRefCount B D key st =
     View D (bnd (lookup B (TypeOfKeyGet key)) (\<lambda>r. ret (if r = None then 0 else 1))) st"

definition ObjectEncoding :: "'t txn_ops \<Rightarrow> ('d, 't) db_ops \<Rightarrow> bytes \<Rightarrow> 'd store \<Rightarrow> go_error + bytes" where
  "ObjectEncoding B D key st =
     (case View D (lookupValue B (TypeOfKeyGet key)) st of
        Inl e \<Rightarrow> (if errors_is e ErrKeyNotFound then Inr [] else Inl e)
      | Inr v \<Rightarrow>
          (let keyType = (case v of None \<Rightarrow> [] | Some w \<Rightarrow> w)
           in Inr (if keyType = KeyTypeString then ''raw''
                   else if keyType = KeyTypeList then ''quicklist''
                   else if keyType = KeyTypeHash then ''hashtable''
                   else if keyType = KeyTypeSet then ''hashtable''
                   else if keyType = KeyTypeSortedSet then ''skiplist''
                   else if keyType = KeyTypeStream then ''stream''
                   else if keyType = KeyTypeHyperLogLog then ''string''
                   else if keyType = KeyTypeJSON then ''string''
                   else if keyType = KeyTypeTimeSeries then ''string''
                   else [])))"

definition ObjectIdleTime :: "bytes \<Rightarrow> go_error + int" where
  "ObjectIdleTime key = Inr 0"

section \<open>Expiry\<close>

text \<open>Conversions to \<^verbatim>\<open>int64\<close> and \<^verbatim>\<open>uint64\<close> wrap.\<close>

definition i64 :: "int \<Rightarrow> int" where
  "i64 x = sint (word_of_int x :: u64)"

text \<open>\<^verbatim>\<open>time.Now().Unix()\<close> from a clock in nanoseconds.\<close>

definition Unix :: "int \<Rightarrow> int" where
  "Unix ns = ns div Second"

text \<open>The common start of the commands below: the record that carries the expiry of \<open>key\<close>.\<close>

definition valueItem :: "'t txn_ops \<Rightarrow> bytes \<Rightarrow> ('t, (bytes \<times> item) option) tx" where
  "valueItem B key = bnd (lookupValue B (TypeOfKeyGet key)) (\<lambda>r. case r of
      None \<Rightarrow> ret None
    | Some keyType \<Rightarrow> (case getKeyValueKey key keyType of
          Inl e \<Rightarrow> fail e
        | Inr valueKey \<Rightarrow> bnd (lookup B valueKey) (\<lambda>v. ret (map_option (Pair valueKey) v))))"

text \<open>
  The closures of \<^verbatim>\<open>Expire\<close> and \<^verbatim>\<open>PExpire\<close> read the clock once per attempt: \<open>clock i\<close> is the reading of
  attempt \<open>i\<close>. They capture the success flag and the expiry that the log value is computed from.
\<close>

record expire_vars =
  success :: bool
  expiresAtV :: u64
  attempt :: nat

definition expireBody ::
  "(nat \<Rightarrow> int) \<Rightarrow> 't txn_ops \<Rightarrow> bytes \<Rightarrow> int \<Rightarrow> ('t, expire_vars) body" where
  "expireBody clock B key seconds c =
     (let c0 = c\<lparr>success := False, expiresAtV := 0, attempt := Suc (attempt c)\<rparr>
      in bnd (valueItem B key) (\<lambda>r. case r of
           None \<Rightarrow> ret c0
         | Some (valueKey, i) \<Rightarrow> bnd (ValueCopy B i) (\<lambda>valBytes.
             let expiresAt = (word_of_int (Unix (clock (attempt c))) + word_of_int seconds :: u64)
             in andThen (SetEntry B valueKey valBytes expiresAt)
                  (ret (c0\<lparr>success := True, expiresAtV := expiresAt\<rparr>)))))"

definition expireLog :: "bytes \<Rightarrow> expire_vars \<Rightarrow> bytes" where
  "expireLog key c =
     (if \<not> success c \<or> expiresAtV c = 0 then noopLogValue
      else encodePropagateCommand [''PEXPIREAT'', key, utoa (unat (expiresAtV c * 1000))])"

definition expire_vars0 :: expire_vars where
  "expire_vars0 = \<lparr>success = False, expiresAtV = 0, attempt = 0\<rparr>"

definition Expire ::
  "(nat \<Rightarrow> int) \<Rightarrow> run_env \<Rightarrow> 't txn_ops \<Rightarrow> ('d, 't) db_ops \<Rightarrow> bytes \<Rightarrow> int \<Rightarrow> 'd bolt
   \<Rightarrow> bool \<times> (go_error + unit) \<times> 'd bolt" where
  "Expire clock E B D key seconds s =
     (if seconds \<le> 0 then
        (case Del E B D key s of
           (deleted, Inl e, s') \<Rightarrow> (False, Inl e, s')
         | (deleted, Inr u, s') \<Rightarrow> (deleted > 0, Inr (), s'))
      else case retryUpdateLazy E B D (expireBody clock B key seconds) 30 (expireLog key) expire_vars0 (core s) of
             (r, c, st') \<Rightarrow> (success c, r, s\<lparr>core := st'\<rparr>))"

definition pexpireBody ::
  "(nat \<Rightarrow> int) \<Rightarrow> 't txn_ops \<Rightarrow> bytes \<Rightarrow> int \<Rightarrow> ('t, expire_vars) body" where
  "pexpireBody clock B key milliseconds c =
     (let c0 = c\<lparr>success := False, expiresAtV := 0, attempt := Suc (attempt c)\<rparr>
      in bnd (valueItem B key) (\<lambda>r. case r of
           None \<Rightarrow> ret c0
         | Some (valueKey, i) \<Rightarrow> bnd (ValueCopy B i) (\<lambda>valBytes.
             let e0 = (word_of_int (Unix (clock (attempt c))) + word_of_int milliseconds div 1000 :: u64);
                 expiresAt = (if milliseconds mod 1000 \<noteq> 0 then e0 + 1 else e0)
             in andThen (SetEntry B valueKey valBytes expiresAt)
                  (ret (c0\<lparr>success := True, expiresAtV := expiresAt * 1000\<rparr>)))))"

definition pexpireLog :: "bytes \<Rightarrow> expire_vars \<Rightarrow> bytes" where
  "pexpireLog key c =
     (if \<not> success c \<or> expiresAtV c = 0 then noopLogValue
      else encodePropagateCommand [''PEXPIREAT'', key, utoa (unat (expiresAtV c))])"

definition PExpire ::
  "(nat \<Rightarrow> int) \<Rightarrow> run_env \<Rightarrow> 't txn_ops \<Rightarrow> ('d, 't) db_ops \<Rightarrow> bytes \<Rightarrow> int \<Rightarrow> 'd bolt
   \<Rightarrow> bool \<times> (go_error + unit) \<times> 'd bolt" where
  "PExpire clock E B D key milliseconds s =
     (if milliseconds \<le> 0 then
        (case Del E B D key s of
           (deleted, Inl e, s') \<Rightarrow> (False, Inl e, s')
         | (deleted, Inr u, s') \<Rightarrow> (deleted > 0, Inr (), s'))
      else case retryUpdateLazy E B D (pexpireBody clock B key milliseconds) 30 (pexpireLog key) expire_vars0 (core s) of
             (r, c, st') \<Rightarrow> (success c, r, s\<lparr>core := st'\<rparr>))"

text \<open>\<open>ns\<close> is the clock when the command computes the remaining time, \<open>clock\<close> as above.\<close>

definition ExpireAt ::
  "int \<Rightarrow> (nat \<Rightarrow> int) \<Rightarrow> run_env \<Rightarrow> 't txn_ops \<Rightarrow> ('d, 't) db_ops \<Rightarrow> bytes \<Rightarrow> int \<Rightarrow> 'd bolt
   \<Rightarrow> bool \<times> (go_error + unit) \<times> 'd bolt" where
  "ExpireAt ns clock E B D key timestamp s =
     (let ttl = i64 (timestamp - Unix ns)
      in if ttl \<le> 0 then
           (case Del E B D key s of
              (deleted, Inl e, s') \<Rightarrow> (False, Inl e, s')
            | (deleted, Inr u, s') \<Rightarrow> (deleted > 0, Inr (), s'))
         else Expire clock E B D key ttl s)"

definition PExpireAt ::
  "int \<Rightarrow> (nat \<Rightarrow> int) \<Rightarrow> run_env \<Rightarrow> 't txn_ops \<Rightarrow> ('d, 't) db_ops \<Rightarrow> bytes \<Rightarrow> int \<Rightarrow> 'd bolt
   \<Rightarrow> bool \<times> (go_error + unit) \<times> 'd bolt" where
  "PExpireAt ns clock E B D key timestampMillis s =
     (let ttl = i64 (timestampMillis - ns div Millisecond)
      in if ttl \<le> 0 then
           (case Del E B D key s of
              (deleted, Inl e, s') \<Rightarrow> (False, Inl e, s')
            | (deleted, Inr u, s') \<Rightarrow> (deleted > 0, Inr (), s'))
         else PExpire clock E B D key ttl s)"

definition TTL :: "int \<Rightarrow> 't txn_ops \<Rightarrow> ('d, 't) db_ops \<Rightarrow> bytes \<Rightarrow> 'd store \<Rightarrow> go_error + int" where
  "TTL ns B D key st = View D (bnd (valueItem B key) (\<lambda>r. case r of
      None \<Rightarrow> ret (- 2)
    | Some (valueKey, i) \<Rightarrow>
        if iexp i = 0 then ret (- 1)
        else let ttl = sint (iexp i - word_of_int (Unix ns))
             in ret (if ttl < 0 then - 2 else ttl))) st"

definition PTTL :: "int \<Rightarrow> 't txn_ops \<Rightarrow> ('d, 't) db_ops \<Rightarrow> bytes \<Rightarrow> 'd store \<Rightarrow> go_error + int" where
  "PTTL ns B D key st = View D (bnd (valueItem B key) (\<lambda>r. case r of
      None \<Rightarrow> ret (- 2)
    | Some (valueKey, i) \<Rightarrow>
        if iexp i = 0 then ret (- 1)
        else let ttl = i64 (sint (iexp i - word_of_int (Unix ns)) * 1000)
             in ret (if ttl < 0 then - 2 else ttl))) st"

definition computeAbsoluteExpiry ::
  "'t txn_ops \<Rightarrow> ('d, 't) db_ops \<Rightarrow> bytes \<Rightarrow> int \<Rightarrow> 'd store \<Rightarrow> go_error + int" where
  "computeAbsoluteExpiry B D key unt st = View D (bnd (valueItem B key) (\<lambda>r. case r of
      None \<Rightarrow> ret (- 2)
    | Some (valueKey, i) \<Rightarrow>
        if iexp i = 0 then ret (- 1)
        else if unt = Millisecond then ret (i64 (sint (iexp i) * 1000))
        else ret (sint (iexp i)))) st"

definition ExpireTime :: "'t txn_ops \<Rightarrow> ('d, 't) db_ops \<Rightarrow> bytes \<Rightarrow> 'd store \<Rightarrow> go_error + int" where
  "ExpireTime B D key st = computeAbsoluteExpiry B D key Second st"

definition PExpireTime :: "'t txn_ops \<Rightarrow> ('d, 't) db_ops \<Rightarrow> bytes \<Rightarrow> 'd store \<Rightarrow> go_error + int" where
  "PExpireTime B D key st = computeAbsoluteExpiry B D key Millisecond st"

definition persistBody :: "'t txn_ops \<Rightarrow> bytes \<Rightarrow> ('t, bool) body" where
  "persistBody B key hasTTL = bnd (valueItem B key) (\<lambda>r. case r of
      None \<Rightarrow> fail ErrStoreKeyNotFound
    | Some (vk, i) \<Rightarrow>
        if iexp i = 0 then ret False
        else bnd (ValueCopy B i) (\<lambda>valBytes. andThen (Set B vk valBytes) (ret True)))"

definition Persist ::
  "run_env \<Rightarrow> 't txn_ops \<Rightarrow> ('d, 't) db_ops \<Rightarrow> bytes \<Rightarrow> 'd store \<Rightarrow> (go_error + bool) \<times> 'd store" where
  "Persist E B D key st =
     (case retryUpdate E B D (persistBody B key) 30 [encodePropagateCommand [''PERSIST'', key]] False st of
        (Inl e, hasTTL, st') \<Rightarrow> (if errors_is e ErrStoreKeyNotFound then Inr False else Inl e, st')
      | (Inr u, hasTTL, st') \<Rightarrow> (Inr hasTTL, st'))"

text \<open>\<^verbatim>\<open>TIME\<close>\<close>

definition Time :: "int \<Rightarrow> int \<times> int" where
  "Time ns = (Unix ns, (ns mod Second) div 1000)"

section \<open>Which records a key owns\<close>

definition owns :: "bytes \<Rightarrow> bytes \<Rightarrow> bytes \<Rightarrow> bool" where
  "owns key keyType x \<longleftrightarrow> x = TypeOfKeyGet key \<or>
     (if keyType = KeyTypeString then x = stringKey key
      else if keyType = KeyTypeList then prefix (KeyTypeList @ '':'' @ key @ '':'') x
      else if keyType = KeyTypeHash then prefix (KeyTypeHash @ '':'' @ key @ '':'') x
      else if keyType = KeyTypeSet then prefix (KeyTypeSet @ '':'' @ key @ '':'') x
      else if keyType = KeyTypeSortedSet then prefix (''zset:'' @ key @ '':'') x
      else if keyType = KeyTypeJSON then x = jsonKey key
      else if keyType = KeyTypeTimeSeries then prefix (''TS:'' @ key @ '':'') x
      else if keyType = KeyTypeStream then prefix (''stream:'' @ key @ '':'') x
      else if keyType = KeyTypeHyperLogLog then x = hllKey key
      else if keyType = KeyTypeGeo then prefix (''geo:'' @ key @ '':'') x \<or> prefix (''zset:'' @ key @ '':'') x
      else False)"

text \<open>Two keys are apart when neither is the other one followed by a colon and more. Keys without a
  colon are apart as soon as they differ.\<close>

definition apart :: "bytes \<Rightarrow> bytes \<Rightarrow> bool" where
  "apart a b \<longleftrightarrow> \<not> prefix (a @ '':'') (b @ '':'') \<and> \<not> prefix (b @ '':'') (a @ '':'')"

lemma apart_sym: "apart a b \<Longrightarrow> apart b a"
  by (simp add: apart_def)

lemma apart_neq: "apart a b \<Longrightarrow> a \<noteq> b"
  by (auto simp: apart_def)

lemma apart_plain: "a \<noteq> b \<Longrightarrow> CHR '':'' \<notin> set a \<Longrightarrow> CHR '':'' \<notin> set b \<Longrightarrow> apart a b"
  by (auto simp: apart_def prefix_def append_eq_append_conv2 append_eq_Cons_conv Cons_eq_append_conv)

lemma apart_prefixes:
  assumes "apart a b" "prefix (a @ '':'') x" "prefix (b @ '':'') x"
  shows False
  using assms prefix_same_cases unfolding apart_def by blast

lemma under_append [simp]: "prefix (p @ a @ '':'') (p @ x) \<longleftrightarrow> prefix (a @ '':'') x"
  by (metis append.assoc same_prefix_prefix)

lemma apart_under:
  assumes "apart a b" "prefix (T @ a @ '':'') x"
  shows "\<not> prefix (T @ b @ '':'') x"
proof
  assume "prefix (T @ b @ '':'') x"
  then obtain y where "x = T @ y" by (auto simp: prefix_def)
  with assms \<open>prefix (T @ b @ '':'') x\<close> show False using apart_prefixes by auto
qed

lemma Join_Cons: "xs \<noteq> [] \<Longrightarrow> Join (x # xs) sep = x @ sep @ Join xs sep"
  by (cases xs) auto

lemma not_log_key [simp]:
  "\<not> prefix replLogPrefix (TypeOfKeyGet k)" "\<not> prefix replLogPrefix (stringKey k)"
  "\<not> prefix replLogPrefix (listKey k ps)" "\<not> prefix replLogPrefix (hashKey k f)"
  "\<not> prefix replLogPrefix (hashCountKey k)" "\<not> prefix replLogPrefix (setKey k ps)"
  "\<not> prefix replLogPrefix (sortedSetKeyMeta k)" "\<not> prefix replLogPrefix (jsonKey k)"
  "\<not> prefix replLogPrefix (tsMetaKey k)" "\<not> prefix replLogPrefix (streamKey k)"
  "\<not> prefix replLogPrefix (geoKey k)" "\<not> prefix replLogPrefix (hllKey k)"
  by (simp_all add: replLogPrefix_def TypeOfKeyGet_def stringKey_def listKey_def hashKey_def hashCountKey_def
      setKey_def Join_Cons sortedSetKeyMeta_def jsonKey_def tsMetaKey_def streamKey_def geoKey_def hllKey_def)

lemma data_key [simp]: "\<not> prefix replLogPrefix k \<Longrightarrow> data m k = m k"
  by (simp add: data_def)

lemma data_clear: "data (\<lambda>x. if P x then None else m x) = (\<lambda>x. if P x then None else data m x)"
  by (auto simp: data_def)

lemma data_idem [simp]: "data (data m) = data m"
  by (auto simp: data_def)

lemma data_upd [simp]: "\<not> prefix replLogPrefix k \<Longrightarrow> data (m(k := x)) = (data m)(k := x)"
  by (auto simp: data_def)

lemma core_markZSetDirty [simp]: "core (markZSetDirty k s) = core s"
  by (simp add: markZSetDirty_def split: option.split)

text \<open>The transaction of an update that does not start from a fresh run differs in the log only.\<close>

lemma data_eqD: "data m = data m' \<Longrightarrow> \<not> prefix replLogPrefix k \<Longrightarrow> m k = m' k"
  by (metis data_key)

text \<open>A store that can take another write: its next timestamp is above every version in the database
  and at least 31 below the end of the 64-bit range.\<close>

definition writable :: "('d, 't) db_ops \<Rightarrow> 'd store \<Rightarrow> bool" where
  "writable D st \<longleftrightarrow> maxVersion D (db st) < ts_next (tsSrc st) \<and> unat (ts_next (tsSrc st)) + 30 < 2 ^ 64 - 1"

context badger_txn
begin

lemma iterPrefix_keys [txn_simps]:
  "iterPrefix B False p p t = Inr (map (\<lambda>x. (x, the (view t x))) (scan_prefix (view t) p), t)"
  by (simp add: iterPrefix_def iter_law takeWhile_live_from finite_view)

lemma deleteByPrefix_run [txn_simps]:
  "deleteByPrefix B p t = Inr ((), delKeys (scan_prefix (view t) p) t)"
  by (simp add: deleteByPrefix_def bnd_def iterPrefix_keys forEach_Delete_fst comp_def)

lemma view_delPrefix [txn_simps]:
  "view (delKeys (scan_prefix (view t) p) t') =
     (\<lambda>k. if k \<in> dom (view t) \<and> prefix p k then None else view t' k)"
  by (simp add: view_delKeys set_scan_prefix finite_view fun_eq_iff)

text \<open>\<open>clears m P\<close>: the body succeeds and removes exactly the records \<open>P\<close>.\<close>

definition clears :: "('t, unit) tx \<Rightarrow> (bytes \<Rightarrow> bool) \<Rightarrow> bool" where
  "clears m P \<longleftrightarrow> (\<forall>t. \<exists>t'. m t = Inr ((), t') \<and> view t' = (\<lambda>x. if P x then None else view t x))"

lemma clears_Delete: "clears (Delete B k) (\<lambda>x. x = k)"
  by (auto simp: clears_def Delete_run view_upd)

lemma clears_prefix: "clears (deleteByPrefix B p) (prefix p)"
  by (auto simp: clears_def deleteByPrefix_run view_delPrefix fun_eq_iff)

lemma clears_ret: "clears (ret ()) (\<lambda>_. False)"
  by (simp add: clears_def)

lemma clears_andThen:
  assumes "clears m P" "clears n Q"
  shows "clears (andThen m n) (\<lambda>x. Q x \<or> P x)"
  unfolding clears_def
proof
  fix t
  obtain t1 where t1: "m t = Inr ((), t1)" "view t1 = (\<lambda>x. if P x then None else view t x)"
    using assms(1) by (auto simp: clears_def)
  obtain t2 where t2: "n t1 = Inr ((), t2)" "view t2 = (\<lambda>x. if Q x then None else view t1 x)"
    using assms(2) by (auto simp: clears_def)
  have "andThen m n t = Inr ((), t2)" using t1 t2 by (simp add: andThen_def bnd_def)
  then show "\<exists>t'. andThen m n t = Inr ((), t') \<and> view t' = (\<lambda>x. if Q x \<or> P x then None else view t x)"
    using t1 t2 by (intro exI [of _ t2]) auto
qed

lemma clears_if: "clears m P \<Longrightarrow> clears n Q \<Longrightarrow> clears (if b then m else n) (\<lambda>x. if b then P x else Q x)"
  by simp

lemmas clears_intros = clears_if clears_andThen clears_Delete clears_prefix clears_ret

lemma clears_delByType: "clears (delByType B key keyType) (owns key keyType)"
proof -
  have eq: "owns key keyType = (\<lambda>x. if keyType = KeyTypeString then x = stringKey key \<or> x = TypeOfKeyGet key
      else x = TypeOfKeyGet key \<or>
       (if keyType = KeyTypeList then prefix (KeyTypeList @ '':'' @ key @ '':'') x
        else if keyType = KeyTypeHash then prefix (KeyTypeHash @ '':'' @ key @ '':'') x
        else if keyType = KeyTypeSet then prefix (KeyTypeSet @ '':'' @ key @ '':'') x
        else if keyType = KeyTypeSortedSet then prefix (''zset:'' @ key @ '':'') x
        else if keyType = KeyTypeJSON then x = jsonKey key
        else if keyType = KeyTypeTimeSeries then prefix (''TS:'' @ key @ '':'') x
        else if keyType = KeyTypeStream then prefix (''stream:'' @ key @ '':'') x
        else if keyType = KeyTypeHyperLogLog then x = hllKey key
        else if keyType = KeyTypeGeo then prefix (''zset:'' @ key @ '':'') x \<or> prefix (''geo:'' @ key @ '':'') x
        else False))"
    unfolding owns_def fun_eq_iff by (simp add: disj_commute)
  show ?thesis unfolding eq delByType_def by (intro clears_intros)
qed

lemma delByType_run:
  "\<exists>t'. delByType B key keyType t = Inr ((), t')
     \<and> view t' = (\<lambda>x. if owns key keyType x then None else view t x)"
  using clears_delByType by (simp add: clears_def)

lemma delBody_run:
  "\<exists>t'. delBody B key c t = Inr (case view t (TypeOfKeyGet key) of None \<Rightarrow> c | Some i \<Rightarrow> (1, ival i), t')
     \<and> view t' = (case view t (TypeOfKeyGet key) of None \<Rightarrow> view t
         | Some i \<Rightarrow> (\<lambda>x. if owns key (ival i) x then None else view t x))"
  using delByType_run [of key "ival (the (view t (TypeOfKeyGet key)))" t]
  by (auto simp: delBody_def bnd_def andThen_def txn_simps split: option.split)

lemma regular_deleteByPrefix [simp, intro]: "regular (deleteByPrefix B p)"
  by (auto simp: deleteByPrefix_def)

lemma regular_delByType [simp, intro]: "regular (delByType B key keyType)"
  unfolding delByType_def by (intro regular_branches regular_andThen regular_ops regular_ret regular_deleteByPrefix)

lemma regular_delBody [simp, intro]: "regular (delBody B key c)"
  unfolding delBody_def by (intro regular_bnd regular_branches regular_andThen regular_ops regular_ret regular_delByType)

end

context badger_db
begin

text \<open>The two outcomes of an update: nothing happened to the data, or the body ran once on it. \<open>I\<close> is an
  invariant of the captured variables from attempt to attempt.\<close>

lemma retryUpdateLazy_cases [consumes 4, case_names inv failed success]:
  assumes "writable D st" "\<And>c. regular (fn c)" "retryUpdateLazy E B D fn 30 lv c st = (r, c', st')" "I c"
    and inv: "\<And>c t c' t'. I c \<Longrightarrow> data (view t) = data (snap (db st) MaxUint64) \<Longrightarrow> fn c t = Inr (c', t') \<Longrightarrow> I c'"
  obtains e where "r = Inl e" "data (snap (db st') MaxUint64) = data (snap (db st) MaxUint64)"
  | c0 t0 t1 where "r = Inr ()" "I c0" "fn c0 t0 = Inr (c', t1)"
      "data (view t0) = data (snap (db st) MaxUint64)" "data (snap (db st') MaxUint64) = data (view t1)"
proof -
  have st: "stays I fn (data (snap (db st) MaxUint64))"
    unfolding stays_def by (intro allI impI) (rule inv)
  have ok: "src_ok st" "unat (ts_next (tsSrc st)) + 30 < 2 ^ 64 - 1"
    using assms(1) unfolding writable_def src_ok_def by blast+
  have o: "once I fn st r c' st'"
    by (rule conjunct1 [OF retryUpdateLazy_once [where I = I, OF ok(1) assms(2) ok(2) assms(3,4) st]])
  show ?thesis
  proof (cases r)
    case (Inl e)
    then show ?thesis using o by (intro that(1)) (simp_all add: once_def)
  next
    case (Inr u)
    then obtain c0 t0 t1 where "I c0" "fn c0 t0 = Inr (c', t1)"
      "data (view t0) = data (snap (db st) MaxUint64)" "data (snap (db st') MaxUint64) = data (view t1)"
      using o by (auto simp: once_def)
    then show ?thesis using Inr by (intro that(2)) simp_all
  qed
qed

lemma retryUpdate_cases [consumes 4, case_names inv failed success]:
  assumes "writable D st" "\<And>c. regular (fn c)" "retryUpdate E B D fn 30 lv c st = (r, c', st')" "I c"
    and "\<And>c t c' t'. I c \<Longrightarrow> data (view t) = data (snap (db st) MaxUint64) \<Longrightarrow> fn c t = Inr (c', t') \<Longrightarrow> I c'"
  obtains e where "r = Inl e" "data (snap (db st') MaxUint64) = data (snap (db st) MaxUint64)"
  | c0 t0 t1 where "r = Inr ()" "I c0" "fn c0 t0 = Inr (c', t1)"
      "data (view t0) = data (snap (db st) MaxUint64)" "data (snap (db st') MaxUint64) = data (view t1)"
proof -
  from assms(1,2) assms(3) [unfolded retryUpdate_lazy] assms(4) show ?thesis
  proof (cases rule: retryUpdateLazy_cases)
    case (inv c t c' t')
    then show ?case by (rule assms(5))
  next
    case (failed e)
    then show ?thesis by (rule that(1))
  next
    case (success c0 t0 t1)
    then show ?thesis by (rule that(2))
  qed
qed

text \<open>What every successful run of a body says of the data is what the committed update says of the store.\<close>

lemma retryUpdateLazy_post:
  assumes "writable D st" "\<And>c. regular (fn c)" "retryUpdateLazy E B D fn 30 lv c st = (r, c', st')"
    and "\<And>c t c' t'. fn c t = Inr (c', t') \<Longrightarrow> P (data (view t)) c' (data (view t'))"
  shows "case r of Inl e \<Rightarrow> data (snap (db st') MaxUint64) = data (snap (db st) MaxUint64)
    | Inr u \<Rightarrow> P (data (snap (db st) MaxUint64)) c' (data (snap (db st') MaxUint64))"
proof -
  have "True" ..
  from assms(1-3) this show ?thesis
  proof (cases rule: retryUpdateLazy_cases)
    case (success c0 t0 t1)
    from assms(4) [OF success(3)] show ?thesis unfolding success(1,4,5) by simp
  qed simp_all
qed

lemma retryUpdate_post:
  assumes "writable D st" "\<And>c. regular (fn c)" "retryUpdate E B D fn 30 lv c st = (r, c', st')"
    and "\<And>c t c' t'. fn c t = Inr (c', t') \<Longrightarrow> P (data (view t)) c' (data (view t'))"
  shows "case r of Inl e \<Rightarrow> data (snap (db st') MaxUint64) = data (snap (db st) MaxUint64)
    | Inr u \<Rightarrow> P (data (snap (db st) MaxUint64)) c' (data (snap (db st') MaxUint64))"
  by (rule retryUpdateLazy_post [where fn = fn and P = P, OF assms(1,2) assms(3) [unfolded retryUpdate_lazy] assms(4)])

lemma View_view:
  assumes "\<And>t. m t = Inr (f (view t), t)"
  shows "View D m st = Inr (f (snap (db st) MaxUint64))"
  by (simp add: View_def assms new_view)

lemma Del_run:
  assumes "writable D (core s)" "Del E B D key s = (deleted, r, s')"
  defines "m \<equiv> data (snap (db (core s)) MaxUint64)" and "m' \<equiv> data (snap (db (core s')) MaxUint64)"
  shows "case r of Inl e \<Rightarrow> m' = m
    | Inr u \<Rightarrow> (case m (TypeOfKeyGet key) of
          None \<Rightarrow> deleted = 0 \<and> m' = m
        | Some i \<Rightarrow> deleted = 1 \<and> m' = (\<lambda>x. if owns key (ival i) x then None else m x))"
proof -
  let ?fn = "delBody B key" and ?tk = "TypeOfKeyGet key"
  define I where "I = (\<lambda>c :: int \<times> bytes. m ?tk = None \<longrightarrow> fst c = 0)"
  obtain kt st' where run: "retryUpdate E B D ?fn 30 [encodePropagateCommand [''DEL'', key]] (0, []) (core s)
      = (r, (deleted, kt), st')" and st': "core s' = st'"
    using assms(2) by (auto simp: Del_def Let_def split: prod.splits if_splits)
  have tk: "view t ?tk = m ?tk" if "data (view t) = data (snap (db (core s)) MaxUint64)" for t
    using data_eqD [OF that] by (simp add: m_def)
  have "I (0, [])" by (simp add: I_def)
  from assms(1) regular_delBody run this show ?thesis
  proof (cases rule: retryUpdate_cases)
    case (inv c t c' t')
    then show ?case using delBody_run [of key c t] tk [of t] by (auto simp: I_def split: option.splits)
  next
    case (success c0 t0 t1)
    then show ?thesis using delBody_run [of key c0 t0] tk [of t0]
      by (cases "m ?tk") (auto simp: I_def m_def m'_def st' data_clear)
  qed (simp add: m_def m'_def st')
qed

end

lemma ceil_div_1000: "((ms :: int) + 999) div 1000 = ms div 1000 + (if ms mod 1000 \<noteq> 0 then 1 else 0)"
proof -
  define q r where "q = ms div 1000" and "r = ms mod 1000"
  have ms: "ms = r + q * 1000" "0 \<le> r" "r < 1000" by (simp_all add: q_def r_def)
  have "(ms + 999) div 1000 = q + (r + 999) div 1000"
    using div_mult_self1 [of 1000 "r + 999" q] ms(1) by (simp add: algebra_simps)
  moreover have "(r + 999) div 1000 = (if r \<noteq> 0 then 1 else 0)"
    using ms(2,3) int_div_pos_eq [of "r + 999" 1000 1 "r - 1"] by (auto simp: div_pos_pos_trivial)
  ultimately show ?thesis by (simp add: q_def r_def)
qed

lemma uint_u64: "0 \<le> x \<Longrightarrow> x < 2 ^ 64 \<Longrightarrow> uint (word_of_int x :: u64) = x"
  by (simp add: uint_word_of_int)

lemma sint_u64: "- (2 ^ 63) \<le> x \<Longrightarrow> x < 2 ^ 63 \<Longrightarrow> sint (word_of_int x :: u64) = x"
  using sint_sbintrunc' [where 'a = 64, of x] by (simp add: signed_take_bit_int_eq_self)

section \<open>Expiry records\<close>

text \<open>The record whose expiry is the expiry of the key, when there is one.\<close>

definition expiry_rec :: "(bytes \<rightharpoonup> item) \<Rightarrow> bytes \<Rightarrow> (bytes \<times> item) option" where
  "expiry_rec m key = (case m (TypeOfKeyGet key) of
      None \<Rightarrow> None
    | Some i \<Rightarrow> (case getKeyValueKey key (ival i) of
          Inl e \<Rightarrow> None
        | Inr vk \<Rightarrow> map_option (Pair vk) (m vk)))"

text \<open>The type record of a key, if any, names one of the ten types.\<close>

definition typed :: "(bytes \<rightharpoonup> item) \<Rightarrow> bytes \<Rightarrow> bool" where
  "typed m key \<longleftrightarrow> (case m (TypeOfKeyGet key) of None \<Rightarrow> True | Some i \<Rightarrow> ival i \<in> set typeNames)"

lemma getKeyValueKey_known: "keyType \<in> set typeNames \<Longrightarrow> \<exists>vk. getKeyValueKey key keyType = Inr vk"
  by (auto simp: typeNames_def getKeyValueKey_def)

lemma getKeyValueKey_unknown:
  "keyType \<notin> set typeNames \<Longrightarrow> getKeyValueKey key keyType = Inl (Errorf (''unknown key type: '' @ keyType))"
  by (simp add: typeNames_def getKeyValueKey_def)

lemma getKeyValueKey_key:
  assumes "getKeyValueKey key keyType = Inr vk"
  shows "\<not> prefix replLogPrefix vk" "vk \<noteq> TypeOfKeyGet key'" "owns key keyType vk"
proof -
  have "keyType \<in> set typeNames" using assms getKeyValueKey_unknown by fastforce
  with assms have "\<not> prefix replLogPrefix vk \<and> vk \<noteq> TypeOfKeyGet key' \<and> owns key keyType vk"
    unfolding typeNames_def set_simps
    by (elim insertE emptyE; hypsubst)
      (auto simp: getKeyValueKey_def owns_def replLogPrefix_def TypeOfKeyGet_def stringKey_def listKey_def
        hashCountKey_def setKey_def Join_Cons sortedSetKeyMeta_def jsonKey_def tsMetaKey_def streamKey_def geoKey_def
        hllKey_def)
  then show "\<not> prefix replLogPrefix vk" "vk \<noteq> TypeOfKeyGet key'" "owns key keyType vk" by auto
qed

lemma type_rec_data: "data m = data m' \<Longrightarrow> m (TypeOfKeyGet key) = m' (TypeOfKeyGet key)"
  by (rule data_eqD) simp_all

lemma expiry_rec_data:
  assumes "data m = data m'"
  shows "expiry_rec m key = expiry_rec m' key"
proof (cases "m' (TypeOfKeyGet key)")
  case None
  then show ?thesis using type_rec_data [OF assms] by (simp add: expiry_rec_def)
next
  case (Some i)
  note tk = type_rec_data [OF assms, of key]
  show ?thesis
  proof (cases "getKeyValueKey key (ival i)")
    case (Inr vk)
    then have "m vk = m' vk" using data_eqD [OF assms] getKeyValueKey_key(1) by blast
    then show ?thesis using Some tk Inr by (simp add: expiry_rec_def)
  qed (use Some tk in \<open>simp add: expiry_rec_def\<close>)
qed

lemma typed_data:
  assumes "data m = data m'"
  shows "typed m key = typed m' key"
  by (simp only: typed_def type_rec_data [OF assms])

lemma expiry_rec_idem [simp]: "expiry_rec (data m) key = expiry_rec m key" "typed (data m) key = typed m key"
  by (rule expiry_rec_data typed_data, simp)+

lemma expiry_rec_upd:
  assumes "expiry_rec m key = Some (vk, i)"
  shows "expiry_rec (m(vk \<mapsto> i')) key = Some (vk, i')" "m vk = Some i" "\<not> prefix replLogPrefix vk"
    "typed (m(vk \<mapsto> i')) key = typed m key"
proof -
  obtain j where j: "m (TypeOfKeyGet key) = Some j" "getKeyValueKey key (ival j) = Inr vk" "m vk = Some i"
    using assms by (auto simp: expiry_rec_def split: option.splits sum.splits)
  note vk = getKeyValueKey_key(1,2) [OF j(2)]
  show "expiry_rec (m(vk \<mapsto> i')) key = Some (vk, i')" "m vk = Some i" "\<not> prefix replLogPrefix vk"
    "typed (m(vk \<mapsto> i')) key = typed m key"
    using j vk vk(2) [of key, symmetric] by (simp_all add: expiry_rec_def typed_def)
qed

text \<open>The clock reading \<open>ns\<close> plus \<open>n\<close> seconds is in range and after the engine's clock \<open>now\<close>.\<close>

definition future :: "u64 \<Rightarrow> int \<Rightarrow> int \<Rightarrow> bool" where
  "future now ns n \<longleftrightarrow> 0 \<le> Unix ns \<and> 0 < Unix ns + n \<and> Unix ns + n < 2 ^ 63 \<and> now < word_of_int (Unix ns + n)"

text \<open>What an expiry command makes of the data \<open>m\<close>: nothing when it fails or the key has no record, else
  the record gets the expiry \<open>g k\<close> for the reading \<open>k\<close> of the clock that the successful attempt used.\<close>

definition expires ::
  "bytes \<Rightarrow> (nat \<Rightarrow> u64) \<Rightarrow> (bytes \<rightharpoonup> item) \<Rightarrow> bool \<Rightarrow> go_error + unit \<Rightarrow> (bytes \<rightharpoonup> item) \<Rightarrow> bool" where
  "expires key g m ok r m' \<longleftrightarrow> (case r of Inl e \<Rightarrow> m' = m
       | Inr u \<Rightarrow> (case expiry_rec m key of
             None \<Rightarrow> \<not> ok \<and> m' = m
           | Some (vk, i) \<Rightarrow> ok \<and> (\<exists>k. m' = m(vk \<mapsto> \<lparr>ival = ival i, iexp = g k\<rparr>))))"

context badger_txn
begin

lemma valueItem_run [txn_simps]:
  "valueItem B key t = (if typed (view t) key then Inr (expiry_rec (view t) key, t)
     else Inl (Errorf (''unknown key type: '' @ ival (the (view t (TypeOfKeyGet key))))))"
proof (cases "view t (TypeOfKeyGet key)")
  case None
  then show ?thesis by (simp add: valueItem_def expiry_rec_def typed_def bnd_def txn_simps)
next
  case (Some i)
  show ?thesis
  proof (cases "ival i \<in> set typeNames")
    case True
    then obtain vk where "getKeyValueKey key (ival i) = Inr vk" using getKeyValueKey_known by blast
    then show ?thesis using Some True by (simp add: valueItem_def expiry_rec_def typed_def bnd_def txn_simps)
  next
    case False
    then show ?thesis using Some by (simp add: valueItem_def typed_def bnd_def txn_simps getKeyValueKey_unknown)
  qed
qed

lemma regular_valueItem [simp, intro]: "regular (valueItem B key)"
  unfolding valueItem_def by (intro regular_bnd regular_branches regular_ops regular_ret regular_fail)

lemma regular_expireBody [simp, intro]: "regular (expireBody clock B key n c)" "regular (pexpireBody clock B key n c)"
  unfolding expireBody_def pexpireBody_def Let_def
  by (intro regular_bnd regular_branches regular_andThen regular_ops regular_ret regular_valueItem)+

lemma pexpire_word:
  assumes "0 < ms" "ms < 2 ^ 63"
  shows "(let e0 = (word_of_int u + word_of_int ms div 1000 :: u64) in if ms mod 1000 \<noteq> 0 then e0 + 1 else e0)
    = word_of_int (u + (ms + 999) div 1000)"
proof -
  have "uint (word_of_int ms :: u64) = ms" using assms by (intro uint_u64) simp_all
  then have "(word_of_int ms div 1000 :: u64) = word_of_int (ms div 1000)" by (simp add: word_div_def)
  moreover have "(ms + 999) div 1000 = ms div 1000 + (if ms mod 1000 \<noteq> 0 then 1 else 0)" by (rule ceil_div_1000)
  ultimately show ?thesis by simp
qed

lemma expireBody_run:
  assumes "typed (view t) key" "expiry_rec (view t) key = Some (vk, i)" "future now (clock (attempt c)) n"
  shows "\<exists>c'. expireBody clock B key n c t =
      Inr (c', upd t vk (Some \<lparr>ival = ival i, iexp = word_of_int (Unix (clock (attempt c)) + n)\<rparr>))
    \<and> success c' \<and> expiresAtV c' = word_of_int (Unix (clock (attempt c)) + n)"
  using assms by (simp add: expireBody_def bnd_def andThen_def txn_simps future_def Let_def)

lemma pexpireBody_run:
  assumes "typed (view t) key" "expiry_rec (view t) key = Some (vk, i)" "0 < ms" "ms < 2 ^ 63"
    "future now (clock (attempt c)) ((ms + 999) div 1000)"
  shows "\<exists>c'. pexpireBody clock B key ms c t =
      Inr (c', upd t vk (Some \<lparr>ival = ival i, iexp = word_of_int (Unix (clock (attempt c)) + (ms + 999) div 1000)\<rparr>))
    \<and> success c' \<and> expiresAtV c' = word_of_int (Unix (clock (attempt c)) + (ms + 999) div 1000) * 1000"
proof -
  define e where "e = (word_of_int (Unix (clock (attempt c)) + (ms + 999) div 1000) :: u64)"
  have "now < e" using assms(5) by (simp add: future_def e_def)
  moreover note pexpire_word [OF assms(3,4), of "Unix (clock (attempt c))", folded e_def]
  ultimately show ?thesis
    using assms(1,2) unfolding e_def [symmetric]
    by (simp add: pexpireBody_def bnd_def andThen_def txn_simps Let_def)
qed

lemma expireBody_none:
  assumes "typed (view t) key" "expiry_rec (view t) key = None"
  shows "\<exists>c'. expireBody clock B key n c t = Inr (c', t) \<and> \<not> success c'"
    "\<exists>c'. pexpireBody clock B key n c t = Inr (c', t) \<and> \<not> success c'"
  using assms by (simp_all add: expireBody_def pexpireBody_def bnd_def txn_simps Let_def)

lemma TTL_body:
  assumes "expiry_rec m key = Some (vk, i)" "iexp i = word_of_int e" "0 < e" "e < 2 ^ 63" "0 \<le> Unix ns" "Unix ns \<le> e"
    "typed m key" "view (newTransactionAt D (db st) MaxUint64) = m"
  shows "TTL ns B D key st = Inr (e - Unix ns)"
proof -
  have "uint (word_of_int e :: u64) = e" using assms(3,4) by (intro uint_u64) simp_all
  then have "iexp i \<noteq> 0" using assms(2,3) by auto
  moreover have "sint (iexp i - word_of_int (Unix ns)) = e - Unix ns"
  proof -
    have "iexp i - word_of_int (Unix ns) = word_of_int (e - Unix ns)" using assms(2) by simp
    moreover have "sint (word_of_int (e - Unix ns) :: u64) = e - Unix ns"
      by (rule sint_u64) (use assms(4-6) in simp_all)
    ultimately show ?thesis by simp
  qed
  ultimately show ?thesis
    using assms(1,6-8) by (simp add: TTL_def View_def bnd_def txn_simps Let_def)
qed

end

context badger_db
begin

lemma expire_effect:
  assumes "writable D st" "typed (snap (db st) MaxUint64) key" "\<And>c. regular (fn c)"
    "retryUpdateLazy E B D fn 30 lv c st = (r, c', st')"
    and some: "\<And>c t vk i. typed (view t) key \<Longrightarrow> expiry_rec (view t) key = Some (vk, i) \<Longrightarrow>
      \<exists>c'. fn c t = Inr (c', upd t vk (Some \<lparr>ival = ival i, iexp = g (attempt c)\<rparr>)) \<and> success c'"
    and none: "\<And>c t. typed (view t) key \<Longrightarrow> expiry_rec (view t) key = None \<Longrightarrow>
      \<exists>c'. fn c t = Inr (c', t) \<and> \<not> success c'"
  shows "expires key g (data (snap (db st) MaxUint64)) (success c') r (data (snap (db st') MaxUint64))"
proof -
  define m where "m = data (snap (db st) MaxUint64)"
  have "True" ..
  from assms(1,3,4) this show ?thesis
  proof (cases rule: retryUpdateLazy_cases)
    case (success c0 t0 t1)
    have ty: "typed (view t0) key" "expiry_rec (view t0) key = expiry_rec m key"
      using typed_data [OF success(4), of key] expiry_rec_data [OF success(4), of key] assms(2)
      by (simp_all add: m_def)
    show ?thesis
    proof (cases "expiry_rec m key")
      case None
      then show ?thesis using none [OF ty(1), of c0] ty(2) success by (auto simp: m_def expires_def)
    next
      case (Some p)
      obtain vk i where p: "p = (vk, i)" by force
      note vk = expiry_rec_upd(3) [OF Some [unfolded p]]
      from some [OF ty(1), of vk i c0] ty(2) Some p success vk
      show ?thesis by (auto simp: m_def expires_def view_upd)
    qed
  qed (simp_all add: expires_def)
qed

lemma Expire_run:
  assumes "writable D (core s)" "typed (snap (db (core s)) MaxUint64) key" "0 < n" "\<And>i. future now (clock i) n"
    "Expire clock E B D key n s = (ok, r, s')"
  shows "expires key (\<lambda>k. word_of_int (Unix (clock k) + n))
      (data (snap (db (core s)) MaxUint64)) ok r
      (data (snap (db (core s')) MaxUint64))"
proof -
  obtain c' st' where run: "retryUpdateLazy E B D (expireBody clock B key n) 30 (expireLog key) expire_vars0 (core s)
      = (r, c', st')" and s': "core s' = st'" "ok = success c'"
    using assms(3,5) by (auto simp: Expire_def split: prod.splits)
  show ?thesis unfolding s'
    by (rule expire_effect [OF assms(1,2) regular_expireBody(1) run])
      (use expireBody_run [where clock = clock and n = n, OF _ _ assms(4)] expireBody_none(1) in blast)+
qed

lemma PExpire_run:
  assumes "writable D (core s)" "typed (snap (db (core s)) MaxUint64) key" "0 < ms" "ms < 2 ^ 63"
    "\<And>i. future now (clock i) ((ms + 999) div 1000)" "PExpire clock E B D key ms s = (ok, r, s')"
  shows "expires key (\<lambda>k. word_of_int (Unix (clock k) + (ms + 999) div 1000))
      (data (snap (db (core s)) MaxUint64)) ok r
      (data (snap (db (core s')) MaxUint64))"
proof -
  obtain c' st' where run: "retryUpdateLazy E B D (pexpireBody clock B key ms) 30 (pexpireLog key) expire_vars0 (core s)
      = (r, c', st')" and s': "core s' = st'" "ok = success c'"
    using assms(3,6) by (auto simp: PExpire_def split: prod.splits)
  show ?thesis unfolding s'
    by (rule expire_effect [OF assms(1,2) regular_expireBody(2) run])
      (use pexpireBody_run [where clock = clock and ms = ms, OF _ _ assms(3,4,5)] expireBody_none(2) in blast)+
qed

end

text \<open>The millisecond timestamp of a whole second, seen from \<open>ns\<close>, rounds up to that second again.\<close>

lemma pexpireat_round: "(1000 * e - ns div Millisecond + 999) div 1000 = e - Unix ns"
proof -
  have "1000 * e - ns div Millisecond + 999 = (999 - ns div Millisecond) + e * 1000" by simp
  then have "(1000 * e - ns div Millisecond + 999) div 1000 = e + (999 - ns div Millisecond) div 1000"
    by (simp only: div_mult_self1)
  moreover have "(999 - q) div 1000 = - (q div 1000)" for q :: int
  proof -
    have "q mod 1000 < 1000" by simp
    then have "q mod 1000 \<noteq> 1000" by linarith
    then show ?thesis using ceil_div_1000 [of "- q"] by (simp add: zdiv_zminus1_eq_if zmod_zminus1_eq_if)
  qed
  moreover have "ns div Millisecond div 1000 = ns div Second" by (simp add: zdiv_zmult2_eq [symmetric])
  ultimately show ?thesis by (simp add: Unix_def)
qed

context badger_db
begin

lemma PExpireAt_run:
  assumes "writable D (core s)" "typed (snap (db (core s)) MaxUint64) key" "0 \<le> ns" "ns < Second * e" "e < 2 ^ 50"
    "\<And>i. future now (clock i) (e - Unix ns)" "PExpireAt ns clock E B D key (1000 * e) s = (ok, r, s')"
  shows "expires key (\<lambda>k. word_of_int (e + (Unix (clock k) - Unix ns)))
      (data (snap (db (core s)) MaxUint64)) ok r
      (data (snap (db (core s')) MaxUint64))"
proof -
  let ?ttl = "1000 * e - ns div Millisecond"
  have "ns div Millisecond < 1000 * e"
    using assms(4) by (simp add: div_less_iff_less_mult)
  moreover have "0 \<le> ns div Millisecond" using assms(3) by simp
  ultimately have ttl: "0 < ?ttl" "?ttl < 2 ^ 63" using assms(5) by simp_all
  then have "i64 ?ttl = ?ttl" unfolding i64_def by (intro sint_u64) simp_all
  with ttl assms(7) have "PExpire clock E B D key ?ttl s = (ok, r, s')" by (simp add: PExpireAt_def)
  from PExpire_run [OF assms(1,2) ttl _ this] assms(6)
  have "expires key (\<lambda>k. word_of_int (Unix (clock k) + (e - Unix ns)))
      (data (snap (db (core s)) MaxUint64)) ok r
      (data (snap (db (core s')) MaxUint64))"
    unfolding pexpireat_round by blast
  then show ?thesis by (simp only: add_diff_eq add.commute)
qed

end

context badger_db
begin

lemma TTL_none:
  assumes "typed (snap (db st) MaxUint64) key" "expiry_rec (snap (db st) MaxUint64) key = None"
  shows "TTL ns B D key st = Inr (- 2)"
  using assms by (simp add: TTL_def View_def bnd_def txn_simps new_view)

lemma Expire_TTL_run:
  assumes "expires key (\<lambda>k. word_of_int (Unix (clock k) + n)) (data (snap (db st) MaxUint64)) ok (Inr ())
      (data (snap (db st') MaxUint64))"
    and "typed (snap (db st) MaxUint64) key" "\<And>k. future now (clock k) n"
    and "\<And>k. 0 \<le> Unix ns \<and> Unix ns \<le> Unix (clock k) + n"
  shows "\<exists>k. TTL ns B D key st' = Inr (if ok then Unix (clock k) + n - Unix ns else - 2)"
proof (cases "expiry_rec (data (snap (db st) MaxUint64)) key")
  case None
  then have same: "data (snap (db st') MaxUint64) = data (snap (db st) MaxUint64)" "\<not> ok"
    using assms(1) by (simp_all add: expires_def)
  then show ?thesis
    using TTL_none [of st' key ns] expiry_rec_data [OF same(1), of key] typed_data [OF same(1), of key] assms(2) None
    by simp
next
  case (Some p)
  obtain vk i where p: "p = (vk, i)" by force
  obtain k where ok: ok and m': "data (snap (db st') MaxUint64) =
      (data (snap (db st) MaxUint64))(vk \<mapsto> \<lparr>ival = ival i, iexp = word_of_int (Unix (clock k) + n)\<rparr>)"
    using assms(1) Some p by (auto simp: expires_def)
  let ?i = "\<lparr>ival = ival i, iexp = word_of_int (Unix (clock k) + n)\<rparr>"
  note e = expiry_rec_upd(1,4) [OF Some [unfolded p], of ?i, folded m']
  have "expiry_rec (snap (db st') MaxUint64) key = Some (vk, ?i)" "typed (snap (db st') MaxUint64) key"
    using e assms(2) by simp_all
  then have "TTL ns B D key st' = Inr (Unix (clock k) + n - Unix ns)"
    by (intro TTL_body [where i = ?i]) (use assms(3) [of k] assms(4) [of k] in \<open>auto simp: future_def new_view\<close>)
  with ok show ?thesis by auto
qed

end

section \<open>Sample stores\<close>

text \<open>A store of the reference engine with given records, in which every update is admitted and commits
  at the first attempt.\<close>

definition kv_with :: "(bytes \<times> item) list \<Rightarrow> kv_db store" where
  "kv_with xs = (store0 \<lparr>kv_versions = [(1, map (\<lambda>(k, i). (k, Some i)) xs)]\<rparr>)\<lparr>tsSrc := tsInit 1 newTSSource\<rparr>"

lemma kv_with_snap: "kv_snap (db (kv_with xs)) MaxUint64 = map_of xs"
proof
  fix k
  have "map_of (map (\<lambda>(k, i). (k, Some i)) xs) k = map_option Some (map_of xs k)" by (induction xs) auto
  then show "kv_snap (db (kv_with xs)) MaxUint64 k = map_of xs k"
    by (cases "map_of xs k") (simp_all add: kv_with_def store0_def kv_snap_def kv_snap_list_def)
qed

lemma kv_with_next: "ts_next (tsSrc (kv_with xs)) = 2" "maxVersion kv_db_ops (db (kv_with xs)) = 1"
  by (simp_all add: kv_with_def store0_def newTSSource_def tsInit_def kv_db_ops_def)

lemma kv_admitted:
  assumes "withAdmission env0 A n c (kv_with xs) = (r, c', st')"
  shows "\<exists>st3 st4. retryLoop env0 A n 0 None c st3 = (r, c', st4) \<and> db st3 = db (kv_with xs)"
  using assms
  by (simp add: withAdmission_def kv_with_def store0_def env0_def l0ScoreCached_def preWriteCheck_def L0Score_def
      DefaultBackpressureConfig_def Let_def split: prod.splits)
    (intro exI conjI, assumption, simp add: Acquire_def)

lemma kv_update_first:
  assumes "fn c (newTransactionAt kv_db_ops (db (kv_with xs)) MaxUint64) = Inr (c', t')"
  shows "\<exists>st'. retryUpdateLazy env0 kv_ops kv_db_ops fn 30 lv c (kv_with xs) = (Inr (), c', st')"
proof -
  have com: "\<exists>st'. commitTSLazy kv_ops kv_db_ops fn lv c st = (Inr (), c', st')" if "db st = db (kv_with xs)" for st
    using assms that unfolding commitTSLazy_def
    by (auto simp: Let_def tsBegin_def kv_ops_def kv_db_ops_def split: prod.splits)
  obtain r c1 st' where run: "withAdmission env0 (commitTSLazy kv_ops kv_db_ops fn lv) 30 c (kv_with xs) = (r, c1, st')"
    by (metis prod_cases3)
  obtain st3 st4 where loop: "retryLoop env0 (commitTSLazy kv_ops kv_db_ops fn lv) 30 0 None c st3 = (r, c1, st4)"
    "db st3 = db (kv_with xs)" using kv_admitted [OF run] by auto
  obtain st5 where "commitTSLazy kv_ops kv_db_ops fn lv c st3 = (Inr (), c', st5)" using com [OF loop(2)] by blast
  moreover have "(30::nat) = Suc 29" by simp
  ultimately have "r = Inr () \<and> c1 = c'" using loop(1) by (simp only: retryLoop.simps) (auto simp: Let_def)
  then show ?thesis using run by (auto simp: retryUpdateLazy_def)
qed
lemma kv_update_first_eager:
  assumes "fn c (newTransactionAt kv_db_ops (db (kv_with xs)) MaxUint64) = Inr (c', t')"
  shows "\<exists>st'. retryUpdate env0 kv_ops kv_db_ops fn 30 lv c (kv_with xs) = (Inr (), c', st')"
  using kv_update_first [of fn, OF assms] by (simp add: retryUpdate_lazy)

lemma kv_with_writable: "writable kv_db_ops (kv_with xs)"
  by (simp add: writable_def kv_with_next less_max_u64)

definition bolt0 :: "'d store \<Rightarrow> 'd bolt" where
  "bolt0 st = \<lparr>core = st, zsetRankCaches = Map.empty, scanBookmarks = Map.empty, scanBookmarkSeq = 0\<rparr>"

definition plain :: "bytes \<Rightarrow> item" where
  "plain v = \<lparr>ival = v, iexp = 0\<rparr>"

lemma plain_simps [simp]: "ival (plain v) = v" "iexp (plain v) = 0"
  by (simp_all add: plain_def)

definition sample_string :: "(bytes \<times> item) list" where
  "sample_string = [(TypeOfKeyGet ''a'', plain ''STRING''), (stringKey ''a'', plain ''x''), (stringKey ''ab'', plain ''y'')]"

section \<open>Properties\<close>




lemma sample_string_rec:
  "typed (kv_snap (db (kv_with sample_string)) MaxUint64) ''a''"
  "expiry_rec (kv_snap (db (kv_with sample_string)) MaxUint64) ''a'' = Some (stringKey ''a'', plain ''x'')"
  by (simp_all add: kv_with_snap sample_string_def typed_def typeNames_def expiry_rec_def getKeyValueKey_def
      TypeOfKeyGet_def stringKey_def)

lemma sample_expire_ok:
  assumes "\<And>t. typed (kv_view t) ''a'' \<Longrightarrow> expiry_rec (kv_view t) ''a'' = Some (stringKey ''a'', plain ''x'') \<Longrightarrow>
      \<exists>c' t'. fn expire_vars0 t = Inr (c', t') \<and> success c'"
  shows "\<exists>c' st'. retryUpdateLazy env0 kv_ops kv_db_ops fn 30 lv expire_vars0 (kv_with sample_string) = (Inr (), c', st')
    \<and> success c'"
  using assms [of "newTransactionAt kv_db_ops (db (kv_with sample_string)) MaxUint64"] sample_string_rec
    kv_update_first [of fn expire_vars0 sample_string _ _ lv] by (fastforce simp: kvd.new_view)




end
