(* ===== verification/Counted.thy ===== *)
theory Counted
  imports Keyspace
begin

text \<open>
  The layout that sets and hashes share: one record per element and a record with the number of
  elements as a big-endian 64-bit counter. The locale states what the operations need of the keys
  (different elements have different keys, none of them the counter's, none in the replication log)
  and proves how the element set and the counter move together.
\<close>

locale counted =
  fixes ek :: "bytes \<Rightarrow> bytes" and ck :: bytes and okElem :: "bytes \<Rightarrow> bool"
  assumes ek_inj: "okElem x \<Longrightarrow> okElem y \<Longrightarrow> ek x = ek y \<longleftrightarrow> x = y"
    and ek_ck [simp]: "okElem x \<Longrightarrow> ek x \<noteq> ck"
    and ek_log [simp]: "okElem x \<Longrightarrow> \<not> prefix replLogPrefix (ek x)"
    and ck_log [simp]: "\<not> prefix replLogPrefix ck"
begin

definition elems :: "(bytes \<rightharpoonup> item) \<Rightarrow> bytes set" where
  "elems m = {x. okElem x \<and> m (ek x) \<noteq> None}"

definition counter :: "(bytes \<rightharpoonup> item) \<Rightarrow> u64" where
  "counter m = (case m ck of None \<Rightarrow> 0 | Some i \<Rightarrow> BytesToUint64 (ival i))"

definition count_ok :: "(bytes \<rightharpoonup> item) \<Rightarrow> bool" where
  "count_ok m \<longleftrightarrow> counter m = word_of_nat (card (elems m))"

lemma ck_ek [simp]: "okElem x \<Longrightarrow> ck \<noteq> ek x"
  using ek_ck by metis

lemma finite_elems: "finite (dom m) \<Longrightarrow> finite (elems m)"
proof -
  assume fin: "finite (dom m)"
  have "inj_on ek (elems m)" by (auto simp: inj_on_def elems_def ek_inj)
  moreover have "ek ` elems m \<subseteq> dom m" by (auto simp: elems_def)
  ultimately show ?thesis using fin finite_subset inj_on_finite by blast
qed

lemma elems_ins [simp]: "okElem x \<Longrightarrow> elems (m(ek x \<mapsto> i)) = insert x (elems m)"
  by (auto simp: elems_def ek_inj)

lemma elems_del [simp]: "okElem x \<Longrightarrow> elems (m(ek x := None)) = elems m - {x}"
  by (auto simp: elems_def ek_inj)

lemma elems_ck [simp]: "elems (m(ck := v)) = elems m"
  by (auto simp: elems_def)

lemma elems_other [simp]: "(\<And>x. okElem x \<Longrightarrow> ek x \<noteq> k) \<Longrightarrow> elems (m(k := v)) = elems m"
  by (auto simp: elems_def)

lemma elems_cong: "(\<And>x. okElem x \<Longrightarrow> m (ek x) = m' (ek x)) \<Longrightarrow> elems m = elems m'"
  by (auto simp: elems_def)

lemma elems_data: "data m = data m' \<Longrightarrow> elems m = elems m'"
  by (rule elems_cong) (metis data_eqD ek_log)

lemma elems_idem [simp]: "elems (data m) = elems m"
  by (rule elems_data) simp

lemma counter_upd [simp]:
  "counter (m(ck \<mapsto> \<lparr>ival = Uint64ToBytes n, iexp = ex\<rparr>)) = n" "ck \<noteq> k \<Longrightarrow> counter (m(k := v)) = counter m"
  by (simp_all add: counter_def)

lemma counter_data: "data m = data m' \<Longrightarrow> counter m = counter m'"
  unfolding counter_def using data_eqD [of m m' ck] by simp

lemma count_ok_data: "data m = data m' \<Longrightarrow> count_ok m = count_ok m'"
  using elems_data [of m m'] counter_data [of m m'] by (simp add: count_ok_def)

lemma count_ok_idem [simp]: "count_ok (data m) = count_ok m"
  by (rule count_ok_data) simp

lemma count_ok_set: "count_ok (m(ck \<mapsto> \<lparr>ival = Uint64ToBytes n, iexp = ex\<rparr>)) \<longleftrightarrow> n = word_of_nat (card (elems m))"
  by (simp add: count_ok_def)

end

text \<open>What adding and removing does to a counter modulo \<open>2 ^ 64\<close>.\<close>

lemma card_insert_word:
  "finite S \<Longrightarrow> x \<notin> S \<Longrightarrow> (word_of_nat (card (insert x S)) :: u64) = word_of_nat (card S) + 1"
  by simp

lemma card_remove_word:
  assumes "finite S" "x \<in> S"
  shows "(word_of_nat (card (S - {x})) :: u64) = word_of_nat (card S) - 1"
proof -
  have "card S = Suc (card (S - {x}))" using assms by (metis card_Suc_Diff1)
  then show ?thesis by simp
qed

end
