(* ===== verification/Sets.thy ===== *)
theory Sets
  imports Counted "HOL-Library.Multiset"
begin

text \<open>
  The set commands of \<^verbatim>\<open>internal/store/set.go\<close>. A set is a record per member below
  \<^verbatim>\<open>SET:<key>:member:\<close> and a counter \<^verbatim>\<open>SET:<key>:count\<close>; the counter is what \<^verbatim>\<open>SCARD\<close> answers and what
  \<^verbatim>\<open>SPOP\<close> draws its index from. Random choices are arguments: \<open>rnd i n\<close> is the \<open>i\<close>-th number drawn below
  \<open>n\<close> by an attempt, and \<open>seed\<close> selects the numbers of an attempt.
\<close>

section \<open>Keys and members\<close>

definition memberKey :: "bytes \<Rightarrow> bytes \<Rightarrow> bytes" where
  "memberKey key member = setKey key [''member'', member]"

definition countKey :: "bytes \<Rightarrow> bytes" where
  "countKey key = setKey key [''count'']"

definition memberPrefix :: "bytes \<Rightarrow> bytes" where
  "memberPrefix key = setKey key [''member''] @ '':''"

text \<open>The type check the set commands start with: a missing or empty type record passes.\<close>

definition checkSetType :: "'t txn_ops \<Rightarrow> bytes \<Rightarrow> ('t, unit) tx" where
  "checkSetType B key = bnd (lookupValue B (TypeOfKeyGet key)) (\<lambda>r. case r of
      None \<Rightarrow> ret ()
    | Some keyType \<Rightarrow> if keyType \<noteq> [] \<and> keyType \<noteq> KeyTypeSet then fail ErrWrongType else ret ())"

definition readCount :: "'t txn_ops \<Rightarrow> bytes \<Rightarrow> ('t, u64) tx" where
  "readCount B k = bnd (lookupValue B k) (\<lambda>r. case r of None \<Rightarrow> ret 0 | Some b \<Rightarrow> ret (BytesToUint64 b))"

definition getAllMembers :: "'t txn_ops \<Rightarrow> bytes \<Rightarrow> ('t, bytes list) tx" where
  "getAllMembers B key =
     bnd (iterPrefix B False (memberPrefix key) (memberPrefix key)) (\<lambda>its.
       ret (map (\<lambda>(k, i). drop (length (memberPrefix key)) k) its))"

section \<open>SADD and SREM\<close>

fun saddLoop :: "'t txn_ops \<Rightarrow> bytes \<Rightarrow> bytes list \<Rightarrow> u64 \<Rightarrow> int \<Rightarrow> ('t, u64 \<times> int) tx" where
  "saddLoop B key [] cnt added = ret (cnt, added)"
| "saddLoop B key (member # members) cnt added =
     bnd (tryGet B (memberKey key member)) (\<lambda>r. case r of
        Inl e \<Rightarrow> if errors_is e ErrKeyNotFound
                then andThen (Set B (memberKey key member) []) (saddLoop B key members (cnt + 1) (added + 1))
                else saddLoop B key members cnt added
      | Inr i \<Rightarrow> saddLoop B key members cnt added)"

definition saddBody :: "'t txn_ops \<Rightarrow> bytes \<Rightarrow> bytes list \<Rightarrow> ('t, int) body" where
  "saddBody B key members c =
     andThen (checkSetType B key)
      (andThen (Set B (TypeOfKeyGet key) KeyTypeSet)
        (bnd (readCount B (countKey key)) (\<lambda>cnt.
          bnd (saddLoop B key members cnt 0) (\<lambda>(cnt', added).
            if added > 0 then andThen (Set B (countKey key) (Uint64ToBytes cnt')) (ret added)
            else ret added))))"

definition SAdd ::
  "run_env \<Rightarrow> 't txn_ops \<Rightarrow> ('d, 't) db_ops \<Rightarrow> bytes \<Rightarrow> bytes list \<Rightarrow> 'd store
   \<Rightarrow> (go_error + unit) \<times> int \<times> 'd store" where
  "SAdd E B D key members st =
     retryUpdate E B D (saddBody B key members) 30 [encodePropagateStringArgs ''SADD'' (key # members)] 0 st"

fun sremLoop :: "'t txn_ops \<Rightarrow> bytes \<Rightarrow> bytes list \<Rightarrow> u64 \<Rightarrow> int \<Rightarrow> ('t, u64 \<times> int) tx" where
  "sremLoop B key [] cnt removed = ret (cnt, removed)"
| "sremLoop B key (member # members) cnt removed =
     bnd (tryGet B (memberKey key member)) (\<lambda>r. case r of
        Inl e \<Rightarrow> sremLoop B key members cnt removed
      | Inr i \<Rightarrow> andThen (Delete B (memberKey key member)) (sremLoop B key members (cnt - 1) (removed + 1)))"

definition sremBody :: "'t txn_ops \<Rightarrow> bytes \<Rightarrow> bytes list \<Rightarrow> ('t, int) body" where
  "sremBody B key members c =
     andThen (checkSetType B key)
      (bnd (readCount B (countKey key)) (\<lambda>cnt.
        bnd (sremLoop B key members cnt 0) (\<lambda>(cnt', removed).
          if removed > 0 then andThen (Set B (countKey key) (Uint64ToBytes cnt')) (ret removed)
          else ret removed)))"

definition SRem ::
  "run_env \<Rightarrow> 't txn_ops \<Rightarrow> ('d, 't) db_ops \<Rightarrow> bytes \<Rightarrow> bytes list \<Rightarrow> 'd store
   \<Rightarrow> (go_error + unit) \<times> int \<times> 'd store" where
  "SRem E B D key members st =
     retryUpdate E B D (sremBody B key members) 30 [encodePropagateStringArgs ''SREM'' (key # members)] 0 st"

section \<open>Reading a set\<close>

definition SCard :: "'t txn_ops \<Rightarrow> ('d, 't) db_ops \<Rightarrow> bytes \<Rightarrow> 'd store \<Rightarrow> go_error + u64" where
  "SCard B D key st = View D (andThen (checkSetType B key) (readCount B (countKey key))) st"

definition SIsMember :: "'t txn_ops \<Rightarrow> ('d, 't) db_ops \<Rightarrow> bytes \<Rightarrow> bytes \<Rightarrow> 'd store \<Rightarrow> go_error + bool" where
  "SIsMember B D key member st = View D (andThen (checkSetType B key)
     (bnd (lookup B (memberKey key member)) (\<lambda>r. ret (r \<noteq> None)))) st"

definition SMembers :: "'t txn_ops \<Rightarrow> ('d, 't) db_ops \<Rightarrow> bytes \<Rightarrow> 'd store \<Rightarrow> go_error + bytes list" where
  "SMembers B D key st = View D (andThen (checkSetType B key) (getAllMembers B key)) st"

fun isMemberLoop :: "'t txn_ops \<Rightarrow> bytes \<Rightarrow> bytes list \<Rightarrow> ('t, int list) tx" where
  "isMemberLoop B key [] = ret []"
| "isMemberLoop B key (member # members) =
     bnd (lookup B (memberKey key member)) (\<lambda>r.
       bnd (isMemberLoop B key members) (\<lambda>rs. ret ((if r = None then 0 else 1) # rs)))"

definition SMIsMember ::
  "'t txn_ops \<Rightarrow> ('d, 't) db_ops \<Rightarrow> bytes \<Rightarrow> bytes list \<Rightarrow> 'd store \<Rightarrow> go_error + int list" where
  "SMIsMember B D key members st = View D (isMemberLoop B key members) st"

section \<open>Random members\<close>

definition randomIntn :: "(int \<Rightarrow> int) \<Rightarrow> int \<Rightarrow> int" where
  "randomIntn rnd n = (if n \<le> 0 then 0 else rnd n)"

definition swap :: "nat \<Rightarrow> nat \<Rightarrow> 'a list \<Rightarrow> 'a list" where
  "swap i j xs = xs[i := xs ! j, j := xs ! i]"

text \<open>\<^verbatim>\<open>for i := n - 1; i > 0; i--\<close>: draw \<open>j\<close> below \<open>i + 1\<close> and swap.\<close>

fun shuffleLoop :: "(nat \<Rightarrow> int \<Rightarrow> int) \<Rightarrow> nat \<Rightarrow> 'a list \<Rightarrow> 'a list" where
  "shuffleLoop rnd 0 xs = xs"
| "shuffleLoop rnd (Suc i) xs =
     shuffleLoop rnd i (swap (Suc i) (nat (randomIntn (rnd (Suc i)) (int (Suc i) + 1))) xs)"

definition randomShuffle :: "(nat \<Rightarrow> int \<Rightarrow> int) \<Rightarrow> 'a list \<Rightarrow> 'a list" where
  "randomShuffle rnd xs = (if length xs \<le> 1 then xs else shuffleLoop rnd (length xs - 1) xs)"

text \<open>The captured variables of a pop: the result and the number of the attempt.\<close>

definition spopPick ::
  "'t txn_ops \<Rightarrow> bytes \<Rightarrow> u64 \<Rightarrow> nat \<Rightarrow> int \<Rightarrow> (bytes \<times> item) list \<Rightarrow> ('t, bytes \<times> nat) tx" where
  "spopPick B key cnt i n its =
     (if 0 \<le> n \<and> n < int (length its)
      then let k = fst (its ! nat n)
           in andThen (Delete B k)
               (andThen (Set B (countKey key) (Uint64ToBytes (cnt - 1)))
                 (ret (drop (length (memberPrefix key)) k, i)))
      else ret ([], i))"

definition spopBody :: "(nat \<Rightarrow> int \<Rightarrow> int) \<Rightarrow> 't txn_ops \<Rightarrow> bytes \<Rightarrow> ('t, bytes \<times> nat) body" where
  "spopBody seed B key c =
     (let i = Suc (snd c); p = memberPrefix key
      in bnd (lookupValue B (countKey key)) (\<lambda>r. case r of
           None \<Rightarrow> ret ([], i)
         | Some countBytes \<Rightarrow>
             let cnt = BytesToUint64 countBytes
             in if cnt = 0 then ret ([], i)
                else let targetIndex = randomIntn (seed (snd c)) (sint cnt)
                     in if word_of_int targetIndex < cnt div 2
                        then bnd (iterPrefix B False p p) (spopPick B key cnt i targetIndex)
                        else bnd (iterPrefix B True (p @ [CHR 0xFF]) p)
                               (spopPick B key cnt i (sint cnt - 1 - targetIndex))))"

definition spopLog :: "bytes \<Rightarrow> bytes \<times> nat \<Rightarrow> bytes" where
  "spopLog key c =
     (if fst c = [] then noopLogValue else encodePropagateCommand [''SREM'', key, fst c])"

definition SPop ::
  "(nat \<Rightarrow> int \<Rightarrow> int) \<Rightarrow> run_env \<Rightarrow> 't txn_ops \<Rightarrow> ('d, 't) db_ops \<Rightarrow> bytes \<Rightarrow> 'd store
   \<Rightarrow> (go_error + unit) \<times> bytes \<times> 'd store" where
  "SPop seed E B D key st =
     (case retryUpdateLazy E B D (spopBody seed B key) 30 (spopLog key) ([], 0) st of
        (r, (member, n), st') \<Rightarrow> (r, member, st'))"

definition spopnBody ::
  "(nat \<Rightarrow> nat \<Rightarrow> int \<Rightarrow> int) \<Rightarrow> 't txn_ops \<Rightarrow> bytes \<Rightarrow> int \<Rightarrow> ('t, bytes list \<times> nat) body" where
  "spopnBody seed B key cnt c =
     bnd (getAllMembers B key) (\<lambda>allMembers.
       if allMembers = [] then ret ([], Suc (snd c))
       else let popCount = max 0 (min cnt (int (length allMembers)));
                members = take (nat popCount) (randomShuffle (seed (snd c)) allMembers)
            in andThen (forEach (\<lambda>member. Delete B (memberKey key member)) members)
                (andThen
                  (if popCount > 0 then
                     bnd (tryGet B (countKey key)) (\<lambda>r. case r of
                        Inl e \<Rightarrow> ret ()
                      | Inr item \<Rightarrow> bnd (ValueCopy B item) (\<lambda>countBytes.
                          let currentCount = BytesToUint64 countBytes
                          in if word_of_int popCount \<le> currentCount
                             then Set B (countKey key) (Uint64ToBytes (currentCount - word_of_int popCount))
                             else ret ()))
                   else ret ())
                  (ret (members, Suc (snd c)))))"

definition spopnLog :: "bytes \<Rightarrow> bytes list \<times> nat \<Rightarrow> bytes" where
  "spopnLog key c =
     (if fst c = [] then noopLogValue else encodePropagateCommand (''SREM'' # key # fst c))"

definition SPopN ::
  "(nat \<Rightarrow> nat \<Rightarrow> int \<Rightarrow> int) \<Rightarrow> run_env \<Rightarrow> 't txn_ops \<Rightarrow> ('d, 't) db_ops \<Rightarrow> bytes \<Rightarrow> int \<Rightarrow> 'd store
   \<Rightarrow> (go_error + unit) \<times> bytes list \<times> 'd store" where
  "SPopN seed E B D key cnt st =
     (case retryUpdateLazy E B D (spopnBody seed B key cnt) 30 (spopnLog key) ([], 0) st of
        (r, (members, n), st') \<Rightarrow> (r, members, st'))"

text \<open>A reservoir of size one: the \<open>i\<close>-th member replaces the choice when the draw is 0.\<close>

fun reservoir :: "(nat \<Rightarrow> int \<Rightarrow> int) \<Rightarrow> nat \<Rightarrow> bytes option \<Rightarrow> bytes list \<Rightarrow> bytes option" where
  "reservoir rnd i found [] = found"
| "reservoir rnd i found (m # ms) =
     (case found of
        None \<Rightarrow> reservoir rnd (Suc i) (Some m) ms
      | Some c \<Rightarrow> reservoir rnd (Suc i) (Some (if randomIntn (rnd i) (int i + 1) = 0 then m else c)) ms)"

definition SRandMember ::
  "(nat \<Rightarrow> int \<Rightarrow> int) \<Rightarrow> 't txn_ops \<Rightarrow> ('d, 't) db_ops \<Rightarrow> bytes \<Rightarrow> 'd store \<Rightarrow> go_error + bytes" where
  "SRandMember rnd B D key st = View D (bnd (getAllMembers B key) (\<lambda>ms.
     ret (case reservoir rnd 0 None ms of None \<Rightarrow> [] | Some m \<Rightarrow> m))) st"

definition SRandMemberN ::
  "(nat \<Rightarrow> int \<Rightarrow> int) \<Rightarrow> 't txn_ops \<Rightarrow> ('d, 't) db_ops \<Rightarrow> bytes \<Rightarrow> int \<Rightarrow> 'd store \<Rightarrow> go_error + bytes list" where
  "SRandMemberN rnd B D key cnt st = View D (bnd (getAllMembers B key) (\<lambda>allMembers.
     if allMembers = [] then ret []
     else let n = (if cnt < 0 then i64 (- cnt) else cnt)
          in ret (map (\<lambda>i. allMembers ! nat (randomIntn (rnd i) (int (length allMembers)))) [0..<nat n]))) st"

section \<open>SMOVE\<close>

definition smoveBody :: "'t txn_ops \<Rightarrow> bytes \<Rightarrow> bytes \<Rightarrow> bytes \<Rightarrow> ('t, bool) body" where
  "smoveBody B source destination member c =
     bnd (lookup B (memberKey source member)) (\<lambda>r. case r of
        None \<Rightarrow> ret False
      | Some i \<Rightarrow>
          bnd (tryGet B (memberKey destination member)) (\<lambda>inDest.
          andThen (Delete B (memberKey source member))
          (bnd (tryGet B (countKey source)) (\<lambda>sc.
          andThen
           (case sc of
              Inl e \<Rightarrow> ret ()
            | Inr item \<Rightarrow> bnd (ValueCopy B item) (\<lambda>countBytes.
                let cnt = BytesToUint64 countBytes
                in if cnt > 0 then Set B (countKey source) (Uint64ToBytes (cnt - 1)) else ret ()))
          (andThen
           (case inDest of
              Inr item \<Rightarrow> ret ()
            | Inl e \<Rightarrow>
                andThen (Set B (TypeOfKeyGet destination) KeyTypeSet)
                (andThen (Set B (memberKey destination member) [])
                (bnd (tryGet B (countKey destination)) (\<lambda>dc.
                 bnd (case dc of Inl e \<Rightarrow> ret 0
                      | Inr item \<Rightarrow> bnd (ValueCopy B item) (\<lambda>b. ret (BytesToUint64 b))) (\<lambda>destCount.
                 Set B (countKey destination) (Uint64ToBytes (destCount + 1)))))))
           (ret True))))))"

definition SMove ::
  "run_env \<Rightarrow> 't txn_ops \<Rightarrow> ('d, 't) db_ops \<Rightarrow> bytes \<Rightarrow> bytes \<Rightarrow> bytes \<Rightarrow> 'd store
   \<Rightarrow> (go_error + unit) \<times> bool \<times> 'd store" where
  "SMove E B D source destination member st =
     retryUpdate E B D (smoveBody B source destination member) 30
       [encodePropagateCommand [''SMOVE'', source, destination, member]] False st"

section \<open>Set algebra\<close>

fun inAll :: "'t txn_ops \<Rightarrow> bytes \<Rightarrow> bytes list \<Rightarrow> ('t, bool) tx" where
  "inAll B member [] = ret True"
| "inAll B member (key # keys) = bnd (lookup B (memberKey key member)) (\<lambda>r.
     if r = None then ret False else inAll B member keys)"

fun interLoop :: "'t txn_ops \<Rightarrow> bytes list \<Rightarrow> bytes list \<Rightarrow> ('t, bytes list) tx" where
  "interLoop B keys [] = ret []"
| "interLoop B keys (member # members) = bnd (inAll B member keys) (\<lambda>b.
     bnd (interLoop B keys members) (\<lambda>result. ret (if b then member # result else result)))"

definition sinterTx :: "'t txn_ops \<Rightarrow> bytes list \<Rightarrow> ('t, bytes list) tx" where
  "sinterTx B keys = (case keys of
      [] \<Rightarrow> ret []
    | key # rest \<Rightarrow> bnd (getAllMembers B key) (interLoop B rest))"

text \<open>The map \<^verbatim>\<open>seen\<close> holds exactly the members of the result so far.\<close>

definition addNew :: "bytes list \<Rightarrow> bytes list \<Rightarrow> bytes list" where
  "addNew result members = foldl (\<lambda>r m. if m \<in> set r then r else r @ [m]) result members"

fun unionLoop :: "'t txn_ops \<Rightarrow> bytes list \<Rightarrow> bytes list \<Rightarrow> ('t, bytes list) tx" where
  "unionLoop B [] result = ret result"
| "unionLoop B (key # keys) result =
     bnd (getAllMembers B key) (\<lambda>members. unionLoop B keys (addNew result members))"

definition sunionTx :: "'t txn_ops \<Rightarrow> bytes list \<Rightarrow> ('t, bytes list) tx" where
  "sunionTx B keys = unionLoop B keys []"

fun collect :: "'t txn_ops \<Rightarrow> bytes list \<Rightarrow> ('t, bytes list) tx" where
  "collect B [] = ret []"
| "collect B (key # keys) = bnd (getAllMembers B key) (\<lambda>members.
     bnd (collect B keys) (\<lambda>others. ret (members @ others)))"

definition sdiffTx :: "'t txn_ops \<Rightarrow> bytes list \<Rightarrow> ('t, bytes list) tx" where
  "sdiffTx B keys = (case keys of
      [] \<Rightarrow> ret []
    | key # rest \<Rightarrow> bnd (getAllMembers B key) (\<lambda>firstMembers.
        bnd (collect B rest) (\<lambda>otherMembers. ret (filter (\<lambda>m. m \<notin> set otherMembers) firstMembers))))"

definition SInter :: "'t txn_ops \<Rightarrow> ('d, 't) db_ops \<Rightarrow> bytes list \<Rightarrow> 'd store \<Rightarrow> go_error + bytes list" where
  "SInter B D keys st = View D (sinterTx B keys) st"

definition SUnion :: "'t txn_ops \<Rightarrow> ('d, 't) db_ops \<Rightarrow> bytes list \<Rightarrow> 'd store \<Rightarrow> go_error + bytes list" where
  "SUnion B D keys st = View D (sunionTx B keys) st"

definition SDiff :: "'t txn_ops \<Rightarrow> ('d, 't) db_ops \<Rightarrow> bytes list \<Rightarrow> 'd store \<Rightarrow> go_error + bytes list" where
  "SDiff B D keys st = View D (sdiffTx B keys) st"

definition storeResult :: "'t txn_ops \<Rightarrow> bytes \<Rightarrow> bytes list \<Rightarrow> ('t, int) tx" where
  "storeResult B destination result =
     bnd (getAllMembers B destination) (\<lambda>existingMembers.
     andThen (forEach (\<lambda>member. Delete B (memberKey destination member)) existingMembers)
     (andThen
       (if result \<noteq> [] then
          andThen (Set B (TypeOfKeyGet destination) KeyTypeSet)
            (forEach (\<lambda>member. Set B (memberKey destination member) []) result)
        else ret ())
     (andThen (Set B (countKey destination) (Uint64ToBytes (word_of_nat (length result))))
       (ret (int (length result))))))"

definition SInterStore ::
  "run_env \<Rightarrow> 't txn_ops \<Rightarrow> ('d, 't) db_ops \<Rightarrow> bytes \<Rightarrow> bytes list \<Rightarrow> 'd store
   \<Rightarrow> (go_error + unit) \<times> int \<times> 'd store" where
  "SInterStore E B D destination keys st =
     retryUpdate E B D (\<lambda>_. bnd (sinterTx B keys) (storeResult B destination)) 30
       [encodePropagateStringArgs ''SINTERSTORE'' (destination # keys)] 0 st"

definition SUnionStore ::
  "run_env \<Rightarrow> 't txn_ops \<Rightarrow> ('d, 't) db_ops \<Rightarrow> bytes \<Rightarrow> bytes list \<Rightarrow> 'd store
   \<Rightarrow> (go_error + unit) \<times> int \<times> 'd store" where
  "SUnionStore E B D destination keys st =
     retryUpdate E B D (\<lambda>_. bnd (sunionTx B keys) (storeResult B destination)) 30
       [encodePropagateStringArgs ''SUNIONSTORE'' (destination # keys)] 0 st"

definition SDiffStore ::
  "run_env \<Rightarrow> 't txn_ops \<Rightarrow> ('d, 't) db_ops \<Rightarrow> bytes \<Rightarrow> bytes list \<Rightarrow> 'd store
   \<Rightarrow> (go_error + unit) \<times> int \<times> 'd store" where
  "SDiffStore E B D destination keys st =
     retryUpdate E B D (\<lambda>_. bnd (sdiffTx B keys) (storeResult B destination)) 30
       [encodePropagateStringArgs ''SDIFFSTORE'' (destination # keys)] 0 st"

text \<open>The count stops at \<open>limit\<close> when that is positive.\<close>

fun cardLoop :: "'t txn_ops \<Rightarrow> int \<Rightarrow> bytes list \<Rightarrow> bytes list \<Rightarrow> int \<Rightarrow> ('t, int) tx" where
  "cardLoop B limit keys [] cnt = ret cnt"
| "cardLoop B limit keys (member # members) cnt = bnd (inAll B member keys) (\<lambda>b.
     if b then (if limit > 0 \<and> cnt + 1 \<ge> limit then ret (cnt + 1)
                else cardLoop B limit keys members (cnt + 1))
     else cardLoop B limit keys members cnt)"

definition SInterCardWithLimit ::
  "'t txn_ops \<Rightarrow> ('d, 't) db_ops \<Rightarrow> int \<Rightarrow> bytes list \<Rightarrow> 'd store \<Rightarrow> go_error + int" where
  "SInterCardWithLimit B D limit keys st = View D (case keys of
      [] \<Rightarrow> ret 0
    | key # rest \<Rightarrow> bnd (getAllMembers B key) (\<lambda>firstMembers. cardLoop B limit rest firstMembers 0)) st"

definition SInterCard :: "'t txn_ops \<Rightarrow> ('d, 't) db_ops \<Rightarrow> bytes list \<Rightarrow> 'd store \<Rightarrow> go_error + int" where
  "SInterCard B D keys st = SInterCardWithLimit B D 0 keys st"

section \<open>The set behind the records\<close>

definition members :: "(bytes \<rightharpoonup> item) \<Rightarrow> bytes \<Rightarrow> bytes set" where
  "members m key = {x. m (memberKey key x) \<noteq> None}"

definition set_count :: "(bytes \<rightharpoonup> item) \<Rightarrow> bytes \<Rightarrow> u64" where
  "set_count m key = (case m (countKey key) of None \<Rightarrow> 0 | Some i \<Rightarrow> BytesToUint64 (ival i))"

text \<open>The invariant: the counter is the number of members (modulo \<open>2 ^ 64\<close>).\<close>

definition set_inv :: "(bytes \<rightharpoonup> item) \<Rightarrow> bytes \<Rightarrow> bool" where
  "set_inv m key \<longleftrightarrow> set_count m key = word_of_nat (card (members m key))"

definition set_typed :: "(bytes \<rightharpoonup> item) \<Rightarrow> bytes \<Rightarrow> bool" where
  "set_typed m key \<longleftrightarrow> (case m (TypeOfKeyGet key) of None \<Rightarrow> True | Some i \<Rightarrow> ival i = [] \<or> ival i = KeyTypeSet)"

lemma memberKey_eq: "memberKey key x = memberPrefix key @ x"
  by (simp add: memberKey_def memberPrefix_def setKey_def)

lemma memberKey_inj [simp]: "memberKey key x = memberKey key y \<longleftrightarrow> x = y"
  by (simp add: memberKey_eq)

lemma memberKey_prefix [simp]: "prefix (memberPrefix key) (memberKey key x)"
  by (simp add: memberKey_eq)

lemma drop_memberPrefix [simp]: "drop (length (memberPrefix key)) (memberKey key x) = x"
  by (simp add: memberKey_eq)

lemma set_keys_neq [simp]:
  "memberKey key x \<noteq> countKey key" "countKey key \<noteq> memberKey key x"
  "memberKey key x \<noteq> TypeOfKeyGet k" "TypeOfKeyGet k \<noteq> memberKey key x"
  "countKey key \<noteq> TypeOfKeyGet k" "TypeOfKeyGet k \<noteq> countKey key"
  by (simp_all add: memberKey_def countKey_def setKey_def TypeOfKeyGet_def)

lemma set_keys_log [simp]: "\<not> prefix replLogPrefix (memberKey key x)" "\<not> prefix replLogPrefix (countKey key)"
  by (simp_all add: memberKey_def countKey_def)

interpretation sc: counted "memberKey key" "countKey key" "\<lambda>_. True"
  rewrites "counted.elems (memberKey key) (\<lambda>_. True) m = members m key"
    and "counted.counter (countKey key) m = set_count m key"
    and "counted.count_ok (memberKey key) (countKey key) (\<lambda>_. True) m = set_inv m key"
  for key m
proof -
  show "counted (memberKey key) (countKey key) (\<lambda>_. True)" by unfold_locales simp_all
  then show "counted.elems (memberKey key) (\<lambda>_. True) m = members m key"
    "counted.counter (countKey key) m = set_count m key"
    by (simp_all add: counted.elems_def counted.counter_def members_def set_count_def)
  with \<open>counted _ _ _\<close> show "counted.count_ok (memberKey key) (countKey key) (\<lambda>_. True) m = set_inv m key"
    by (simp add: counted.count_ok_def set_inv_def)
qed

lemma members_type [simp]: "members (m(TypeOfKeyGet k := v)) key = members m key"
  "set_count (m(TypeOfKeyGet k := v)) key = set_count m key"
  by (simp_all add: members_def set_count_def)

text \<open>A scan of the member records lists the members in byte order.\<close>

lemma scan_members:
  assumes "finite (dom m)"
  shows "scan_prefix m (memberPrefix key) = map (memberKey key) (sorted_list_of_set (members m key))"
proof -
  have "{x \<in> dom m. prefix (memberPrefix key) x} = memberKey key ` members m key"
    by (auto simp: members_def prefix_def memberKey_eq)
  moreover have "memberKey key x < memberKey key y \<longleftrightarrow> x < y" for x y
    by (simp add: memberKey_eq append_less_iff)
  ultimately show ?thesis
    using sorted_list_of_set_image_mono [of "memberKey key" "members m key"] sc.finite_elems [OF assms]
    by (simp add: scan_prefix_def)
qed

lemma owned [simp]: "owns key KeyTypeSet (memberKey key x)" "owns key KeyTypeSet (countKey key)"
  "owns key KeyTypeSet (TypeOfKeyGet key)"
  by (simp_all add: owns_def memberKey_def countKey_def setKey_def)

lemma not_owned:
  assumes "\<not> owns key KeyTypeSet k"
  shows "\<not> prefix (memberPrefix key) k" "k \<noteq> countKey key" "k \<noteq> TypeOfKeyGet key"
  using assms by (auto simp: owns_def memberPrefix_def countKey_def setKey_def prefix_def)

context badger_txn
begin

lemma finite_members: "finite (members (view t) key)"
  by (rule sc.finite_elems [OF finite_view])

lemma getAllMembers_run [txn_simps]:
  "getAllMembers B key t = Inr (sorted_list_of_set (members (view t) key), t)"
  by (simp add: getAllMembers_def bnd_def iterPrefix_keys scan_members [OF finite_view] comp_def)

lemma checkSetType_run [txn_simps]:
  "checkSetType B key t = (if set_typed (view t) key then Inr ((), t) else Inl ErrWrongType)"
  by (simp add: checkSetType_def bnd_def txn_simps set_typed_def split: option.splits)

lemma readCount_run [txn_simps]: "readCount B (countKey key) t = Inr (set_count (view t) key, t)"
  by (simp add: readCount_def bnd_def txn_simps set_count_def split: option.splits)

lemma saddLoop_run:
  "\<exists>t'. saddLoop B key ms cnt added t =
      Inr ((cnt + word_of_nat (card (set ms - members (view t) key)),
            added + int (card (set ms - members (view t) key))), t')
    \<and> members (view t') key = members (view t) key \<union> set ms
    \<and> (\<forall>k. \<not> prefix (memberPrefix key) k \<longrightarrow> view t' k = view t k)"
proof (induction ms arbitrary: t cnt added)
  case (Cons m ms)
  show ?case
  proof (cases "m \<in> members (view t) key")
    case True
    then have "saddLoop B key (m # ms) cnt added t = saddLoop B key ms cnt added t"
      "set (m # ms) - members (view t) key = set ms - members (view t) key"
      by (auto simp: members_def bnd_def txn_simps)
    then show ?thesis using Cons.IH [of cnt added t] True by auto
  next
    case False
    let ?t = "upd t (memberKey key m) (Some \<lparr>ival = [], iexp = 0\<rparr>)"
    have run: "saddLoop B key (m # ms) cnt added t = saddLoop B key ms (cnt + 1) (added + 1) ?t"
      using False by (simp add: members_def bnd_def andThen_def txn_simps)
    have mem: "members (view ?t) key = insert m (members (view t) key)" by (simp add: view_upd)
    have "set (m # ms) - members (view t) key = insert m (set ms - members (view ?t) key)"
      using False mem by auto
    then have card: "card (set (m # ms) - members (view t) key) = Suc (card (set ms - members (view ?t) key))"
      using mem by simp
    have frame: "view ?t k = view t k" if "\<not> prefix (memberPrefix key) k" for k
      using that by (auto simp: view_upd)
    from Cons.IH [of "cnt + 1" "added + 1" ?t] show ?thesis
      unfolding run card by (elim exE) (intro exI, use mem frame in auto)
  qed
qed simp

lemma sremLoop_run:
  "\<exists>t'. sremLoop B key ms cnt removed t =
      Inr ((cnt - word_of_nat (card (set ms \<inter> members (view t) key)),
            removed + int (card (set ms \<inter> members (view t) key))), t')
    \<and> members (view t') key = members (view t) key - set ms
    \<and> (\<forall>k. \<not> prefix (memberPrefix key) k \<longrightarrow> view t' k = view t k)"
proof (induction ms arbitrary: t cnt removed)
  case (Cons m ms)
  show ?case
  proof (cases "m \<in> members (view t) key")
    case False
    then have "sremLoop B key (m # ms) cnt removed t = sremLoop B key ms cnt removed t"
      "set (m # ms) \<inter> members (view t) key = set ms \<inter> members (view t) key"
      by (auto simp: members_def bnd_def txn_simps)
    then show ?thesis using Cons.IH [of cnt removed t] False by auto
  next
    case True
    let ?t = "upd t (memberKey key m) None"
    have run: "sremLoop B key (m # ms) cnt removed t = sremLoop B key ms (cnt - 1) (removed + 1) ?t"
      using True by (auto simp: members_def bnd_def andThen_def txn_simps split: option.splits)
    have mem: "members (view ?t) key = members (view t) key - {m}" by (simp add: view_upd)
    have "set (m # ms) \<inter> members (view t) key = insert m (set ms \<inter> members (view ?t) key)"
      using True mem by auto
    then have card: "card (set (m # ms) \<inter> members (view t) key) = Suc (card (set ms \<inter> members (view ?t) key))"
      using mem by simp
    have frame: "view ?t k = view t k" if "\<not> prefix (memberPrefix key) k" for k
      using that by (auto simp: view_upd)
    from Cons.IH [of "cnt - 1" "removed + 1" ?t] show ?thesis
      unfolding run card by (elim exE) (intro exI, use mem frame in \<open>auto simp: algebra_simps\<close>)
  qed
qed simp

lemma members_frame:
  assumes "\<And>k. \<not> prefix (memberPrefix key) k \<Longrightarrow> m' k = m k"
  shows "set_count m' key = set_count m key" "m' (TypeOfKeyGet k) = m (TypeOfKeyGet k)"
proof -
  have "\<not> prefix (memberPrefix key) (countKey key)" "\<not> prefix (memberPrefix key) (TypeOfKeyGet k)"
    by (simp_all add: memberPrefix_def countKey_def setKey_def TypeOfKeyGet_def)
  then show "set_count m' key = set_count m key" "m' (TypeOfKeyGet k) = m (TypeOfKeyGet k)"
    using assms by (simp_all add: set_count_def)
qed

text \<open>The body of \<^verbatim>\<open>SADD\<close> on a set that satisfies the invariant: outside the records of the set only the
  type record may change.\<close>

lemma saddBody_run:
  assumes "set_typed (view t) key" "set_inv (view t) key"
  shows "\<exists>t'. saddBody B key ms c t = Inr (int (card (set ms - members (view t) key)), t')
    \<and> members (view t') key = members (view t) key \<union> set ms \<and> set_inv (view t') key
    \<and> view t' (TypeOfKeyGet key) = Some \<lparr>ival = KeyTypeSet, iexp = 0\<rparr>
    \<and> (\<forall>k. \<not> owns key KeyTypeSet k \<longrightarrow> view t' k = view t k)"
proof -
  let ?N = "set ms - members (view t) key" and ?tk = "TypeOfKeyGet key"
  let ?t1 = "upd t ?tk (Some \<lparr>ival = KeyTypeSet, iexp = 0\<rparr>)"
  have v1: "members (view ?t1) key = members (view t) key" "set_count (view ?t1) key = set_count (view t) key"
    by (simp_all add: view_upd)
  obtain t2 where t2: "saddLoop B key ms (set_count (view t) key) 0 ?t1 =
      Inr ((set_count (view t) key + word_of_nat (card ?N), int (card ?N)), t2)"
    "members (view t2) key = members (view t) key \<union> set ms"
    "\<And>k. \<not> prefix (memberPrefix key) k \<Longrightarrow> view t2 k = view ?t1 k"
    using saddLoop_run [of key ms "set_count (view t) key" 0 ?t1] v1 by auto
  define t3 where "t3 = (if ?N = {} then t2 else
    upd t2 (countKey key) (Some \<lparr>ival = Uint64ToBytes (set_count (view t) key + word_of_nat (card ?N)), iexp = 0\<rparr>))"
  have run: "saddBody B key ms c t = Inr (int (card ?N), t3)"
    using assms(1) t2(1) v1 by (auto simp: saddBody_def andThen_def bnd_def txn_simps t3_def card_gt_0_iff)
  have "card (members (view t) key \<union> set ms) = card (members (view t) key) + card ?N"
    using card_Un_disjoint [of "members (view t) key" ?N] finite_members [of t key] by auto
  then have cnt: "word_of_nat (card (members (view t) key \<union> set ms)) = set_count (view t) key + word_of_nat (card ?N)"
    using assms(2) by (simp add: set_inv_def)
  have "set_inv (view t3) key"
  proof (cases "?N = {}")
    case True
    then have "set_count (view t2) key = set_count (view t) key" "members (view t2) key = members (view t) key"
      using members_frame(1) [OF t2(3)] v1(2) t2(2) by auto
    with assms(2) True show ?thesis by (simp add: t3_def set_inv_def)
  next
    case False
    then show ?thesis using cnt t2(2) by (simp add: t3_def view_upd sc.count_ok_set)
  qed
  moreover have "members (view t3) key = members (view t) key \<union> set ms" using t2(2) by (simp add: t3_def view_upd)
  moreover have "view t3 ?tk = Some \<lparr>ival = KeyTypeSet, iexp = 0\<rparr>"
    using members_frame(2) [where m' = "view t2" and m = "view ?t1" and k = key, OF t2(3)] by (simp add: t3_def view_upd)
  moreover have "view t3 k = view t k" if "\<not> owns key KeyTypeSet k" for k
    using t2(3) [of k] not_owned [OF that] by (simp add: t3_def view_upd)
  ultimately show ?thesis using run by blast
qed

lemma sremBody_run:
  assumes "set_typed (view t) key" "set_inv (view t) key"
  shows "\<exists>t'. sremBody B key ms c t = Inr (int (card (set ms \<inter> members (view t) key)), t')
    \<and> members (view t') key = members (view t) key - set ms \<and> set_inv (view t') key
    \<and> (\<forall>k. k = TypeOfKeyGet key \<or> \<not> owns key KeyTypeSet k \<longrightarrow> view t' k = view t k)"
proof -
  let ?N = "set ms \<inter> members (view t) key"
  obtain t2 where t2: "sremLoop B key ms (set_count (view t) key) 0 t =
      Inr ((set_count (view t) key - word_of_nat (card ?N), int (card ?N)), t2)"
    "members (view t2) key = members (view t) key - set ms"
    "\<And>k. \<not> prefix (memberPrefix key) k \<Longrightarrow> view t2 k = view t k"
    using sremLoop_run [of key ms "set_count (view t) key" 0 t] by auto
  define t3 where "t3 = (if ?N = {} then t2 else
    upd t2 (countKey key) (Some \<lparr>ival = Uint64ToBytes (set_count (view t) key - word_of_nat (card ?N)), iexp = 0\<rparr>))"
  have run: "sremBody B key ms c t = Inr (int (card ?N), t3)"
    using assms(1) t2(1) by (auto simp: sremBody_def andThen_def bnd_def txn_simps t3_def card_gt_0_iff)
  have "members (view t) key = (members (view t) key - set ms) \<union> ?N" by blast
  then have "card (members (view t) key) = card (members (view t) key - set ms) + card ?N"
    using card_Un_disjoint [of "members (view t) key - set ms" ?N] finite_members [of t key] by auto
  then have cnt: "word_of_nat (card (members (view t) key - set ms)) = set_count (view t) key - word_of_nat (card ?N)"
    using assms(2) by (simp add: set_inv_def)
  have "set_inv (view t3) key"
  proof (cases "?N = {}")
    case True
    then have "members (view t) key - set ms = members (view t) key" by auto
    then show ?thesis
      using members_frame(1) [OF t2(3)] t2(2) True assms(2) by (simp add: t3_def set_inv_def)
  next
    case False
    then show ?thesis using cnt t2(2) by (simp add: t3_def view_upd sc.count_ok_set)
  qed
  moreover have "members (view t3) key = members (view t) key - set ms" using t2(2) by (simp add: t3_def view_upd)
  moreover have "view t3 k = view t k" if "k = TypeOfKeyGet key \<or> \<not> owns key KeyTypeSet k" for k
    using that t2(3) [of k] not_owned [of key k] members_frame(2) [where m' = "view t2" and m = "view t" and k = key, OF t2(3)]
    by (auto simp: t3_def view_upd)
  ultimately show ?thesis using run by blast
qed

lemma set_body_wrongtype:
  assumes "\<not> set_typed (view t) key"
  shows "saddBody B key ms c t = Inl ErrWrongType" "sremBody B key ms c t = Inl ErrWrongType"
  using assms by (simp_all add: saddBody_def sremBody_def andThen_def bnd_def txn_simps)

lemma regular_set_bodies [simp, intro]:
  "regular (checkSetType B key)" "regular (readCount B k)" "regular (getAllMembers B key)"
  "regular (saddLoop B key ms cnt added)" "regular (sremLoop B key ms cnt added)"
proof -
  show "regular (saddLoop B key ms cnt added)"
    by (induction ms arbitrary: cnt added) (auto intro!: regular_bnd regular_branches)
  show "regular (sremLoop B key ms cnt added)"
    by (induction ms arbitrary: cnt added) (auto intro!: regular_bnd regular_branches)
qed (auto simp: checkSetType_def readCount_def getAllMembers_def intro!: regular_bnd regular_branches)

lemma regular_saddBody [simp, intro]: "regular (saddBody B key ms c)" "regular (sremBody B key ms c)"
  unfolding saddBody_def sremBody_def
  by (auto intro!: regular_bnd regular_andThen regular_branches)

end

text \<open>Set algebra on the members, in byte order.\<close>

definition inter_list :: "(bytes \<rightharpoonup> item) \<Rightarrow> bytes list \<Rightarrow> bytes list" where
  "inter_list m keys = (case keys of [] \<Rightarrow> []
     | k # ks \<Rightarrow> sorted_list_of_set {x \<in> members m k. list_all (\<lambda>k. x \<in> members m k) ks})"

definition diff_list :: "(bytes \<rightharpoonup> item) \<Rightarrow> bytes list \<Rightarrow> bytes list" where
  "diff_list m keys = (case keys of [] \<Rightarrow> []
     | k # ks \<Rightarrow> sorted_list_of_set {x \<in> members m k. list_all (\<lambda>k. x \<notin> members m k) ks})"

lemma filter_sorted_list_of_set:
  "finite S \<Longrightarrow> filter P (sorted_list_of_set S) = sorted_list_of_set {x \<in> S. P x}"
  by (rule sorted_distinct_set_unique) (auto simp: sorted_wrt_filter)

lemma addNew_props:
  "distinct r \<Longrightarrow> distinct (addNew r ms)" "set (addNew r ms) = set r \<union> set ms"
proof -
  show "set (addNew r ms) = set r \<union> set ms"
    unfolding addNew_def by (induction ms arbitrary: r) auto
  show "distinct r \<Longrightarrow> distinct (addNew r ms)"
    unfolding addNew_def by (induction ms arbitrary: r) auto
qed

context badger_txn
begin

lemma inAll_run [txn_simps]: "inAll B x keys t = Inr (list_all (\<lambda>k. x \<in> members (view t) k) keys, t)"
  by (induction keys) (auto simp: bnd_def txn_simps members_def)

lemma interLoop_run [txn_simps]:
  "interLoop B keys ms t = Inr (filter (\<lambda>x. list_all (\<lambda>k. x \<in> members (view t) k) keys) ms, t)"
  by (induction ms) (simp_all add: bnd_def txn_simps)

lemma sinterTx_run [txn_simps]: "sinterTx B keys t = Inr (inter_list (view t) keys, t)"
  by (cases keys)
    (simp_all add: sinterTx_def inter_list_def bnd_def txn_simps filter_sorted_list_of_set finite_members)

lemma unionLoop_run:
  "\<exists>us. unionLoop B keys r t = Inr (us, t) \<and> set us = set r \<union> (\<Union>k \<in> set keys. members (view t) k)
     \<and> (distinct r \<longrightarrow> distinct us)"
proof (induction keys arbitrary: r)
  case (Cons k ks)
  show ?case
    using Cons.IH [of "addNew r (sorted_list_of_set (members (view t) k))"]
    by (auto simp: bnd_def txn_simps addNew_props finite_members)
qed simp

lemma collect_run:
  "\<exists>os. collect B keys t = Inr (os, t) \<and> set os = (\<Union>k \<in> set keys. members (view t) k)"
proof (induction keys)
  case (Cons k ks)
  then obtain os where "collect B ks t = Inr (os, t)" "set os = (\<Union>k \<in> set ks. members (view t) k)" by blast
  then show ?case
    by (intro exI [of _ "sorted_list_of_set (members (view t) k) @ os"]) (simp add: bnd_def txn_simps finite_members)
qed simp

lemma sdiffTx_run [txn_simps]: "sdiffTx B keys t = Inr (diff_list (view t) keys, t)"
proof (cases keys)
  case (Cons k ks)
  obtain os where os: "collect B ks t = Inr (os, t)" "set os = (\<Union>k \<in> set ks. members (view t) k)"
    using collect_run [of ks t] by (elim exE conjE)
  have "sdiffTx B keys t = Inr (filter (\<lambda>x. x \<notin> set os) (sorted_list_of_set (members (view t) k)), t)"
    by (simp add: sdiffTx_def Cons bnd_def getAllMembers_run os(1))
  also have "filter (\<lambda>x. x \<notin> set os) (sorted_list_of_set (members (view t) k)) =
      sorted_list_of_set {x \<in> members (view t) k. x \<notin> set os}"
    by (rule filter_sorted_list_of_set [OF finite_members])
  also have "{x \<in> members (view t) k. x \<notin> set os} = {x \<in> members (view t) k. list_all (\<lambda>k. x \<notin> members (view t) k) ks}"
    by (auto simp: list_all_iff os(2))
  finally show ?thesis by (simp only: diff_list_def Cons list.case)
qed (simp add: sdiffTx_def diff_list_def)

lemma cardLoop_run:
  assumes "0 \<le> c" "limit \<le> 0 \<or> c < limit"
  shows "cardLoop B limit keys ms c t = Inr (let n = c + int (length (filter (\<lambda>x. list_all (\<lambda>k. x \<in> members (view t) k) keys) ms))
     in if limit > 0 then min limit n else n, t)"
  using assms
proof (induction ms arbitrary: c)
  case (Cons x ms)
  then show ?case by (auto simp: bnd_def txn_simps Let_def)
qed (auto simp: Let_def)

end

text \<open>Walking backwards from a key with the prefix: what a reverse scan visits.\<close>

lemma takeWhile_prefix_desc:
  assumes "sorted (rev ys)" "\<forall>y \<in> set ys. y \<le> (e :: bytes)" "prefix p e"
  shows "takeWhile (prefix p) ys = filter (prefix p) ys"
  using assms(1,2)
proof (induction ys)
  case (Cons y ys)
  show ?case
  proof (cases "prefix p y")
    case False
    then have "\<not> p \<le> y" using prefix_convex [OF assms(3), of y] Cons.prems(2) by auto
    then have "y < p" by simp
    then have "\<not> prefix p z" if "z \<in> set ys" for z
      using that Cons.prems(1) prefix_ge [of p z] by (fastforce simp: sorted_append)
    then show ?thesis using False by simp
  qed (use Cons in \<open>simp add: sorted_append\<close>)
qed simp

lemma takeWhile_live_downto:
  assumes "finite (dom m)" "prefix p e"
  shows "map fst (takeWhile (\<lambda>x. prefix p (fst x)) (live_downto m e)) =
    rev (sorted_list_of_set {x \<in> dom m. prefix p x \<and> x \<le> e})"
proof -
  let ?ys = "rev (sorted_list_of_set {x \<in> dom m. x \<le> e})"
  have "map fst (takeWhile (\<lambda>x. prefix p (fst x)) (live_downto m e)) = takeWhile (prefix p) ?ys"
    by (simp add: live_downto_def takeWhile_map comp_def)
  also have "\<dots> = filter (prefix p) ?ys"
    by (rule takeWhile_prefix_desc [where e = e]) (use assms in auto)
  also have "\<dots> = rev (sorted_list_of_set {x \<in> dom m. x \<le> e \<and> prefix p x})"
    using filter_sorted_list_of_set [of "{x \<in> dom m. x \<le> e}" "prefix p"] assms(1) by (simp flip: rev_filter)
  finally show ?thesis by (simp add: conj_commute)
qed

context badger_txn
begin

lemma forEach_delMembers [txn_simps]:
  "forEach (\<lambda>x. Delete B (memberKey key x)) xs t = Inr ((), delKeys (map (memberKey key) xs) t)"
  unfolding delKeys_def
  by (induction xs arbitrary: t) (simp_all add: andThen_def bnd_def Delete_run)

lemma forEach_addMembers:
  "\<exists>t'. forEach (\<lambda>x. Set B (memberKey key x) []) xs t = Inr ((), t')
     \<and> members (view t') key = members (view t) key \<union> set xs
     \<and> (\<forall>k. \<not> prefix (memberPrefix key) k \<longrightarrow> view t' k = view t k)"
proof (induction xs arbitrary: t)
  case (Cons x xs)
  let ?t = "upd t (memberKey key x) (Some \<lparr>ival = [], iexp = 0\<rparr>)"
  have "forEach (\<lambda>x. Set B (memberKey key x) []) (x # xs) t = forEach (\<lambda>x. Set B (memberKey key x) []) xs ?t"
    by (simp add: andThen_def bnd_def txn_simps)
  moreover have "members (view ?t) key = insert x (members (view t) key)" by (simp add: view_upd)
  moreover have "view ?t k = view t k" if "\<not> prefix (memberPrefix key) k" for k
    using that by (auto simp: view_upd)
  ultimately show ?case using Cons.IH [of ?t] by auto
qed simp

lemma members_delKeys: "members (view (delKeys (map (memberKey key) xs) t)) key = members (view t) key - set xs"
  by (auto simp: members_def view_delKeys)

text \<open>Replacing the content of a set.\<close>

lemma storeResult_run:
  assumes "distinct result"
  shows "\<exists>t'. storeResult B dest result t = Inr (int (length result), t')
    \<and> members (view t') dest = set result \<and> set_inv (view t') dest
    \<and> (\<forall>k. \<not> owns dest KeyTypeSet k \<longrightarrow> view t' k = view t k)"
proof -
  let ?M = "members (view t) dest" and ?n = "word_of_nat (length result) :: u64"
  let ?t1 = "delKeys (map (memberKey dest) (sorted_list_of_set ?M)) t"
  let ?t2 = "upd ?t1 (TypeOfKeyGet dest) (Some \<lparr>ival = KeyTypeSet, iexp = 0\<rparr>)"
  have empty: "members (view ?t1) dest = {}" by (simp add: members_delKeys finite_members)
  have frame: "view ?t1 k = view t k" if "\<not> prefix (memberPrefix dest) k" for k
    using that by (auto simp: view_delKeys)
  obtain t3 where t3: "forEach (\<lambda>x. Set B (memberKey dest x) []) result ?t2 = Inr ((), t3)"
    "members (view t3) dest = set result" "\<And>k. \<not> prefix (memberPrefix dest) k \<Longrightarrow> view t3 k = view ?t2 k"
    using forEach_addMembers [of dest result ?t2] empty by (auto simp: view_upd)
  define t4 where "t4 = (if result = [] then ?t1 else t3)"
  have run: "storeResult B dest result t =
      Inr (int (length result), upd t4 (countKey dest) (Some \<lparr>ival = Uint64ToBytes ?n, iexp = 0\<rparr>))"
    using t3(1) by (simp add: storeResult_def andThen_def bnd_def txn_simps t4_def)
  have mem: "members (view t4) dest = set result" using t3(2) empty by (simp add: t4_def)
  have out: "view t4 k = view t k" if "\<not> owns dest KeyTypeSet k" for k
    using t3(3) [of k] frame [of k] not_owned [OF that] by (simp add: t4_def view_upd)
  show ?thesis
    using run mem out assms not_owned(2)
    by (intro exI [of _ "upd t4 (countKey dest) (Some \<lparr>ival = Uint64ToBytes ?n, iexp = 0\<rparr>)"])
      (auto simp: view_upd sc.count_ok_set distinct_card)
qed

end

lemma apart_set_keys:
  assumes "apart a b"
  shows "memberKey a x \<noteq> memberKey b y" "memberKey a x \<noteq> countKey b" "countKey a \<noteq> memberKey b y"
    "countKey a \<noteq> countKey b"
proof -
  have under: "prefix (KeyTypeSet @ '':'' @ k @ '':'') (memberKey k x)" "prefix (KeyTypeSet @ '':'' @ k @ '':'') (countKey k)" for k x
    by (simp_all add: memberKey_def countKey_def setKey_def)
  have "\<not> prefix (KeyTypeSet @ '':'' @ b @ '':'') (memberKey a x)" "\<not> prefix (KeyTypeSet @ '':'' @ b @ '':'') (countKey a)"
    using apart_under [OF assms, of "''SET:''"] under(1) [of a x] under(2) [of a] by auto
  then show "memberKey a x \<noteq> memberKey b y" "memberKey a x \<noteq> countKey b" "countKey a \<noteq> memberKey b y"
    "countKey a \<noteq> countKey b"
    using under(1) [of b y] under(2) [of b] by metis+
qed

lemma apart_members:
  assumes "apart a b"
  shows "members (m(memberKey a x := v)) b = members m b" "members (m(countKey a := v)) b = members m b"
    "set_count (m(memberKey a x := v)) b = set_count m b" "set_count (m(countKey a := v)) b = set_count m b"
  using apart_set_keys [OF apart_sym [OF assms]] by (simp_all add: members_def set_count_def)

lemma word_of_nat_pos: "0 < n \<Longrightarrow> n < 2 ^ 64 \<Longrightarrow> (0 :: u64) < word_of_nat n"
  by (simp add: word_gt_0 word_of_nat_eq_0_iff nat_dvd_not_less)

context badger_txn
begin

text \<open>Moving a member between sets that are apart.\<close>

lemma smoveBody_run:
  assumes "apart a b" "set_inv (view t) a" "set_inv (view t) b" "x \<in> members (view t) a"
    "card (members (view t) a) < 2 ^ 64"
  shows "\<exists>t'. smoveBody B a b x c t = Inr (True, t')
    \<and> members (view t') a = members (view t) a - {x} \<and> set_inv (view t') a
    \<and> members (view t') b = insert x (members (view t) b) \<and> set_inv (view t') b
    \<and> (\<forall>k. \<not> owns a KeyTypeSet k \<and> \<not> owns b KeyTypeSet k \<longrightarrow> view t' k = view t k)"
proof -
  note ab = apart_set_keys [OF assms(1)] apart_set_keys [OF apart_sym [OF assms(1)]]
  note mb = apart_members [OF assms(1)] apart_members [OF apart_sym [OF assms(1)]]
  let ?A = "members (view t) a" and ?Bm = "members (view t) b"
  let ?cnt = "\<lambda>n. Some \<lparr>ival = Uint64ToBytes n, iexp = 0\<rparr>"
  have pos: "0 < set_count (view t) a"
    using assms(2,4,5) word_of_nat_pos [of "card ?A"] finite_members [of t a] by (auto simp: set_inv_def card_gt_0_iff)
  then obtain ci where ci: "view t (countKey a) = Some ci" "set_count (view t) a = BytesToUint64 (ival ci)"
    by (auto simp: set_count_def split: option.splits)
  define m1 where "m1 = (view t)(memberKey a x := None, countKey a := ?cnt (set_count (view t) a - 1))"
  define m2 where "m2 = (if x \<in> ?Bm then m1 else m1(TypeOfKeyGet b := Some \<lparr>ival = KeyTypeSet, iexp = 0\<rparr>,
    memberKey b x := Some \<lparr>ival = [], iexp = 0\<rparr>, countKey b := ?cnt (set_count (view t) b + 1)))"
  obtain i where i: "view t (memberKey a x) = Some i" using assms(4) by (auto simp: members_def)
  have "\<exists>t'. smoveBody B a b x c t = Inr (True, t') \<and> view t' = m2"
  proof (cases "x \<in> ?Bm")
    case True
    then obtain j where "view t (memberKey b x) = Some j" by (auto simp: members_def)
    then show ?thesis
      using True i ci pos ab by (simp add: smoveBody_def andThen_def bnd_def txn_simps m2_def m1_def)
  next
    case False
    then have "view t (memberKey b x) = None" by (simp add: members_def)
    then show ?thesis
      using False i ci pos ab
      by (cases "view t (countKey b)")
        (simp_all add: smoveBody_def andThen_def bnd_def txn_simps m2_def m1_def set_count_def)
  qed
  moreover have "members m2 a = ?A - {x}" "members m2 b = insert x ?Bm"
    by (auto simp: m2_def m1_def mb)
  moreover have "set_count m2 a = set_count (view t) a - 1"
    "set_count m2 b = (if x \<in> ?Bm then set_count (view t) b else set_count (view t) b + 1)"
    by (auto simp: m2_def m1_def mb)
  moreover have "(word_of_nat (card (?A - {x})) :: u64) = set_count (view t) a - 1"
    using card_remove_word [OF finite_members assms(4)] assms(2) by (simp add: set_inv_def)
  moreover have "(word_of_nat (card (insert x ?Bm)) :: u64) =
      (if x \<in> ?Bm then set_count (view t) b else set_count (view t) b + 1)"
    using card_insert_word [OF finite_members, of x t b] assms(3) by (auto simp: set_inv_def insert_absorb)
  moreover have "m2 k = view t k" if "\<not> owns a KeyTypeSet k" "\<not> owns b KeyTypeSet k" for k
    using not_owned [OF that(1)] not_owned [OF that(2)] by (auto simp: m2_def m1_def)
  ultimately show ?thesis by (auto simp: set_inv_def)
qed

end

section \<open>Popping\<close>

text \<open>The numbers drawn are below the bound, as \<^verbatim>\<open>math/rand\<close> documents.\<close>

definition draws_ok :: "(int \<Rightarrow> int) \<Rightarrow> bool" where
  "draws_ok rnd \<longleftrightarrow> (\<forall>n > 0. 0 \<le> rnd n \<and> rnd n < n)"

lemma mset_shuffleLoop:
  assumes "\<And>i. draws_ok (rnd i)" "n < length xs"
  shows "mset (shuffleLoop rnd n xs) = mset xs \<and> length (shuffleLoop rnd n xs) = length xs"
  using assms(2)
proof (induction n arbitrary: xs)
  case (Suc n)
  define j where "j = nat (randomIntn (rnd (Suc n)) (int (Suc n) + 1))"
  have "0 \<le> rnd (Suc n) (int (Suc n) + 1) \<and> rnd (Suc n) (int (Suc n) + 1) < int (Suc n) + 1"
    using assms(1) [of "Suc n"] unfolding draws_ok_def by simp
  then have "j \<le> Suc n" by (auto simp: j_def randomIntn_def nat_le_iff)
  then have "mset (swap (Suc n) j xs) = mset xs" "length (swap (Suc n) j xs) = length xs"
    using Suc.prems by (simp_all add: swap_def mset_swap)
  then show ?case using Suc.IH [of "swap (Suc n) j xs"] Suc.prems by (simp add: j_def)
qed simp

lemma randomShuffle_perm:
  assumes "\<And>i. draws_ok (rnd i)"
  shows "set (randomShuffle rnd xs) = set xs" "length (randomShuffle rnd xs) = length xs"
    "distinct xs \<Longrightarrow> distinct (randomShuffle rnd xs)"
proof -
  have "mset (randomShuffle rnd xs) = mset xs"
    using mset_shuffleLoop [OF assms, of "length xs - 1" xs] by (simp add: randomShuffle_def)
  then show "set (randomShuffle rnd xs) = set xs" "length (randomShuffle rnd xs) = length xs"
    "distinct xs \<Longrightarrow> distinct (randomShuffle rnd xs)"
    by (metis set_mset_mset, metis size_mset, metis mset_eq_imp_distinct_iff)
qed

text \<open>What a pop needs to find a member: valid draws, and no member that a reverse scan from the byte
  \<^verbatim>\<open>0xFF\<close> steps over.\<close>

definition pop_ready :: "(int \<Rightarrow> int) \<Rightarrow> (bytes \<rightharpoonup> item) \<Rightarrow> bytes \<Rightarrow> bool" where
  "pop_ready rnd m key \<longleftrightarrow> draws_ok rnd \<and> set_inv m key \<and> members m key \<noteq> {} \<and> card (members m key) < 2 ^ 63
     \<and> (\<forall>x \<in> members m key. x \<le> [CHR 0xFF])"

lemma word_of_nat_0_small: "n < 2 ^ 63 \<Longrightarrow> (word_of_nat n :: u64) = 0 \<longleftrightarrow> n = 0"
  by (auto simp: word_of_nat_eq_0_iff dest: dvd_imp_le)

lemma word_of_nat_le: "k \<le> n \<Longrightarrow> n < 2 ^ 64 \<Longrightarrow> (word_of_nat k :: u64) \<le> word_of_nat n"
  by (simp add: word_of_nat_less_eq_iff take_bit_nat_eq_self)

lemma sint_word_of_nat: "n < 2 ^ 63 \<Longrightarrow> sint (word_of_nat n :: u64) = int n"
  by (simp add: signed_of_nat signed_take_bit_int_eq_self)

lemma pop_ready_index:
  assumes "pop_ready rnd m key" "finite (members m key)"
  shows "0 \<le> randomIntn rnd (sint (set_count m key)) \<and> randomIntn rnd (sint (set_count m key)) < int (card (members m key))
    \<and> sint (set_count m key) = int (card (members m key))"
  using assms by (auto simp: pop_ready_def set_inv_def sint_word_of_nat draws_ok_def randomIntn_def card_gt_0_iff)

text \<open>\<open>popped t key x t'\<close>: the transaction \<open>t'\<close> is \<open>t\<close> without the member \<open>x\<close>.\<close>

context badger_txn
begin

definition popped :: "'t \<Rightarrow> bytes \<Rightarrow> bytes \<Rightarrow> 't \<Rightarrow> bool" where
  "popped t key x t' \<longleftrightarrow> x \<in> members (view t) key \<and> view t' = (view t)(memberKey key x := None,
     countKey key := Some \<lparr>ival = Uint64ToBytes (set_count (view t) key - 1), iexp = 0\<rparr>)"

lemma popped_inv:
  assumes "popped t key x t'" "set_inv (view t) key"
  shows "members (view t') key = members (view t) key - {x}" "set_inv (view t') key"
    "\<And>k. \<not> owns key KeyTypeSet k \<Longrightarrow> view t' k = view t k"
proof -
  note x = assms(1) [unfolded popped_def, THEN conjunct1]
  have v: "view t' = (view t)(memberKey key x := None,
      countKey key := Some \<lparr>ival = Uint64ToBytes (set_count (view t) key - 1), iexp = 0\<rparr>)"
    using assms(1) by (simp add: popped_def)
  show "members (view t') key = members (view t) key - {x}" by (simp add: v)
  show "set_inv (view t') key"
    using card_remove_word [OF finite_members x] assms(2) by (simp add: v sc.count_ok_set) (simp add: set_inv_def)
  show "view t' k = view t k" if "\<not> owns key KeyTypeSet k" for k
    using that by (auto simp: v)
qed

text \<open>The keys a pop can choose from, forwards or backwards.\<close>

lemma pop_keys:
  assumes "rv \<longrightarrow> from = memberPrefix key @ [CHR 0xFF]" "\<not> rv \<longrightarrow> from = memberPrefix key"
  shows "\<exists>xs. (\<exists>its. iterPrefix B rv from (memberPrefix key) t = Inr (its, t) \<and> map fst its = map (memberKey key) xs)
    \<and> set xs = {x \<in> members (view t) key. rv \<longrightarrow> x \<le> [CHR 0xFF]} \<and> distinct xs"
proof (cases rv)
  case False
  then show ?thesis
    using assms(2) scan_members [OF finite_view, of t key] finite_members [of t key]
    by (intro exI [of _ "sorted_list_of_set (members (view t) key)"]) (simp add: iterPrefix_keys comp_def)
next
  case True
  let ?p = "memberPrefix key" and ?S = "{x \<in> members (view t) key. x \<le> [CHR 0xFF]}"
  have "{x \<in> dom (view t). prefix ?p x \<and> x \<le> ?p @ [CHR 0xFF]} = memberKey key ` ?S"
    by (auto simp: members_def prefix_def memberKey_eq append_le_iff)
  moreover have "memberKey key x < memberKey key y \<longleftrightarrow> x < y" for x y
    by (simp add: memberKey_eq append_less_iff)
  ultimately have "map fst (takeWhile (\<lambda>x. prefix ?p (fst x)) (live_downto (view t) (?p @ [CHR 0xFF]))) =
      map (memberKey key) (rev (sorted_list_of_set ?S))"
    using sorted_list_of_set_image_mono [of "memberKey key" ?S] finite_members [of t key]
      takeWhile_live_downto [OF finite_view [of t], of ?p "?p @ [CHR 0xFF]"]
    by (simp add: rev_map)
  then show ?thesis
    using True assms(1) finite_members [of t key]
    by (intro exI [of _ "rev (sorted_list_of_set ?S)"]) (simp add: iterPrefix_def iter_rev_law)
qed

lemma spopBody_run:
  "\<exists>x t'. spopBody seed B key c t = Inr ((x, Suc (snd c)), t') \<and> (popped t key x t' \<or> x = [] \<and> t' = t \<and> \<not> pop_ready (seed (snd c)) (view t) key)"
proof (cases "set_count (view t) key = 0")
  case True
  then have "spopBody seed B key c t = Inr (([], Suc (snd c)), t)"
    by (cases "view t (countKey key)") (simp_all add: spopBody_def bnd_def lookupValue_run set_count_def Let_def)
  moreover have "\<not> pop_ready (seed (snd c)) (view t) key"
    using True finite_members [of t key] by (auto simp: pop_ready_def set_inv_def word_of_nat_0_small)
  ultimately show ?thesis by blast
next
  case False
  then obtain ci where ci: "view t (countKey key) = Some ci" "set_count (view t) key = BytesToUint64 (ival ci)"
    by (auto simp: set_count_def split: option.splits)
  define ti where "ti = randomIntn (seed (snd c)) (sint (set_count (view t) key))"
  define rv where "rv = (\<not> word_of_int ti < set_count (view t) key div 2)"
  define fr where "fr = (if rv then memberPrefix key @ [CHR 0xFF] else memberPrefix key)"
  define n where "n = (if rv then sint (set_count (view t) key) - 1 - ti else ti)"
  have "rv \<longrightarrow> fr = memberPrefix key @ [CHR 0xFF]" "\<not> rv \<longrightarrow> fr = memberPrefix key" by (simp_all add: fr_def)
  from pop_keys [OF this, of t] obtain xs its where
    its: "iterPrefix B rv fr (memberPrefix key) t = Inr (its, t)" "map fst its = map (memberKey key) xs"
      "set xs = {x \<in> members (view t) key. rv \<longrightarrow> x \<le> [CHR 0xFF]}" "distinct xs"
    by (elim exE conjE)
  have len: "length its = length xs" using arg_cong [OF its(2), of length] by simp
  have body: "spopBody seed B key c t = spopPick B key (set_count (view t) key) (Suc (snd c)) n its t"
  proof -
    have "lookupValue B (countKey key) t = Inr (Some (ival ci), t)" by (simp add: lookupValue_run ci(1))
    note look = bnd_run [of "lookupValue B (countKey key)", OF this]
    have "spopBody seed B key c t = bnd (iterPrefix B rv fr (memberPrefix key))
        (spopPick B key (set_count (view t) key) (Suc (snd c)) n) t"
      using False unfolding spopBody_def Let_def look option.case ci(2) [symmetric] ti_def [symmetric]
      by (simp add: rv_def fr_def n_def)
    also have "\<dots> = spopPick B key (set_count (view t) key) (Suc (snd c)) n its t" by (rule bnd_run) (rule its(1))
    finally show ?thesis .
  qed
  show ?thesis
  proof (cases "0 \<le> n \<and> n < int (length its)")
    case True
    let ?x = "xs ! nat n"
    have n: "nat n < length its" using True by linarith
    then have k: "fst (its ! nat n) = memberKey key ?x"
      using arg_cong [OF its(2), of "\<lambda>l. l ! nat n"] len by simp
    have "?x \<in> set xs" using n len by simp
    then have x: "?x \<in> members (view t) key" unfolding its(3) by simp
    have "spopBody seed B key c t = Inr ((?x, Suc (snd c)), upd (upd t (memberKey key ?x) None) (countKey key)
        (Some \<lparr>ival = Uint64ToBytes (set_count (view t) key - 1), iexp = 0\<rparr>))"
      using True by (simp add: body spopPick_def k andThen_def bnd_def txn_simps)
    moreover have "popped t key ?x (upd (upd t (memberKey key ?x) None) (countKey key)
        (Some \<lparr>ival = Uint64ToBytes (set_count (view t) key - 1), iexp = 0\<rparr>))"
      using x by (simp add: popped_def view_upd)
    ultimately show ?thesis by blast
  next
    case False
    then have "spopBody seed B key c t = Inr (([], Suc (snd c)), t)"
      unfolding body spopPick_def by (simp only: if_False ret_run)
    moreover have "0 \<le> n \<and> n < int (length its)" if "pop_ready (seed (snd c)) (view t) key"
    proof -
      from that have "set xs = members (view t) key" by (auto simp: its(3) pop_ready_def)
      then have "length its = card (members (view t) key)" using len distinct_card [OF its(4)] by simp
      then show ?thesis using pop_ready_index [OF that finite_members] unfolding n_def ti_def [symmetric] by (elim conjE) (cases rv; simp only: if_True if_False; linarith)
    qed
    ultimately show ?thesis using False by blast
  qed
qed

lemma spopnBody_run:
  assumes "\<And>i. draws_ok (seed (snd c) i)" "set_inv (view t) key" "card (members (view t) key) < 2 ^ 64"
  shows "\<exists>xs t'. spopnBody seed B key n c t = Inr ((xs, Suc (snd c)), t')
    \<and> distinct xs \<and> set xs \<subseteq> members (view t) key
    \<and> length xs = min (nat n) (card (members (view t) key))
    \<and> members (view t') key = members (view t) key - set xs \<and> set_inv (view t') key
    \<and> (\<forall>k. \<not> owns key KeyTypeSet k \<longrightarrow> view t' k = view t k)"
proof (cases "members (view t) key = {}")
  case True
  then have "spopnBody seed B key n c t = Inr (([], Suc (snd c)), t)"
    by (simp add: spopnBody_def bnd_def txn_simps)
  then show ?thesis using True assms(2) by simp
next
  case False
  let ?M = "members (view t) key" and ?ms = "sorted_list_of_set (members (view t) key)"
  note fin = finite_members [of t key]
  define k where "k = min (nat n) (card ?M)"
  define xs where "xs = take k (randomShuffle (seed (snd c)) ?ms)"
  define t1 where "t1 = delKeys (map (memberKey key) xs) t"
  define t2 where "t2 = (if k = 0 then t1 else upd t1 (countKey key)
      (Some \<lparr>ival = Uint64ToBytes (word_of_nat (card ?M) - word_of_nat k), iexp = 0\<rparr>))"
  have xs: "distinct xs" "set xs \<subseteq> ?M" "length xs = k"
    using randomShuffle_perm [of "seed (snd c)" ?ms] assms(1) fin set_take_subset [of k "randomShuffle (seed (snd c)) ?ms"]
    by (auto simp: xs_def k_def distinct_take)
  have pc: "max 0 (min n (int (length ?ms))) = int k" using fin by (simp add: k_def)
  have "(word_of_nat (card ?M) :: u64) \<noteq> 0" using False fin assms(3) word_of_nat_pos [of "card ?M"] by (simp add: card_gt_0_iff)
  then obtain ci where ci: "view t (countKey key) = Some ci" "BytesToUint64 (ival ci) = word_of_nat (card ?M)"
    using assms(2) by (auto simp: set_inv_def set_count_def split: option.splits)
  have cnt: "view t1 (countKey key) = Some ci" using ci(1) by (auto simp: t1_def view_delKeys)
  have le: "(word_of_nat k :: u64) \<le> word_of_nat (card ?M)" by (rule word_of_nat_le) (use assms(3) in \<open>simp_all add: k_def\<close>)
  have run: "spopnBody seed B key n c t = Inr ((xs, Suc (snd c)), t2)"
  proof -
    have "?ms \<noteq> []" using False fin by simp
    then have "spopnBody seed B key n c t =
      andThen (forEach (\<lambda>x. Delete B (memberKey key x)) xs) (andThen
       (if 0 < int k then bnd (tryGet B (countKey key)) (\<lambda>r. case r of Inl e \<Rightarrow> ret ()
          | Inr item \<Rightarrow> bnd (ValueCopy B item) (\<lambda>b. if word_of_int (int k) \<le> BytesToUint64 b
              then Set B (countKey key) (Uint64ToBytes (BytesToUint64 b - word_of_int (int k))) else ret ()))
        else ret ()) (ret (xs, Suc (snd c)))) t"
      unfolding spopnBody_def bnd_run [of "getAllMembers B key", OF getAllMembers_run] Let_def pc nat_int xs_def [symmetric]
      by (simp only: if_False)
    also have "\<dots> = Inr ((xs, Suc (snd c)), t2)"
      using le ci(2) cnt by (simp add: andThen_def bnd_def txn_simps t2_def flip: t1_def)
    finally show ?thesis .
  qed
  have mem: "members (view t2) key = ?M - set xs" by (simp add: t2_def t1_def members_delKeys view_upd)
  have "card ?M = k + card (?M - set xs)"
    using xs fin by (simp add: card_Diff_subset distinct_card k_def)
  then have "set_inv (view t2) key"
    using assms(2) ci cnt mem by (auto simp: t2_def view_upd sc.count_ok_set set_inv_def set_count_def)
  moreover have "view t2 l = view t l" if "\<not> owns key KeyTypeSet l" for l
    using that by (auto simp: t2_def t1_def view_upd view_delKeys)
  ultimately show ?thesis using run mem xs by (auto simp: k_def)
qed

lemma regular_inAll [simp, intro]: "regular (inAll B x keys)"
  by (induction keys) (simp_all only: inAll.simps, (intro regular_bnd regular_branches regular_ret regular_ops, assumption?)+)

lemma regular_interLoop [simp, intro]: "regular (interLoop B keys ms)"
  by (induction ms) (simp_all only: interLoop.simps, (intro regular_bnd regular_ret regular_inAll, assumption?)+)

lemma regular_unionLoop [simp, intro]: "regular (unionLoop B keys r)"
  by (induction keys arbitrary: r)
    (simp_all only: unionLoop.simps, (intro regular_bnd regular_ret regular_set_bodies, assumption?)+)

lemma regular_collect [simp, intro]: "regular (collect B keys)"
  by (induction keys) (simp_all only: collect.simps, (intro regular_bnd regular_ret regular_set_bodies, assumption?)+)

lemma regular_set_tx [simp, intro]: "regular (sinterTx B keys)" "regular (sunionTx B keys)" "regular (sdiffTx B keys)"
  unfolding sinterTx_def sunionTx_def sdiffTx_def
  by (cases keys; simp only: list.case; intro regular_bnd regular_ret regular_set_bodies regular_interLoop
      regular_unionLoop regular_collect)+

lemma regular_storeResult [simp, intro]: "regular (storeResult B key r)" "regular (spopPick B key n i j its)"
  unfolding storeResult_def spopPick_def Let_def
  by (intro regular_bnd regular_andThen regular_branches regular_forEach regular_ops regular_ret regular_set_bodies)+

lemma regular_pops [simp, intro]: "regular (spopBody seed B key c)" "regular (spopnBody seeds B key n c')"
  unfolding spopBody_def spopnBody_def Let_def
  by (intro regular_bnd regular_andThen regular_branches regular_forEach regular_ops regular_ret regular_set_bodies
      regular_storeResult)+

lemma regular_smove [simp, intro]: "regular (smoveBody B a b x c)"
  unfolding smoveBody_def Let_def
  by (intro regular_bnd regular_andThen regular_branches regular_ops regular_ret)

end

text \<open>What a successful command did to the set \<open>key\<close>: \<open>S\<close> are its members now, the invariant holds, and
  only records of the keys \<open>ks\<close> may have changed.\<close>

definition set_result :: "(bytes \<rightharpoonup> item) \<Rightarrow> (bytes \<rightharpoonup> item) \<Rightarrow> bytes \<Rightarrow> bytes set \<Rightarrow> bytes list \<Rightarrow> bool" where
  "set_result m m' key S ks \<longleftrightarrow> members m' key = S \<and> set_inv m' key
     \<and> (\<forall>x. list_all (\<lambda>k. \<not> owns k KeyTypeSet x) ks \<longrightarrow> m' x = m x)"

lemma set_typed_data [simp]: "set_typed (data m) key = set_typed m key"
  by (simp add: set_typed_def)

lemma pop_ready_data [simp]: "pop_ready rnd (data m) key = pop_ready rnd m key"
  by (simp add: pop_ready_def)

context badger_txn
begin

lemma set_result_view:
  assumes "members (view t') key = S" "set_inv (view t') key" "\<And>k. \<not> owns key KeyTypeSet k \<Longrightarrow> view t' k = view t k"
  shows "set_result (data (view t)) (data (view t')) key S [key]"
  using assms by (simp add: set_result_def data_def)

lemma saddBody_post:
  assumes "saddBody B key ms c t = Inr (added, t')" "set_inv (data (view t)) key"
  shows "added = int (card (set ms - members (data (view t)) key))
    \<and> set_result (data (view t)) (data (view t')) key (members (data (view t)) key \<union> set ms) [key]
    \<and> data (view t') (TypeOfKeyGet key) = Some \<lparr>ival = KeyTypeSet, iexp = 0\<rparr>"
proof -
  have ty: "set_typed (view t) key" using assms(1) set_body_wrongtype(1) [of t key] by fastforce
  show ?thesis
    using saddBody_run [OF ty, of ms c] assms set_result_view [of t' key _ t] by auto
qed

lemma sremBody_post:
  assumes "sremBody B key ms c t = Inr (removed, t')" "set_inv (data (view t)) key"
  shows "removed = int (card (set ms \<inter> members (data (view t)) key))
    \<and> set_result (data (view t)) (data (view t')) key (members (data (view t)) key - set ms) [key]"
proof -
  have ty: "set_typed (view t) key" using assms(1) set_body_wrongtype(2) [of t key] by fastforce
  show ?thesis
    using sremBody_run [OF ty, of ms c] assms set_result_view [of t' key _ t] by auto
qed

lemma storeResult_post:
  assumes "storeResult B dest result t = Inr (n, t')" "distinct result"
  shows "n = int (length result) \<and> set_result (data (view t)) (data (view t')) dest (set result) [dest]"
  using storeResult_run [OF assms(2), of dest t] assms(1) set_result_view [of t' dest _ t] by auto

lemma spopBody_post:
  assumes "spopBody seed B key c t = Inr (c', t')" "set_inv (data (view t)) key"
  shows "(let S = members (data (view t)) key; x = fst c' in
      x \<in> S \<and> set_result (data (view t)) (data (view t')) key (S - {x}) [key]
      \<or> x = [] \<and> data (view t') = data (view t) \<and> (\<exists>i. \<not> pop_ready (seed i) (data (view t)) key))"
proof -
  obtain x t1 where run: "spopBody seed B key c t = Inr ((x, Suc (snd c)), t1)"
    "popped t key x t1 \<or> x = [] \<and> t1 = t \<and> \<not> pop_ready (seed (snd c)) (view t) key"
    using spopBody_run [of seed key c t] by (elim exE conjE)
  then have [simp]: "c' = (x, Suc (snd c))" "t1 = t'" using assms(1) by simp_all
  from run(2) show ?thesis
  proof
    assume p: "popped t key x t1"
    have inv: "set_inv (view t) key" using assms(2) by simp
    have "set_result (data (view t)) (data (view t1)) key (members (view t) key - {x}) [key]"
      by (rule set_result_view) (use popped_inv [OF p inv] in blast)+
    then show ?thesis using p by (simp add: popped_def)
  qed (auto simp: Let_def)
qed

lemma spopnBody_post:
  assumes "spopnBody seed B key n c t = Inr (c', t')" "set_inv (data (view t)) key"
    "\<And>i j. draws_ok (seed i j)" "card (members (data (view t)) key) < 2 ^ 64"
  shows "(let S = members (data (view t)) key; xs = fst c' in
      distinct xs \<and> set xs \<subseteq> S \<and> length xs = min (nat n) (card S)
      \<and> set_result (data (view t)) (data (view t')) key (S - set xs) [key])"
proof -
  have "set_inv (view t) key" "card (members (view t) key) < 2 ^ 64" using assms(2,4) by simp_all
  from spopnBody_run [of seed c, OF assms(3) this, of n] assms(1) set_result_view [of t' key _ t] show ?thesis
    by (auto simp: Let_def)
qed

lemma smoveBody_post:
  assumes "smoveBody B a b x c t = Inr (moved, t')" "apart a b" "set_inv (data (view t)) a" "set_inv (data (view t)) b"
    "card (members (data (view t)) a) < 2 ^ 64"
  shows "(let m = data (view t); m' = data (view t') in moved = (x \<in> members m a)
    \<and> set_result m m' a (members m a - {x}) [a, b]
    \<and> set_result m m' b (members m b \<union> ({x} \<inter> members m a)) [a, b])"
proof (cases "x \<in> members (view t) a")
  case True
  have "set_inv (view t) a" "set_inv (view t) b" "card (members (view t) a) < 2 ^ 64" using assms(3-5) by simp_all
  from smoveBody_run [OF assms(2) this(1,2) True this(3), of c] assms(1) True show ?thesis
    by (auto simp: Let_def set_result_def data_def [of "view t"] data_def [of "view t'"])
next
  case False
  then have "smoveBody B a b x c t = Inr (False, t)"
    by (simp add: smoveBody_def bnd_def txn_simps members_def)
  then show ?thesis using False assms by (auto simp: Let_def set_result_def)
qed

lemma sunionTx_run: "\<exists>us. sunionTx B keys t = Inr (us, t) \<and> set us = (\<Union>k \<in> set keys. members (view t) k) \<and> distinct us"
  using unionLoop_run [of keys "[]" t] by (simp add: sunionTx_def)

text \<open>The members each \<^verbatim>\<open>STORE\<close> command writes.\<close>

lemma store_post:
  assumes "bnd f (storeResult B dest) t = Inr (n, t')" "\<exists>us. f t = Inr (us, t) \<and> set us = S \<and> distinct us"
  shows "n = int (card S) \<and> set_result (data (view t)) (data (view t')) dest S [dest]"
proof -
  from assms(2) obtain us where us: "f t = Inr (us, t)" "set us = S" "distinct us" by (elim exE conjE)
  have "storeResult B dest us t = Inr (n, t')" using assms(1) by (simp add: bnd_def us(1))
  from storeResult_post [OF this us(3)] show ?thesis using us(2,3) by (auto simp: distinct_card)
qed

end

section \<open>Specification of the commands\<close>

text \<open>\<open>m\<close> and \<open>m'\<close> are the data before and after the committed update.\<close>

definition sadd_spec :: "bytes \<Rightarrow> bytes list \<Rightarrow> (bytes \<rightharpoonup> item) \<Rightarrow> int \<Rightarrow> (bytes \<rightharpoonup> item) \<Rightarrow> bool" where
  "sadd_spec key ms m added m' \<longleftrightarrow> (set_inv m key \<longrightarrow>
     added = int (card (set ms - members m key)) \<and> set_result m m' key (members m key \<union> set ms) [key]
     \<and> m' (TypeOfKeyGet key) = Some \<lparr>ival = KeyTypeSet, iexp = 0\<rparr>)"

definition srem_spec :: "bytes \<Rightarrow> bytes list \<Rightarrow> (bytes \<rightharpoonup> item) \<Rightarrow> int \<Rightarrow> (bytes \<rightharpoonup> item) \<Rightarrow> bool" where
  "srem_spec key ms m removed m' \<longleftrightarrow> (set_inv m key \<longrightarrow>
     removed = int (card (set ms \<inter> members m key)) \<and> set_result m m' key (members m key - set ms) [key])"

definition smove_spec :: "bytes \<Rightarrow> bytes \<Rightarrow> bytes \<Rightarrow> (bytes \<rightharpoonup> item) \<Rightarrow> bool \<Rightarrow> (bytes \<rightharpoonup> item) \<Rightarrow> bool" where
  "smove_spec a b x m moved m' \<longleftrightarrow> (set_inv m a \<and> set_inv m b \<and> card (members m a) < 2 ^ 64 \<longrightarrow>
     moved = (x \<in> members m a)
     \<and> set_result m m' a (members m a - {x}) [a, b]
     \<and> set_result m m' b (members m b \<union> ({x} \<inter> members m a)) [a, b])"

definition spop_spec :: "(nat \<Rightarrow> int \<Rightarrow> int) \<Rightarrow> bytes \<Rightarrow> (bytes \<rightharpoonup> item) \<Rightarrow> bytes \<Rightarrow> (bytes \<rightharpoonup> item) \<Rightarrow> bool" where
  "spop_spec seed key m x m' \<longleftrightarrow> (set_inv m key \<longrightarrow>
     x \<in> members m key \<and> set_result m m' key (members m key - {x}) [key]
     \<or> x = [] \<and> m' = m \<and> (\<exists>i. \<not> pop_ready (seed i) m key))"

definition spopn_spec :: "bytes \<Rightarrow> int \<Rightarrow> (bytes \<rightharpoonup> item) \<Rightarrow> bytes list \<Rightarrow> (bytes \<rightharpoonup> item) \<Rightarrow> bool" where
  "spopn_spec key n m xs m' \<longleftrightarrow> (set_inv m key \<and> card (members m key) < 2 ^ 64 \<longrightarrow>
     distinct xs \<and> set xs \<subseteq> members m key \<and> length xs = min (nat n) (card (members m key))
     \<and> set_result m m' key (members m key - set xs) [key])"

definition sstore_spec :: "bytes \<Rightarrow> ((bytes \<rightharpoonup> item) \<Rightarrow> bytes set) \<Rightarrow> (bytes \<rightharpoonup> item) \<Rightarrow> int \<Rightarrow> (bytes \<rightharpoonup> item) \<Rightarrow> bool" where
  "sstore_spec dest f m n m' \<longleftrightarrow> n = int (card (f m)) \<and> set_result m m' dest (f m) [dest]"

text \<open>The members of the intersection, the union and the difference of the sets \<open>keys\<close>.\<close>

definition sinter_set :: "bytes list \<Rightarrow> (bytes \<rightharpoonup> item) \<Rightarrow> bytes set" where
  "sinter_set keys m = (case keys of [] \<Rightarrow> {} | k # ks \<Rightarrow> members m k \<inter> (\<Inter>k' \<in> set ks. members m k'))"

definition sunion_set :: "bytes list \<Rightarrow> (bytes \<rightharpoonup> item) \<Rightarrow> bytes set" where
  "sunion_set keys m = (\<Union>k \<in> set keys. members m k)"

definition sdiff_set :: "bytes list \<Rightarrow> (bytes \<rightharpoonup> item) \<Rightarrow> bytes set" where
  "sdiff_set keys m = (case keys of [] \<Rightarrow> {} | k # ks \<Rightarrow> members m k - (\<Union>k' \<in> set ks. members m k'))"

lemma set_algebra_data [simp]:
  "sinter_set keys (data m) = sinter_set keys m" "sunion_set keys (data m) = sunion_set keys m"
  "sdiff_set keys (data m) = sdiff_set keys m"
  by (simp_all add: sinter_set_def sunion_set_def sdiff_set_def split: list.split)

lemma inter_list_set: "inter_list m keys = sorted_list_of_set (sinter_set keys m)"
proof (cases keys)
  case (Cons k ks)
  have "{x \<in> members m k. list_all (\<lambda>k. x \<in> members m k) ks} = sinter_set keys m"
    by (auto simp: Cons sinter_set_def list_all_iff)
  then show ?thesis by (simp add: inter_list_def Cons)
qed (simp add: inter_list_def sinter_set_def)

lemma diff_list_set: "diff_list m keys = sorted_list_of_set (sdiff_set keys m)"
proof (cases keys)
  case (Cons k ks)
  have "{x \<in> members m k. list_all (\<lambda>k. x \<notin> members m k) ks} = sdiff_set keys m"
    by (auto simp: Cons sdiff_set_def list_all_iff)
  then show ?thesis by (simp add: diff_list_def Cons)
qed (simp add: diff_list_def sdiff_set_def)

context badger_txn
begin

lemma finite_algebra: "finite (sinter_set keys (view t))" "finite (sdiff_set keys (view t))"
  using finite_members [of t] by (simp_all add: sinter_set_def sdiff_set_def split: list.split)

lemma algebra_tx:
  "\<exists>us. sinterTx B keys t = Inr (us, t) \<and> set us = sinter_set keys (view t) \<and> distinct us"
  "\<exists>us. sunionTx B keys t = Inr (us, t) \<and> set us = sunion_set keys (view t) \<and> distinct us"
  "\<exists>us. sdiffTx B keys t = Inr (us, t) \<and> set us = sdiff_set keys (view t) \<and> distinct us"
  using sunionTx_run [of keys t]
  by (simp_all add: sinterTx_run sdiffTx_run inter_list_set diff_list_set finite_algebra sunion_set_def)

end

context badger_db
begin

lemma regular_store: "regular f \<Longrightarrow> regular (bnd f (storeResult B dest))"
  by (rule regular_bnd) (simp_all add: regular_storeResult)

lemma store_run:
  assumes "writable D st" "retryUpdate E B D (\<lambda>_. bnd f (storeResult B dest)) 30 lv 0 st = (r, n, st')" "regular f"
    "\<And>t. \<exists>us. f t = Inr (us, t) \<and> set us = S (view t) \<and> distinct us" "\<And>m. S (data m) = S m"
  shows "case r of Inl e \<Rightarrow> data (snap (db st') MaxUint64) = data (snap (db st) MaxUint64)
    | Inr u \<Rightarrow> sstore_spec dest S (data (snap (db st) MaxUint64)) n (data (snap (db st') MaxUint64))"
  by (rule retryUpdate_post [where P = "sstore_spec dest S", OF assms(1) regular_store [OF assms(3)] assms(2)])
    (drule store_post [OF _ assms(4)], simp add: sstore_spec_def assms(5))

lemma interCard_run:
  "SInterCardWithLimit B D limit keys st = (let n = int (card (sinter_set keys (snap (db st) MaxUint64)))
     in Inr (if limit > 0 then min limit n else n))"
proof (cases keys)
  case Nil
  then show ?thesis by (simp add: SInterCardWithLimit_def View_def sinter_set_def)
next
  case (Cons k ks)
  let ?t = "newTransactionAt D (db st) MaxUint64"
  have "length (filter (\<lambda>x. list_all (\<lambda>k. x \<in> members (view ?t) k) ks) (sorted_list_of_set (members (view ?t) k)))
      = card (sinter_set keys (view ?t))"
    unfolding filter_sorted_list_of_set [OF finite_members]
    using inter_list_set [of "view ?t" keys] by (simp add: inter_list_def Cons)
  then show ?thesis
    by (simp add: SInterCardWithLimit_def View_def Cons bnd_def getAllMembers_run cardLoop_run Let_def new_view)
qed

end

section \<open>Samples\<close>

text \<open>Two sets: \<^verbatim>\<open>s\<close> holds \<^verbatim>\<open>a\<close> and \<^verbatim>\<open>b\<close>, \<^verbatim>\<open>u\<close> holds \<^verbatim>\<open>b\<close>.\<close>

definition sample_sets :: "(bytes \<times> item) list" where
  "sample_sets =
     [(TypeOfKeyGet ''s'', plain KeyTypeSet), (memberKey ''s'' ''a'', plain []), (memberKey ''s'' ''b'', plain []),
      (countKey ''s'', plain (Uint64ToBytes 2)), (TypeOfKeyGet ''u'', plain KeyTypeSet), (memberKey ''u'' ''b'', plain []),
      (countKey ''u'', plain (Uint64ToBytes 1))]"

abbreviation sample_m :: "bytes \<rightharpoonup> item" where
  "sample_m \<equiv> map_of sample_sets"

lemmas set_key_defs = memberKey_def countKey_def setKey_def TypeOfKeyGet_def

lemma sample_members: "members sample_m ''s'' = {''a'', ''b''}" "members sample_m ''u'' = {''b''}"
  by (auto simp: members_def sample_sets_def set_key_defs split: if_splits)

lemma sample_set_inv: "set_inv sample_m ''s''" "set_inv sample_m ''u''"
  unfolding set_inv_def sample_members by (simp_all add: set_count_def sample_sets_def set_key_defs)

lemma sample_data: "data sample_m = sample_m"
  by (auto simp: data_def fun_eq_iff sample_sets_def set_key_defs replLogPrefix_def)

lemma sample_typed: "set_typed sample_m ''s''"
  by (simp add: set_typed_def sample_sets_def set_key_defs)

lemma sample_apart: "apart ''s'' ''u''"
  by (rule apart_plain) simp_all

abbreviation sample_tx :: "kv_txn" where
  "sample_tx \<equiv> newTransactionAt kv_db_ops (db (kv_with sample_sets)) MaxUint64"

lemma sample_view [simp]: "kv_view sample_tx = sample_m"
  by (simp add: kvd.new_view kv_with_snap)

section \<open>Properties\<close>

text \<open>C10 \<^verbatim>\<open>SADD\<close> is set union: on a set whose counter is right, a committed \<^verbatim>\<open>SADD\<close> answers the number of members
  that were new, the members afterwards are the union, the counter is right again, the key has the set
  type, and no record of another key or type changed. A failed one changes nothing.\<close>

theorem SAdd_adds:
  assumes "badger_db B view upd now D snap pend" "writable D st" "SAdd E B D key ms st = (r, added, st')"
    and "m = data (snap (db st) MaxUint64)" "m' = data (snap (db st') MaxUint64)"
  shows "case r of Inl e \<Rightarrow> m' = m | Inr u \<Rightarrow> sadd_spec key ms m added m'"
proof -
  have x: "badger_txn B view upd now" using assms(1) by (rule badger_db.axioms)
  show ?thesis unfolding assms(4,5)
    by (rule badger_db.retryUpdate_post [where P = "sadd_spec key ms", OF assms(1,2)
          badger_txn.regular_saddBody(1) [OF x] assms(3) [unfolded SAdd_def]])
      (use badger_txn.saddBody_post [OF x] in \<open>simp add: sadd_spec_def\<close>)
qed

theorem SAdd_adds_witness:
  "\<exists>st'. SAdd env0 kv_ops kv_db_ops ''s'' [''b'', ''c''] (kv_with sample_sets) = (Inr (), 1, st')
     \<and> members (data (kv_snap (db st') MaxUint64)) ''s'' = {''a'', ''b'', ''c''}"
proof -
  have "set_typed (kv_view sample_tx) ''s''" "set_inv (kv_view sample_tx) ''s''"
    by (simp_all add: sample_typed sample_set_inv)
  from kv.saddBody_run [OF this, of "[''b'', ''c'']" 0] obtain t' where
    "saddBody kv_ops ''s'' [''b'', ''c''] 0 sample_tx = Inr (1, t')" by (auto simp: sample_members)
  from kv_update_first_eager [of "saddBody kv_ops ''s'' [''b'', ''c'']", OF this] obtain st' where
    run: "SAdd env0 kv_ops kv_db_ops ''s'' [''b'', ''c''] (kv_with sample_sets) = (Inr (), 1, st')"
    unfolding SAdd_def by blast
  from SAdd_adds [OF kvd.badger_db_axioms kv_with_writable run refl refl] show ?thesis
    using run by (auto simp: sadd_spec_def kv_with_snap sample_set_inv sample_members set_result_def)
qed

text \<open>C11 \<^verbatim>\<open>SREM\<close> is set difference: on a set whose counter is right, a committed \<^verbatim>\<open>SREM\<close> answers the number of
  members it removed (an argument given twice counts once), the members afterwards are the difference and
  the counter is right again; nothing of another key changed. A failed one changes nothing.\<close>

theorem SRem_removes:
  assumes "badger_db B view upd now D snap pend" "writable D st" "SRem E B D key ms st = (r, removed, st')"
    and "m = data (snap (db st) MaxUint64)" "m' = data (snap (db st') MaxUint64)"
  shows "case r of Inl e \<Rightarrow> m' = m | Inr u \<Rightarrow> srem_spec key ms m removed m'"
proof -
  have x: "badger_txn B view upd now" using assms(1) by (rule badger_db.axioms)
  show ?thesis unfolding assms(4,5)
    by (rule badger_db.retryUpdate_post [where P = "srem_spec key ms", OF assms(1,2)
          badger_txn.regular_saddBody(2) [OF x] assms(3) [unfolded SRem_def]])
      (use badger_txn.sremBody_post [OF x] in \<open>simp add: srem_spec_def\<close>)
qed

theorem SRem_removes_witness:
  "\<exists>st'. SRem env0 kv_ops kv_db_ops ''s'' [''b'', ''b'', ''c''] (kv_with sample_sets) = (Inr (), 1, st')
     \<and> members (data (kv_snap (db st') MaxUint64)) ''s'' = {''a''}"
proof -
  have "set_typed (kv_view sample_tx) ''s''" "set_inv (kv_view sample_tx) ''s''"
    by (simp_all add: sample_typed sample_set_inv)
  from kv.sremBody_run [OF this, of "[''b'', ''b'', ''c'']" 0] obtain t' where
    "sremBody kv_ops ''s'' [''b'', ''b'', ''c''] 0 sample_tx = Inr (1, t')" by (auto simp: sample_members)
  from kv_update_first_eager [of "sremBody kv_ops ''s'' [''b'', ''b'', ''c'']", OF this] obtain st' where
    run: "SRem env0 kv_ops kv_db_ops ''s'' [''b'', ''b'', ''c''] (kv_with sample_sets) = (Inr (), 1, st')"
    unfolding SRem_def by blast
  from SRem_removes [OF kvd.badger_db_axioms kv_with_writable run refl refl] show ?thesis
    using run by (auto simp: srem_spec_def kv_with_snap sample_set_inv sample_members set_result_def)
qed

text \<open>C25 \<^verbatim>\<open>SMOVE\<close> moves: between two keys whose records cannot overlap, a committed \<^verbatim>\<open>SMOVE\<close> answers whether the
  member was in the source, removes it there and adds it to the destination exactly in that case; both
  counters are right again and nothing else changed.\<close>

theorem SMove_moves:
  assumes "badger_db B view upd now D snap pend" "writable D st" "apart a b" "SMove E B D a b x st = (r, moved, st')"
    and "m = data (snap (db st) MaxUint64)" "m' = data (snap (db st') MaxUint64)"
  shows "case r of Inl e \<Rightarrow> m' = m | Inr u \<Rightarrow> smove_spec a b x m moved m'"
proof -
  have tx: "badger_txn B view upd now" using assms(1) by (rule badger_db.axioms)
  show ?thesis unfolding assms(5,6)
    by (rule badger_db.retryUpdate_post [where P = "smove_spec a b x", OF assms(1,2)
          badger_txn.regular_smove [OF tx] assms(4) [unfolded SMove_def]])
      (use badger_txn.smoveBody_post [OF tx _ assms(3)] in \<open>simp add: smove_spec_def Let_def\<close>)
qed

theorem SMove_moves_witness:
  "\<exists>st'. SMove env0 kv_ops kv_db_ops ''s'' ''u'' ''a'' (kv_with sample_sets) = (Inr (), True, st')
     \<and> members (data (kv_snap (db st') MaxUint64)) ''s'' = {''b''}
     \<and> members (data (kv_snap (db st') MaxUint64)) ''u'' = {''a'', ''b''}"
proof -
  have "set_inv (kv_view sample_tx) ''s''" "set_inv (kv_view sample_tx) ''u''" "''a'' \<in> members (kv_view sample_tx) ''s''"
    "card (members (kv_view sample_tx) ''s'') < 2 ^ 64"
    by (simp_all add: sample_set_inv sample_members)
  from kv.smoveBody_run [OF sample_apart this, of False] obtain t' where
    "smoveBody kv_ops ''s'' ''u'' ''a'' False sample_tx = Inr (True, t')" by blast
  from kv_update_first_eager [of "smoveBody kv_ops ''s'' ''u'' ''a''", OF this] obtain st' where
    run: "SMove env0 kv_ops kv_db_ops ''s'' ''u'' ''a'' (kv_with sample_sets) = (Inr (), True, st')"
    unfolding SMove_def by blast
  from SMove_moves [OF kvd.badger_db_axioms kv_with_writable sample_apart run refl refl] show ?thesis
    using run by (auto simp: smove_spec_def kv_with_snap sample_set_inv sample_members set_result_def)
qed

text \<open>C24 \<^verbatim>\<open>SPOP\<close> removes exactly the member it returns. When it returns none the set is unchanged, and that
  happens only when the set is empty or too large for a signed count, an earlier draw was out of range,
  or a member starts with the byte \<^verbatim>\<open>0xFF\<close>: with valid draws a pop of any other non-empty set returns a
  member.\<close>

theorem SPop_pops_one:
  assumes "badger_db B view upd now D snap pend" "writable D st" "SPop seed E B D key st = (r, x, st')"
    and "m = data (snap (db st) MaxUint64)" "m' = data (snap (db st') MaxUint64)"
  shows "case r of Inl e \<Rightarrow> m' = m | Inr u \<Rightarrow> spop_spec seed key m x m'"
proof -
  have tx: "badger_txn B view upd now" using assms(1) by (rule badger_db.axioms)
  obtain n where run: "retryUpdateLazy E B D (spopBody seed B key) 30 (spopLog key) ([], 0) st = (r, (x, n), st')"
    using assms(3) by (auto simp: SPop_def split: prod.splits)
  have "case r of Inl e \<Rightarrow> m' = m | Inr u \<Rightarrow> spop_spec seed key m (fst (x, n)) m'" unfolding assms(4,5)
    by (rule badger_db.retryUpdateLazy_post [where P = "\<lambda>m c. spop_spec seed key m (fst c)", OF assms(1,2)
          badger_txn.regular_pops(1) [OF tx] run])
      (use badger_txn.spopBody_post [OF tx] in \<open>simp add: spop_spec_def Let_def\<close>)
  then show ?thesis unfolding fst_conv .
qed

theorem SPop_pops_one_witness:
  "\<exists>x st'. SPop (\<lambda>i n. 0) env0 kv_ops kv_db_ops ''s'' (kv_with sample_sets) = (Inr (), x, st')
     \<and> x \<in> {''a'', ''b''} \<and> members (data (kv_snap (db st') MaxUint64)) ''s'' = {''a'', ''b''} - {x}"
proof -
  have ready: "pop_ready (\<lambda>n. 0) sample_m ''s''"
    by (simp add: pop_ready_def draws_ok_def sample_set_inv sample_members)
  obtain x t' where "spopBody (\<lambda>i n. 0) kv_ops ''s'' ([], 0) sample_tx = Inr ((x, 1), t')"
    using kv.spopBody_run [of "\<lambda>i n. 0" "''s''" "([], 0)" sample_tx] by auto
  from kv_update_first [of "spopBody (\<lambda>i n. 0) kv_ops ''s''", OF this, of "spopLog ''s''"] obtain st' where
    run: "SPop (\<lambda>i n. 0) env0 kv_ops kv_db_ops ''s'' (kv_with sample_sets) = (Inr (), x, st')"
    unfolding SPop_def by auto
  from SPop_pops_one [OF kvd.badger_db_axioms kv_with_writable run refl refl] show ?thesis
    using run ready by (auto simp: spop_spec_def kv_with_snap sample_set_inv sample_members set_result_def)
qed

text \<open>C8 The \<^verbatim>\<open>STORE\<close> commands replace the destination by the intersection, the union or the difference of the
  sets as they were before the command, also when the destination is one of them, and answer its size;
  the counter is right and nothing of another key changed. A failed one changes nothing.\<close>

theorem SetStore_algebra:
  assumes "badger_db B view upd now D snap pend" "writable D st" "m = data (snap (db st) MaxUint64)"
    and "SInterStore E B D dest keys st = (ri, ni, sti)" "mi = data (snap (db sti) MaxUint64)"
    and "SUnionStore E B D dest keys st = (ru, nu, stu)" "mu = data (snap (db stu) MaxUint64)"
    and "SDiffStore E B D dest keys st = (rd, nd, std)" "md = data (snap (db std) MaxUint64)"
  shows "(case ri of Inl e \<Rightarrow> mi = m | Inr u \<Rightarrow> sstore_spec dest (sinter_set keys) m ni mi)
    \<and> (case ru of Inl e \<Rightarrow> mu = m | Inr u \<Rightarrow> sstore_spec dest (sunion_set keys) m nu mu)
    \<and> (case rd of Inl e \<Rightarrow> md = m | Inr u \<Rightarrow> sstore_spec dest (sdiff_set keys) m nd md)"
proof -
  have tx: "badger_txn B view upd now" using assms(1) by (rule badger_db.axioms)
  note run = badger_db.store_run [OF assms(1,2)] and reg = badger_txn.regular_set_tx [OF tx]
  note alg = badger_txn.algebra_tx [OF tx]
  show ?thesis unfolding assms(3,5,7,9)
    using run [OF assms(4) [unfolded SInterStore_def] reg(1) alg(1)] run [OF assms(6) [unfolded SUnionStore_def] reg(2) alg(2)]
      run [OF assms(8) [unfolded SDiffStore_def] reg(3) alg(3)] by simp
qed

lemma kv_store_first:
  assumes "\<exists>us. f sample_tx = Inr (us, sample_tx) \<and> set us = S \<and> distinct us"
  shows "\<exists>st'. retryUpdate env0 kv_ops kv_db_ops (\<lambda>_. bnd f (storeResult kv_ops dest)) 30 lv 0 (kv_with sample_sets)
     = (Inr (), int (card S), st')"
proof -
  obtain us where us: "f sample_tx = Inr (us, sample_tx)" "set us = S" "distinct us" using assms by (elim exE conjE)
  obtain t' where "bnd f (storeResult kv_ops dest) sample_tx = Inr (int (card S), t')"
    using kv.storeResult_run [OF us(3), of dest sample_tx] us(2,3) by (auto simp: bnd_def us(1) distinct_card)
  from kv_update_first_eager [of "\<lambda>_. bnd f (storeResult kv_ops dest)", OF this] show ?thesis .
qed

theorem SetStore_algebra_witness:
  "\<exists>sti stu std.
     SInterStore env0 kv_ops kv_db_ops ''s'' [''s'', ''u''] (kv_with sample_sets) = (Inr (), 1, sti)
   \<and> SUnionStore env0 kv_ops kv_db_ops ''s'' [''s'', ''u''] (kv_with sample_sets) = (Inr (), 2, stu)
   \<and> SDiffStore env0 kv_ops kv_db_ops ''s'' [''s'', ''u''] (kv_with sample_sets) = (Inr (), 1, std)
   \<and> members (data (kv_snap (db sti) MaxUint64)) ''s'' = {''b''}
   \<and> members (data (kv_snap (db stu) MaxUint64)) ''s'' = {''a'', ''b''}
   \<and> members (data (kv_snap (db std) MaxUint64)) ''s'' = {''a''}"
proof -
  let ?k = "[''s'', ''u'']"
  have S: "sinter_set ?k sample_m = {''b''}" "sunion_set ?k sample_m = {''a'', ''b''}" "sdiff_set ?k sample_m = {''a''}"
    by (auto simp: sinter_set_def sunion_set_def sdiff_set_def sample_members)
  note first = kv_store_first [of "sinterTx kv_ops ?k", OF kv.algebra_tx(1)] kv_store_first [of "sunionTx kv_ops ?k", OF kv.algebra_tx(2)]
    kv_store_first [of "sdiffTx kv_ops ?k", OF kv.algebra_tx(3)]
  obtain sti stu std where
    runs: "SInterStore env0 kv_ops kv_db_ops ''s'' ?k (kv_with sample_sets) = (Inr (), 1, sti)"
      "SUnionStore env0 kv_ops kv_db_ops ''s'' ?k (kv_with sample_sets) = (Inr (), 2, stu)"
      "SDiffStore env0 kv_ops kv_db_ops ''s'' ?k (kv_with sample_sets) = (Inr (), 1, std)"
    using first unfolding SInterStore_def SUnionStore_def SDiffStore_def sample_view S by fastforce
  from SetStore_algebra [OF kvd.badger_db_axioms kv_with_writable refl runs(1) refl runs(2) refl runs(3) refl] show ?thesis
    using runs by (auto simp: sstore_spec_def set_result_def kv_with_snap S)
qed



text \<open>C26 The read commands agree with the members: \<^verbatim>\<open>SMEMBERS\<close> lists them in byte order, \<^verbatim>\<open>SISMEMBER\<close> and
  \<^verbatim>\<open>SMISMEMBER\<close> test them, \<^verbatim>\<open>SCARD\<close> counts them, \<^verbatim>\<open>SINTER\<close> and \<^verbatim>\<open>SDIFF\<close> list intersection and difference in
  byte order, \<^verbatim>\<open>SUNION\<close> lists the union without repetition, and \<^verbatim>\<open>SINTERCARD\<close> gives the size of the
  intersection, cut at the limit when that is positive.\<close>

theorem Set_reads:
  assumes "badger_db B view upd now D snap pend" "m = data (snap (db st) MaxUint64)" "set_typed m key" "set_inv m key"
  shows "SCard B D key st = Inr (word_of_nat (card (members m key)))
    \<and> SIsMember B D key x st = Inr (x \<in> members m key)
    \<and> SMIsMember B D key xs st = Inr (map (\<lambda>x. if x \<in> members m key then 1 else 0) xs)
    \<and> SMembers B D key st = Inr (sorted_list_of_set (members m key))
    \<and> SInter B D keys st = Inr (sorted_list_of_set (sinter_set keys m))
    \<and> SDiff B D keys st = Inr (sorted_list_of_set (sdiff_set keys m))
    \<and> (\<exists>us. SUnion B D keys st = Inr us \<and> set us = sunion_set keys m \<and> distinct us)
    \<and> SInterCardWithLimit B D limit keys st =
        Inr (if limit > 0 then min limit (int (card (sinter_set keys m))) else int (card (sinter_set keys m)))"
proof -
  let ?t = "newTransactionAt D (db st) MaxUint64"
  have tx: "badger_txn B view upd now" using assms(1) by (rule badger_db.axioms)
  have v: "view ?t = snap (db st) MaxUint64" by (rule badger_db.new_view [OF assms(1)])
  have ty: "set_typed (view ?t) key" "set_inv (view ?t) key" using assms(2-4) by (simp_all add: v)
  note m = assms(2)
  have chk: "checkSetType B key ?t = Inr ((), ?t)" by (simp add: badger_txn.checkSetType_run [OF tx] ty(1))
  have "isMemberLoop B key xs ?t = Inr (map (\<lambda>x. if x \<in> members (view ?t) key then 1 else 0) xs, ?t)"
    by (induction xs) (simp_all add: bnd_def badger_txn.lookup_run [OF tx] members_def)
  then have mi: "SMIsMember B D key xs st = Inr (map (\<lambda>x. if x \<in> members m key then 1 else 0) xs)"
    by (simp add: SMIsMember_def View_def m v)
  have "SCard B D key st = Inr (word_of_nat (card (members m key)))"
    using ty(2) by (simp add: SCard_def View_def andThen_def bnd_def chk badger_txn.readCount_run [OF tx] m v set_inv_def)
  moreover have "SIsMember B D key x st = Inr (x \<in> members m key)"
    by (simp add: SIsMember_def View_def andThen_def bnd_def chk badger_txn.lookup_run [OF tx] m v) (simp add: members_def)
  moreover have "SMembers B D key st = Inr (sorted_list_of_set (members m key))"
    by (simp add: SMembers_def View_def andThen_def bnd_def chk badger_txn.getAllMembers_run [OF tx] m v)
  moreover have "SInter B D keys st = Inr (sorted_list_of_set (sinter_set keys m))"
    "SDiff B D keys st = Inr (sorted_list_of_set (sdiff_set keys m))"
    by (simp_all add: SInter_def SDiff_def View_def badger_txn.sinterTx_run [OF tx] badger_txn.sdiffTx_run [OF tx]
        inter_list_set diff_list_set m v)
  moreover have "\<exists>us. SUnion B D keys st = Inr us \<and> set us = sunion_set keys m \<and> distinct us"
    using badger_txn.algebra_tx(2) [OF tx, of keys ?t] by (auto simp: SUnion_def View_def m v)
  moreover have "SInterCardWithLimit B D limit keys st =
      Inr (if limit > 0 then min limit (int (card (sinter_set keys m))) else int (card (sinter_set keys m)))"
    using badger_db.interCard_run [OF assms(1), of limit keys st] by (simp add: m)
  ultimately show ?thesis using mi by blast
qed

theorem Set_reads_witness:
  "SCard kv_ops kv_db_ops ''s'' (kv_with sample_sets) = Inr 2
   \<and> SInterCardWithLimit kv_ops kv_db_ops 1 [''s'', ''s''] (kv_with sample_sets) = Inr 1"
proof -
  let ?m = "data (kv_snap (db (kv_with sample_sets)) MaxUint64)"
  have ty: "set_typed ?m ''s''" "set_inv ?m ''s''" by (simp_all add: kv_with_snap sample_typed sample_set_inv)
  have "sinter_set [''s'', ''s''] ?m = {''a'', ''b''}"
    by (simp add: sinter_set_def kv_with_snap sample_members)
  then show ?thesis
    using Set_reads [OF kvd.badger_db_axioms refl ty, of "[]" "[]" "[''s'', ''s'']" 1]
    by (simp add: kv_with_snap sample_members)
qed

text \<open>Two findings. \<^verbatim>\<open>SMOVE\<close> of a member to the set it is in removes it, where Redis does nothing; and a
  member that starts with the byte \<^verbatim>\<open>0xFF\<close> is stepped over by the reverse scan of \<^verbatim>\<open>SPOP\<close>.\<close>

context badger_txn
begin

lemma smoveBody_same:
  assumes "set_inv (view t) a" "x \<in> members (view t) a" "card (members (view t) a) < 2 ^ 64"
  shows "\<exists>t'. smoveBody B a a x c t = Inr (True, t') \<and> x \<notin> members (view t') a"
proof -
  have "0 < set_count (view t) a"
    using assms word_of_nat_pos [of "card (members (view t) a)"] finite_members [of t a]
    by (auto simp: set_inv_def card_gt_0_iff)
  then obtain ci where "view t (countKey a) = Some ci" "0 < BytesToUint64 (ival ci)"
    by (auto simp: set_count_def split: option.splits)
  moreover obtain i where "view t (memberKey a x) = Some i" using assms(2) by (auto simp: members_def)
  ultimately show ?thesis
    by (simp add: smoveBody_def andThen_def bnd_def txn_simps view_upd members_def)
qed

end

theorem SMove_same_key_deletes:
  assumes "badger_txn B view upd now" "set_inv (view t) a" "x \<in> members (view t) a" "card (members (view t) a) < 2 ^ 64"
  shows "\<exists>t'. smoveBody B a a x c t = Inr (True, t') \<and> x \<notin> members (view t') a"
  by (rule badger_txn.smoveBody_same [OF assms])

theorem SPop_misses_FF:
  "spopBody (\<lambda>i n. 0) kv_ops ''s'' ([], 0) (newTransactionAt kv_db_ops (db (kv_with
     [(memberKey ''s'' [CHR 0xFF, CHR ''a''], plain []), (countKey ''s'', plain (Uint64ToBytes 1))])) MaxUint64)
   = Inr (([], 1), newTransactionAt kv_db_ops (db (kv_with
     [(memberKey ''s'' [CHR 0xFF, CHR ''a''], plain []), (countKey ''s'', plain (Uint64ToBytes 1))])) MaxUint64)"
  by code_simp

end
