(* ===== verification/Glob.thy ===== *)
theory Glob
  imports BoltPrelude
begin

text \<open>
  The wildcard matcher of \<^verbatim>\<open>internal/store/scan.go\<close> (\<^verbatim>\<open>matchPattern\<close>), used by \<^verbatim>\<open>KEYS\<close>, \<^verbatim>\<open>SCAN\<close> and \<^verbatim>\<open>SSCAN\<close>. The
  code runs a dynamic programme over the runes of key and pattern with two rows; it is proved equal to
  the inductive meaning of a pattern. The conversion \<^verbatim>\<open>[]rune(s)\<close> is Go's UTF-8 decoder: a byte that does not start a
  valid sequence gives \<^verbatim>\<open>U+FFFD\<close> and takes one byte.
\<close>

section \<open>Runes\<close>

abbreviation (input) runeError :: nat where "runeError \<equiv> 0xFFFD"

definition byte_in :: "nat \<Rightarrow> nat \<Rightarrow> char \<Rightarrow> bool" where
  "byte_in lo hi c \<longleftrightarrow> lo \<le> of_char c \<and> of_char c \<le> hi"

definition is_cont :: "char \<Rightarrow> bool" where
  "is_cont c = byte_in 0x80 0xBF c"

definition cont_bits :: "char \<Rightarrow> nat" where
  "cont_bits c = of_char c mod 64"

text \<open>\<^verbatim>\<open>utf8.DecodeRune\<close>: the rune and its width; the bounds of the second byte exclude overlong forms,
  surrogates and values above \<^verbatim>\<open>U+10FFFF\<close>.\<close>

definition second_ok :: "nat \<Rightarrow> char \<Rightarrow> bool" where
  "second_ok b0 c = (if b0 = 0xE0 then byte_in 0xA0 0xBF c
     else if b0 = 0xED then byte_in 0x80 0x9F c
     else if b0 = 0xF0 then byte_in 0x90 0xBF c
     else if b0 = 0xF4 then byte_in 0x80 0x8F c
     else is_cont c)"

definition decodeRune :: "char \<Rightarrow> bytes \<Rightarrow> nat \<times> nat" where
  "decodeRune c r = (let b0 = of_char c :: nat in
     if b0 < 0x80 then (b0, 1)
     else if 0xC2 \<le> b0 \<and> b0 \<le> 0xDF then
       (case r of c1 # _ \<Rightarrow> if is_cont c1 then (b0 mod 32 * 64 + cont_bits c1, 2) else (runeError, 1)
        | _ \<Rightarrow> (runeError, 1))
     else if 0xE0 \<le> b0 \<and> b0 \<le> 0xEF then
       (case r of c1 # c2 # _ \<Rightarrow>
          if second_ok b0 c1 \<and> is_cont c2
          then (b0 mod 16 * 4096 + cont_bits c1 * 64 + cont_bits c2, 3) else (runeError, 1)
        | _ \<Rightarrow> (runeError, 1))
     else if 0xF0 \<le> b0 \<and> b0 \<le> 0xF4 then
       (case r of c1 # c2 # c3 # _ \<Rightarrow>
          if second_ok b0 c1 \<and> is_cont c2 \<and> is_cont c3
          then (b0 mod 8 * 262144 + cont_bits c1 * 4096 + cont_bits c2 * 64 + cont_bits c3, 4) else (runeError, 1)
        | _ \<Rightarrow> (runeError, 1))
     else (runeError, 1))"

fun runes :: "bytes \<Rightarrow> nat list" where
  "runes [] = []"
| "runes (c # r) = fst (decodeRune c r) # runes (drop (snd (decodeRune c r) - 1) r)"

section \<open>The matcher\<close>

abbreviation (input) starRune :: nat where "starRune \<equiv> 42"
abbreviation (input) queryRune :: nat where "queryRune \<equiv> 63"

text \<open>The first row: entry \<open>j\<close> tells whether the first \<open>j\<close> runes of the pattern match the empty key.\<close>

fun firstRow :: "bool \<Rightarrow> nat list \<Rightarrow> bool list" where
  "firstRow b [] = [b]"
| "firstRow b (p # ps) = b # firstRow (p = starRune \<and> b) ps"

text \<open>One round of the outer loop: \<open>left\<close> is \<^verbatim>\<open>curr[j-1]\<close>, the row \<^verbatim>\<open>prev\<close> starts at index \<^verbatim>\<open>j-1\<close>.\<close>

fun nextRow :: "bool \<Rightarrow> nat \<Rightarrow> nat list \<Rightarrow> bool list \<Rightarrow> bool list" where
  "nextRow left k (p # ps) (d # u # prev) =
     left # nextRow (if p = starRune then left \<or> u else if p = queryRune then d else if p = k then d else False)
              k ps (u # prev)"
| "nextRow left k ps prev = [left]"

definition matchRunes :: "nat list \<Rightarrow> nat list \<Rightarrow> bool" where
  "matchRunes ks ps = foldl (\<lambda>prev k. nextRow False k ps prev) (firstRow True ps) ks ! length ps"

definition matchPattern :: "bytes \<Rightarrow> bytes \<Rightarrow> bool" where
  "matchPattern key pattern =
     (if pattern = ''*'' then True
      else let ks = runes key; ps = runes pattern
           in if ps = [] then ks = [] else matchRunes ks ps)"

section \<open>The meaning of a pattern\<close>

inductive glob :: "nat list \<Rightarrow> nat list \<Rightarrow> bool" where
  glob_Nil: "glob [] []"
| glob_star: "glob ps ys \<Longrightarrow> glob (starRune # ps) (xs @ ys)"
| glob_any: "glob ps ks \<Longrightarrow> glob (queryRune # ps) (k # ks)"
| glob_lit: "p \<noteq> starRune \<Longrightarrow> p \<noteq> queryRune \<Longrightarrow> glob ps ks \<Longrightarrow> glob (p # ps) (p # ks)"

inductive_simps glob_Nil_iff [simp]: "glob [] ks"
inductive_simps glob_Cons_iff: "glob (p # ps) ks"

lemma glob_append: "glob (ps @ qs) ks \<longleftrightarrow> (\<exists>a b. ks = a @ b \<and> glob ps a \<and> glob qs b)"
proof
  show "\<exists>a b. ks = a @ b \<and> glob ps a \<and> glob qs b" if "glob (ps @ qs) ks"
    using that
  proof (induction ps arbitrary: ks)
    case (Cons p ps)
    from Cons.prems have "glob (p # (ps @ qs)) ks" by simp
    then consider (star) xs ys where "p = starRune" "ks = xs @ ys" "glob (ps @ qs) ys"
      | (any) k ys where "p = queryRune" "ks = k # ys" "glob (ps @ qs) ys"
      | (lit) ys where "p \<noteq> starRune" "p \<noteq> queryRune" "ks = p # ys" "glob (ps @ qs) ys"
      by (auto simp: glob_Cons_iff)
    then show ?case
    proof cases
      case star
      then obtain a b where "ys = a @ b" "glob ps a" "glob qs b" using Cons.IH by blast
      then show ?thesis using star by (intro exI [of _ "xs @ a"] exI [of _ b]) (auto intro: glob.intros)
    next
      case any
      then obtain a b where "ys = a @ b" "glob ps a" "glob qs b" using Cons.IH by blast
      then show ?thesis using any by (intro exI [of _ "k # a"] exI [of _ b]) (auto intro: glob.intros)
    next
      case lit
      then obtain a b where "ys = a @ b" "glob ps a" "glob qs b" using Cons.IH by blast
      then show ?thesis using lit by (intro exI [of _ "p # a"] exI [of _ b]) (auto intro: glob.intros)
    qed
  qed simp
  have "glob (ps @ qs) (a @ b)" if "glob ps a" "glob qs b" for a b
    using that by (induction rule: glob.induct) (auto intro: glob.intros)
  then show "glob (ps @ qs) ks" if "\<exists>a b. ks = a @ b \<and> glob ps a \<and> glob qs b" using that by blast
qed

lemma glob_single: "glob [p] ks \<longleftrightarrow> p = starRune \<or> (\<exists>k. ks = [k] \<and> (p = queryRune \<or> p = k))"
  by (auto simp: glob_Cons_iff)

text \<open>The recurrence of the dynamic programme.\<close>

lemma glob_snoc:
  "glob (ps @ [p]) [] \<longleftrightarrow> p = starRune \<and> glob ps []"
  "glob (ps @ [p]) (ks @ [k]) \<longleftrightarrow>
     (if p = starRune then glob ps (ks @ [k]) \<or> glob (ps @ [p]) ks else (p = queryRune \<or> p = k) \<and> glob ps ks)"
proof -
  show "glob (ps @ [p]) [] \<longleftrightarrow> p = starRune \<and> glob ps []" by (auto simp: glob_append glob_single)
  show "glob (ps @ [p]) (ks @ [k]) \<longleftrightarrow>
     (if p = starRune then glob ps (ks @ [k]) \<or> glob (ps @ [p]) ks else (p = queryRune \<or> p = k) \<and> glob ps ks)"
  proof (cases "p = starRune")
    case True
    have "(\<exists>a b. ks @ [k] = a @ b \<and> glob ps a) \<longleftrightarrow> glob ps (ks @ [k]) \<or> (\<exists>a b. ks = a @ b \<and> glob ps a)"
    proof safe
      fix a b
      assume "ks @ [k] = a @ b" "glob ps a" "\<nexists>a b. ks = a @ b \<and> glob ps a"
      then show "glob ps (ks @ [k])" by (cases b rule: rev_cases) auto
    next
      show "\<exists>a b. ks @ [k] = a @ b \<and> glob ps a" if "glob ps (ks @ [k])" using that by blast
      show "\<exists>aa ba. (a @ b) @ [k] = aa @ ba \<and> glob ps aa" if "glob ps a" for a b
        using that by (intro exI [of _ a] exI [of _ "b @ [k]"]) simp
    qed
    then show ?thesis using True by (simp add: glob_append glob_single)
  next
    case False
    then show ?thesis by (auto simp: glob_append glob_single)
  qed
qed

lemma map_take_Cons:
  "map (\<lambda>j. f (take j (q # qs))) [0..<Suc (length (q # qs))] = f [] # map (\<lambda>j. f (q # take j qs)) [0..<Suc (length qs)]"
  unfolding length_Cons upt_conv_Cons [OF zero_less_Suc, of "Suc (length qs)"] map_Suc_upt [symmetric]
  by (simp del: upt_Suc)

lemma firstRow_glob:
  "b = glob ps [] \<Longrightarrow> firstRow b qs = map (\<lambda>j. glob (ps @ take j qs) []) [0..<Suc (length qs)]"
proof (induction qs arbitrary: b ps)
  case (Cons q qs)
  have "firstRow (q = starRune \<and> b) qs = map (\<lambda>j. glob ((ps @ [q]) @ take j qs) []) [0..<Suc (length qs)]"
    by (rule Cons.IH) (simp add: glob_snoc Cons.prems)
  then show ?case using Cons.prems map_take_Cons [of "\<lambda>x. glob (ps @ x) []" q qs] by (simp del: upt_Suc length_Cons)
qed simp

lemma nextRow_glob:
  assumes "left = glob ps (ks @ [k])"
    "row = map (\<lambda>j. glob (ps @ take j qs) ks) [0..<Suc (length qs)]"
  shows "nextRow left k qs row = map (\<lambda>j. glob (ps @ take j qs) (ks @ [k])) [0..<Suc (length qs)]"
  using assms
proof (induction qs arbitrary: left ps row)
  case (Cons q qs)
  define u where "u = glob (ps @ [q]) ks"
  define row' where "row' = map (\<lambda>j. glob ((ps @ [q]) @ take j qs) ks) [0..<Suc (length qs)]"
  have row: "row = glob ps ks # row'"
    using Cons.prems(2) map_take_Cons [of "\<lambda>x. glob (ps @ x) ks" q qs] by (simp add: row'_def del: upt_Suc length_Cons)
  have row': "row' = u # tl row'"
    unfolding row'_def u_def upt_conv_Cons [OF zero_less_Suc] by simp
  define l where "l = (if q = starRune then left \<or> u else if q = queryRune then glob ps ks else if q = k then glob ps ks else False)"
  have "l = glob (ps @ [q]) (ks @ [k])" using Cons.prems(1) by (auto simp: glob_snoc l_def u_def)
  from Cons.IH [OF this row'_def] have ih:
    "nextRow l k qs row' = map (\<lambda>j. glob ((ps @ [q]) @ take j qs) (ks @ [k])) [0..<Suc (length qs)]" .
  have "nextRow left k (q # qs) row = left # nextRow l k qs row'"
    unfolding row l_def by (subst (1 2) row') (simp only: nextRow.simps)
  then show ?case
    unfolding ih using Cons.prems(1) map_take_Cons [of "\<lambda>x. glob (ps @ x) (ks @ [k])" q qs] by (simp del: upt_Suc length_Cons)
qed simp

lemma rows_glob:
  "foldl (\<lambda>prev k. nextRow False k ps prev) (firstRow True ps) ks = map (\<lambda>j. glob (take j ps) ks) [0..<Suc (length ps)]"
proof (induction ks rule: rev_induct)
  case Nil
  show ?case using firstRow_glob [of True "[]" ps] by (simp del: upt_Suc)
next
  case (snoc k ks)
  then show ?case using nextRow_glob [of False "[]" ks k _ ps] by (simp del: upt_Suc)
qed

lemma matchRunes_glob: "matchRunes ks ps = glob ps ks"
  by (simp add: matchRunes_def rows_glob del: upt_Suc)

lemma runes_Nil_iff [simp]: "runes s = [] \<longleftrightarrow> s = []"
  by (cases s) simp_all

lemma runes_ascii: "list_all (\<lambda>c. (of_char c :: nat) < 0x80) s \<Longrightarrow> runes s = map of_char s"
  by (induction s) (simp_all add: decodeRune_def Let_def)

lemma matchPattern_eq: "matchPattern key pattern = glob (runes pattern) (runes key)"
proof (cases "pattern = ''*''")
  case True
  then show ?thesis by (simp add: matchPattern_def decodeRune_def glob_single)
next
  case False
  then show ?thesis by (simp add: matchPattern_def matchRunes_glob Let_def)
qed

text \<open>C30 The wildcard matcher is correct: the two-row dynamic programme accepts a key exactly when the pattern, read
  rune by rune with \<^verbatim>\<open>*\<close> for any run of runes and \<^verbatim>\<open>?\<close> for one, matches the whole key.\<close>

theorem matchPattern_glob: "matchPattern key pattern \<longleftrightarrow> glob (runes pattern) (runes key)"
  by (simp only: matchPattern_eq)

end
