(* ===== verification/Scan.thy ===== *)
theory Scan
  imports Sets Glob
begin

text \<open>
  Iteration over the key space: \<^verbatim>\<open>internal/store/scan.go\<close> (\<^verbatim>\<open>SCAN\<close>, \<^verbatim>\<open>KEYS\<close>, \<^verbatim>\<open>DBSIZE\<close>, \<^verbatim>\<open>RANDOMKEY\<close>) and \<^verbatim>\<open>SSCAN\<close> of
  \<^verbatim>\<open>set.go\<close>. A cursor is the number of a bookmark in a map of the process; the map is pruned in the
  iteration order of a Go map, which is the argument \<open>order\<close>: the keys of the map in the order of that
  \<^verbatim>\<open>range\<close>.
\<close>

section \<open>Bookmarks\<close>

definition maxScanBookmarks :: nat where "maxScanBookmarks = 10000"

definition scanBookmarkLookup :: "u64 \<Rightarrow> 'd bolt \<Rightarrow> bytes option" where
  "scanBookmarkLookup cursor s = scanBookmarks s cursor"

definition scanBookmarkRelease :: "u64 \<Rightarrow> 'd bolt \<Rightarrow> 'd bolt" where
  "scanBookmarkRelease cursor s =
     (if cursor = 0 then s else s\<lparr>scanBookmarks := (scanBookmarks s)(cursor := None)\<rparr>)"

text \<open>The pruning loop over the keys \<open>ks\<close> of a map of size \<open>n\<close>.\<close>

fun evictLoop :: "u64 \<Rightarrow> nat \<Rightarrow> u64 list \<Rightarrow> nat \<Rightarrow> (u64 \<rightharpoonup> bytes) \<Rightarrow> (u64 \<rightharpoonup> bytes)" where
  "evictLoop ident target [] n m = m"
| "evictLoop ident target (k # ks) n m =
     (if k = ident then evictLoop ident target ks n m
      else if n - 1 \<le> target then m(k := None)
      else evictLoop ident target ks (n - 1) (m(k := None)))"

definition scanBookmarkStore :: "((u64 \<rightharpoonup> bytes) \<Rightarrow> u64 list) \<Rightarrow> bytes \<Rightarrow> 'd bolt \<Rightarrow> u64 \<times> 'd bolt" where
  "scanBookmarkStore order lastKey s =
     (let ident = scanBookmarkSeq s + 1;
          m = (scanBookmarks s)(ident := Some lastKey);
          ks = order m;
          m' = (if length ks > maxScanBookmarks
                then evictLoop ident (maxScanBookmarks * 3 div 4) ks (length ks) m else m)
      in (ident, s\<lparr>scanBookmarks := m', scanBookmarkSeq := ident\<rparr>))"

section \<open>SCAN and SSCAN\<close>

definition wanted :: "bytes \<Rightarrow> bytes \<Rightarrow> bool" where
  "wanted pattern key \<longleftrightarrow> pattern = [] \<or> pattern = ''*'' \<or> matchPattern key pattern"

text \<open>The collecting loop on the keys the iterator is at: the names found, the last key visited, and
  whether the iterator is still valid; \<open>n\<close> names may still be collected.\<close>

fun scanLoop :: "nat \<Rightarrow> bytes \<Rightarrow> nat \<Rightarrow> bytes \<Rightarrow> bytes list \<Rightarrow> bytes list \<times> bytes \<times> bool" where
  "scanLoop plen pattern n lastKey [] = ([], lastKey, False)"
| "scanLoop plen pattern n lastKey (k # ks) =
     (if n = 0 then ([], lastKey, True)
      else if wanted pattern (drop plen k)
      then (case scanLoop plen pattern (n - 1) k ks of (names, r) \<Rightarrow> (drop plen k # names, r))
      else scanLoop plen pattern n k ks)"

definition scanCount :: "int \<Rightarrow> nat" where
  "scanCount cnt = nat (if cnt \<le> 0 then 10 else cnt)"

definition scanItems :: "'t txn_ops \<Rightarrow> bytes option \<Rightarrow> bytes \<Rightarrow> ('t, (bytes \<times> item) list) tx" where
  "scanItems B seekKey p = (case seekKey of
      None \<Rightarrow> iterPrefix B False p p
    | Some k \<Rightarrow> iterPrefix B False k p)"

definition scanFinish ::
  "((u64 \<rightharpoonup> bytes) \<Rightarrow> u64 list) \<Rightarrow> go_error + bytes list \<times> bytes \<times> bool \<Rightarrow> 'd bolt
   \<Rightarrow> (go_error + u64 \<times> bytes list) \<times> 'd bolt" where
  "scanFinish order r s = (case r of
      Inl e \<Rightarrow> (Inl e, s)
    | Inr (names, lastKey, again) \<Rightarrow>
        if again then (case scanBookmarkStore order lastKey s of (c, s') \<Rightarrow> (Inr (c, names), s'))
        else (Inr (0, names), s))"

definition Scan ::
  "((u64 \<rightharpoonup> bytes) \<Rightarrow> u64 list) \<Rightarrow> 't txn_ops \<Rightarrow> ('d, 't) db_ops \<Rightarrow> u64 \<Rightarrow> bytes \<Rightarrow> int \<Rightarrow> 'd bolt
   \<Rightarrow> (go_error + u64 \<times> bytes list) \<times> 'd bolt" where
  "Scan order B D cursor pattern cnt s =
     (let seekKey = scanBookmarkLookup cursor s;
          s1 = scanBookmarkRelease cursor s;
          p = prefixKeyTypeBytes;
          r = View D (bnd (scanItems B seekKey p) (\<lambda>its.
                let its' = (if seekKey \<noteq> None then drop 1 its else its)
                in ret (scanLoop (length p) pattern (scanCount cnt) [] (map fst its')))) (core s1)
      in scanFinish order r s1)"

definition SScan ::
  "((u64 \<rightharpoonup> bytes) \<Rightarrow> u64 list) \<Rightarrow> 't txn_ops \<Rightarrow> ('d, 't) db_ops \<Rightarrow> bytes \<Rightarrow> u64 \<Rightarrow> bytes \<Rightarrow> int \<Rightarrow> 'd bolt
   \<Rightarrow> (go_error + u64 \<times> bytes list) \<times> 'd bolt" where
  "SScan order B D key cursor pattern cnt s =
     (let seekKey = scanBookmarkLookup cursor s;
          s1 = scanBookmarkRelease cursor s;
          p = memberPrefix key;
          r = View D (bnd (scanItems B seekKey p) (\<lambda>its.
                ret (scanLoop (length p) pattern (scanCount cnt) [] (map fst its)))) (core s1)
      in scanFinish order r s1)"

section \<open>KEYS, DBSIZE and RANDOMKEY\<close>

definition typeNamesTx :: "'t txn_ops \<Rightarrow> ('t, bytes list) tx" where
  "typeNamesTx B = bnd (iterPrefix B False prefixKeyTypeBytes prefixKeyTypeBytes) (\<lambda>its.
     ret (map (\<lambda>(k, i). drop (length prefixKeyTypeBytes) k) its))"

definition DBSize :: "'t txn_ops \<Rightarrow> ('d, 't) db_ops \<Rightarrow> 'd store \<Rightarrow> go_error + int" where
  "DBSize B D st = View D (bnd (iterPrefix B False prefixKeyTypeBytes prefixKeyTypeBytes) (\<lambda>its.
     ret (int (length its)))) st"

definition Keys :: "'t txn_ops \<Rightarrow> ('d, 't) db_ops \<Rightarrow> bytes \<Rightarrow> 'd store \<Rightarrow> go_error + bytes list" where
  "Keys B D pattern st = View D (bnd (typeNamesTx B) (\<lambda>names.
     ret (filter (\<lambda>key. matchPattern key pattern) names))) st"

definition RandomKey ::
  "(nat \<Rightarrow> int \<Rightarrow> int) \<Rightarrow> 't txn_ops \<Rightarrow> ('d, 't) db_ops \<Rightarrow> 'd store \<Rightarrow> go_error + bytes" where
  "RandomKey rnd B D st = View D (bnd (typeNamesTx B) (\<lambda>names.
     ret (case reservoir rnd 0 None names of None \<Rightarrow> [] | Some key \<Rightarrow> key))) st"

section \<open>The names in the key space\<close>

text \<open>Every key has one type record; the names are listed in byte order.\<close>

definition names :: "(bytes \<rightharpoonup> item) \<Rightarrow> bytes set" where
  "names m = {x. m (TypeOfKeyGet x) \<noteq> None}"

lemma TypeOfKeyGet_less: "TypeOfKeyGet x < TypeOfKeyGet y \<longleftrightarrow> x < y"
  by (simp only: TypeOfKeyGet_def append_less_iff)

lemma finite_names: "finite (dom m) \<Longrightarrow> finite (names m)"
proof -
  assume "finite (dom m)"
  moreover have "TypeOfKeyGet ` names m \<subseteq> dom m" by (auto simp: names_def)
  moreover have "inj_on TypeOfKeyGet (names m)" by (auto simp: inj_on_def TypeOfKeyGet_def)
  ultimately show ?thesis using finite_subset inj_on_finite by blast
qed

lemma scan_names:
  assumes "finite (dom m)"
  shows "scan_prefix m prefixKeyTypeBytes = map TypeOfKeyGet (sorted_list_of_set (names m))"
proof -
  have "{x \<in> dom m. prefix prefixKeyTypeBytes x} = TypeOfKeyGet ` names m"
    by (auto simp: names_def prefix_def TypeOfKeyGet_def)
  then show ?thesis
    using sorted_list_of_set_image_mono [of TypeOfKeyGet "names m"] finite_names [OF assms] TypeOfKeyGet_less
    by (simp add: scan_prefix_def)
qed

lemma names_data [simp]: "names (data m) = names m"
  by (simp add: names_def)

lemma drop_TypeOfKeyGet [simp]:
  "drop (length prefixKeyTypeBytes) (TypeOfKeyGet x) = x" "drop (Suc (Suc (Suc (Suc (Suc 0))))) (TypeOfKeyGet x) = x"
  by (simp_all add: TypeOfKeyGet_def)

text \<open>Resuming a scan at a key with the prefix.\<close>

lemma takeWhile_live_resume:
  assumes "finite (dom m)" "prefix p k"
  shows "map fst (takeWhile (\<lambda>x. prefix p (fst x)) (live_from m k)) = filter (\<lambda>x. k \<le> x) (scan_prefix m p)"
proof -
  let ?ks = "sorted_list_of_set {x \<in> dom m. k \<le> x}"
  have "map fst (takeWhile (\<lambda>x. prefix p (fst x)) (live_from m k)) = takeWhile (prefix p) ?ks"
    by (simp add: live_from_def takeWhile_map comp_def)
  also have "\<dots> = filter (prefix p) ?ks"
  proof (rule takeWhile_prefix_sorted)
    show "\<forall>x \<in> set ?ks. p \<le> x" using assms prefix_ge [OF assms(2)] by auto
  qed simp
  also have "\<dots> = sorted_list_of_set {x \<in> dom m. k \<le> x \<and> prefix p x}"
    using filter_sorted_list_of_set [of "{x \<in> dom m. k \<le> x}" "prefix p"] assms(1) by simp
  also have "\<dots> = filter (\<lambda>x. k \<le> x) (scan_prefix m p)"
    using filter_sorted_list_of_set [of "{x \<in> dom m. prefix p x}" "(\<le>) k"] assms(1)
    by (simp add: scan_prefix_def conj_ac)
  finally show ?thesis .
qed

lemma filter_from_middle:
  assumes "sorted_wrt (<) (pre @ k # post)"
  shows "filter (\<lambda>x. k \<le> (x :: bytes)) (pre @ k # post) = k # post"
proof -
  have "\<not> k \<le> x" if "x \<in> set pre" for x using assms that by (auto simp: sorted_wrt_append leD)
  moreover have "k \<le> x" if "x \<in> set post" for x using assms that by (auto simp: sorted_wrt_append less_imp_le)
  ultimately show ?thesis by (auto simp: filter_id_conv)
qed

lemma evictLoop_keeps: "evictLoop ident target ks n m ident = m ident"
  by (induction ks arbitrary: n m) simp_all

lemma scanBookmarkStore_keeps:
  "scanBookmarkStore order k s = (c, s') \<Longrightarrow> c = scanBookmarkSeq s + 1 \<and> scanBookmarks s' c = Some k
     \<and> scanBookmarkSeq s' = c \<and> core s' = core s"
  by (auto simp: scanBookmarkStore_def Let_def evictLoop_keeps)

lemma scanLoop_split:
  assumes "0 < n \<or> ks = []"
  shows "\<exists>a b. ks = a @ b \<and> scanLoop plen pattern n l ks =
      (filter (wanted pattern) (map (drop plen) a), if a = [] then l else last a, b \<noteq> []) \<and> (ks \<noteq> [] \<longrightarrow> a \<noteq> [])"
proof -
  have gen: "\<exists>a b. ks = a @ b \<and> scanLoop plen pattern n l ks =
      (filter (wanted pattern) (map (drop plen) a), if a = [] then l else last a, b \<noteq> []) \<and> (0 < n \<and> ks \<noteq> [] \<longrightarrow> a \<noteq> [])"
    for n l ks
  proof (induction ks arbitrary: n l)
    case (Cons k ks)
    show ?case
    proof (cases "n = 0")
      case True
      then show ?thesis by (intro exI [of _ "[]"] exI [of _ "k # ks"]) simp
    next
      case False
      from Cons.IH [of "if wanted pattern (drop plen k) then n - 1 else n" k] obtain a b where ab: "ks = a @ b"
        "scanLoop plen pattern (if wanted pattern (drop plen k) then n - 1 else n) k ks =
          (filter (wanted pattern) (map (drop plen) a), if a = [] then k else last a, b \<noteq> [])"
        by (elim exE conjE)
      then have "scanLoop plen pattern n l (k # ks) =
          (filter (wanted pattern) (map (drop plen) (k # a)), last (k # a), b \<noteq> [])"
        using False by (cases "wanted pattern (drop plen k)") simp_all
      then show ?thesis using ab(1) by (intro exI [of _ "k # a"] exI [of _ b]) simp
    qed
  qed simp
  from gen [of ks n l] obtain a b where ab: "ks = a @ b" "scanLoop plen pattern n l ks =
      (filter (wanted pattern) (map (drop plen) a), if a = [] then l else last a, b \<noteq> [])" "0 < n \<and> ks \<noteq> [] \<longrightarrow> a \<noteq> []"
    by (elim exE conjE)
  have "ks \<noteq> [] \<longrightarrow> a \<noteq> []" using ab(3) assms by blast
  with ab(1,2) show ?thesis by (intro exI [of _ a] exI [of _ b] conjI)
qed

text \<open>What the cursor \<open>c\<close> stands for: the records still to visit.\<close>

definition resumes :: "bytes \<Rightarrow> (bytes \<rightharpoonup> item) \<Rightarrow> 'd bolt \<Rightarrow> u64 \<Rightarrow> bytes list \<Rightarrow> bool" where
  "resumes p m s c ks \<longleftrightarrow>
     scanBookmarks s c = None \<and> ks = scan_prefix m p
     \<or> (\<exists>pre k. scanBookmarks s c = Some k \<and> scan_prefix m p = pre @ k # ks)"

context badger_db
begin

lemma scanItems_resumes:
  assumes "resumes p (snap (db st) MaxUint64) s c ks"
  shows "\<exists>its. scanItems B (scanBookmarkLookup c s) p (newTransactionAt D (db st) MaxUint64)
      = Inr (its, newTransactionAt D (db st) MaxUint64)
    \<and> map fst (if scanBookmarkLookup c s \<noteq> None then drop 1 its else its) = ks"
proof (cases "scanBookmarks s c")
  case None
  then show ?thesis
    using assms by (auto simp: resumes_def scanItems_def scanBookmarkLookup_def iterPrefix_keys new_view comp_def)
next
  case (Some k)
  let ?m = "snap (db st) MaxUint64" and ?t = "newTransactionAt D (db st) MaxUint64"
  obtain pre where pre: "scan_prefix ?m p = pre @ k # ks" using assms Some by (auto simp: resumes_def)
  have sorted: "sorted_wrt (<) (scan_prefix ?m p)" unfolding scan_prefix_def by (rule strict_sorted_list_of_set)
  have fin: "finite (dom ?m)" using finite_view [of ?t] by (simp add: new_view)
  then have "k \<in> {x \<in> dom ?m. prefix p x}" using set_scan_prefix [of ?m p] pre by auto
  then have "map fst (takeWhile (\<lambda>x. prefix p (fst x)) (live_from ?m k)) = filter (\<lambda>x. k \<le> x) (scan_prefix ?m p)"
    using takeWhile_live_resume [OF fin] by blast
  also have "\<dots> = k # ks"
    unfolding pre by (rule filter_from_middle) (rule sorted [unfolded pre])
  finally have "map fst (drop 1 (takeWhile (\<lambda>x. prefix p (fst x)) (live_from ?m k))) = ks" by (simp add: drop_map [symmetric])
  then show ?thesis
    using Some by (simp add: scanItems_def scanBookmarkLookup_def iterPrefix_def iter_law new_view)
qed

lemma Scan_step:
  assumes "resumes prefixKeyTypeBytes (snap (db (core s)) MaxUint64) s c ks"
  shows "\<exists>a b r s'. ks = a @ b \<and> (ks \<noteq> [] \<longrightarrow> a \<noteq> [])
    \<and> Scan order B D c pattern cnt s = (Inr (r, filter (wanted pattern) (map (drop (length prefixKeyTypeBytes)) a)), s')
    \<and> core s' = core s
    \<and> (if b = [] then r = 0 else r = scanBookmarkSeq s + 1 \<and> scanBookmarkSeq s' = r
         \<and> resumes prefixKeyTypeBytes (snap (db (core s)) MaxUint64) s' r b)"
proof -
  let ?p = "prefixKeyTypeBytes" and ?m = "snap (db (core s)) MaxUint64" and ?s1 = "scanBookmarkRelease c s"
  have s1: "core ?s1 = core s" "scanBookmarkSeq ?s1 = scanBookmarkSeq s" by (simp_all add: scanBookmarkRelease_def)
  obtain its where its: "scanItems B (scanBookmarkLookup c s) ?p (newTransactionAt D (db (core s)) MaxUint64)
      = Inr (its, newTransactionAt D (db (core s)) MaxUint64)"
    "map fst (if scanBookmarkLookup c s \<noteq> None then drop 1 its else its) = ks"
    using scanItems_resumes [OF assms] by (elim exE conjE)
  have "0 < scanCount cnt \<or> ks = []" by (simp add: scanCount_def)
  from scanLoop_split [OF this, of "length ?p" pattern "[]"] obtain a b where
    ab: "ks = a @ b" "ks \<noteq> [] \<longrightarrow> a \<noteq> []" "scanLoop (length ?p) pattern (scanCount cnt) [] ks =
      (filter (wanted pattern) (map (drop (length ?p)) a), if a = [] then [] else last a, b \<noteq> [])" by blast
  have run: "Scan order B D c pattern cnt s = scanFinish order (Inr (filter (wanted pattern) (map (drop (length ?p)) a),
      if a = [] then [] else last a, b \<noteq> [])) ?s1"
    unfolding Scan_def Let_def View_def s1(1) bnd_def its(1) by (simp only: sum.case prod.case ret_run its(2) ab(3))
  show ?thesis
  proof (cases "b = []")
    case True
    then show ?thesis using ab(1,2) s1(1) by (intro exI [of _ a] exI [of _ b] exI [of _ 0]) (simp add: run scanFinish_def)
  next
    case False
    then have a: "a \<noteq> []" using ab(1,2) by simp
    obtain r s' where st: "scanBookmarkStore order (last a) ?s1 = (r, s')" by force
    from scanBookmarkStore_keeps [OF st, unfolded s1] have r: "r = scanBookmarkSeq s + 1" "scanBookmarks s' r = Some (last a)"
      "scanBookmarkSeq s' = r" "core s' = core s" by blast+
    obtain pre where pre: "scan_prefix ?m ?p = pre @ ks" using assms by (auto simp: resumes_def)
    have "scan_prefix ?m ?p = (pre @ butlast a) @ last a # b" using a by (simp add: pre ab(1))
    then have "resumes ?p ?m s' r b" using r(2) by (auto simp: resumes_def)
    then show ?thesis using ab(1,2) False a r st by (auto simp: run scanFinish_def)
  qed
qed

end

section \<open>A client that follows the cursor\<close>

text \<open>\<^verbatim>\<open>SCAN\<close> called with the cursor of the last answer until it is 0; \<open>None\<close> when \<open>n\<close> calls do not suffice. The
  \<open>i\<close>-th call asks for \<open>cnt i\<close> names.\<close>

fun scanAll ::
  "((u64 \<rightharpoonup> bytes) \<Rightarrow> u64 list) \<Rightarrow> 't txn_ops \<Rightarrow> ('d, 't) db_ops \<Rightarrow> bytes \<Rightarrow> (nat \<Rightarrow> int) \<Rightarrow> nat \<Rightarrow> u64 \<Rightarrow> 'd bolt
   \<Rightarrow> bytes list option" where
  "scanAll order B D pattern cnt 0 c s = None"
| "scanAll order B D pattern cnt (Suc n) c s =
     (case Scan order B D c pattern (cnt n) s of
        (Inl e, s') \<Rightarrow> None
      | (Inr (c', ks), s') \<Rightarrow>
          if c' = 0 then Some ks else map_option ((@) ks) (scanAll order B D pattern cnt n c' s'))"

lemma next_bookmark_nonzero:
  assumes "unat (q :: u64) + Suc n < 2 ^ 64"
  shows "q + 1 \<noteq> 0 \<and> unat (q + 1) + n < 2 ^ 64"
proof -
  have "unat (q + 1) = Suc (unat q)" using assms by (simp add: unat_word_ariths)
  then show ?thesis using assms by (metis Suc_neq_Zero add_Suc_shift unat_0)
qed

context badger_db
begin

lemma scanAll_run:
  assumes "resumes prefixKeyTypeBytes (snap (db (core s)) MaxUint64) s c ks" "length ks < n"
    "unat (scanBookmarkSeq s) + n < 2 ^ 64"
  shows "scanAll order B D pattern cnt n c s =
    Some (filter (wanted pattern) (map (drop (length prefixKeyTypeBytes)) ks))"
  using assms
proof (induction n arbitrary: s c ks)
  case (Suc n)
  from Scan_step [OF Suc.prems(1), of order pattern "cnt n"] obtain a b r s' where
    step: "ks = a @ b" "ks \<noteq> [] \<longrightarrow> a \<noteq> []" "core s' = core s"
      "Scan order B D c pattern (cnt n) s = (Inr (r, filter (wanted pattern) (map (drop (length prefixKeyTypeBytes)) a)), s')"
      "if b = [] then r = 0 else r = scanBookmarkSeq s + 1 \<and> scanBookmarkSeq s' = r
         \<and> resumes prefixKeyTypeBytes (snap (db (core s)) MaxUint64) s' r b"
    by (elim exE conjE)
  show ?case
  proof (cases "b = []")
    case True
    then show ?thesis using step(1,5) by (simp add: step(4))
  next
    case False
    then have r: "r = scanBookmarkSeq s + 1" "scanBookmarkSeq s' = r" "resumes prefixKeyTypeBytes (snap (db (core s')) MaxUint64) s' r b"
      unfolding step(3) using step(5) [unfolded if_not_P [OF False]] by blast+
    have "length b < n" using step(1,2) False Suc.prems(2) by (cases a) auto
    moreover have "r \<noteq> 0" "unat (scanBookmarkSeq s') + n < 2 ^ 64"
      using next_bookmark_nonzero [OF Suc.prems(3)] r(1,2) by simp_all
    ultimately have "scanAll order B D pattern cnt n r s' = Some (filter (wanted pattern) (map (drop (length prefixKeyTypeBytes)) b))"
      using Suc.IH [OF r(3)] by blast
    then show ?thesis using \<open>r \<noteq> 0\<close> by (simp add: step(4) step(1))
  qed
qed simp

lemma typeNamesTx_run: "typeNamesTx B t = Inr (sorted_list_of_set (names (view t)), t)"
  by (simp add: typeNamesTx_def bnd_def iterPrefix_keys scan_names finite_view comp_def)

end

lemma reservoir_mem: "reservoir rnd i f ms = Some x \<Longrightarrow> x \<in> set ms \<or> f = Some x"
  by (induction rnd i f ms rule: reservoir.induct) (auto split: option.splits if_splits)

lemma reservoir_none: "reservoir rnd i f ms = None \<longleftrightarrow> f = None \<and> ms = []"
  by (induction rnd i f ms rule: reservoir.induct) (auto split: option.splits)

section \<open>Properties\<close>


definition sample_names :: "(bytes \<times> item) list" where
  "sample_names = map (\<lambda>k. (TypeOfKeyGet k, plain KeyTypeString)) [''b'', ''a'', ''ab'']"

lemma names_sample: "names (map_of sample_names) = {''a'', ''ab'', ''b''}"
  by (auto simp: names_def sample_names_def TypeOfKeyGet_def split: if_splits)

lemma sorted_sample: "sorted_list_of_set {''a'', ''ab'', ''b''} = [''a'', ''ab'', ''b'']"
  by (simp add: sorted_list_of_set_insert_remove)


text \<open>\<^verbatim>\<open>KEYS\<close>, \<^verbatim>\<open>DBSIZE\<close> and \<^verbatim>\<open>RANDOMKEY\<close> read the same key space: the names matching the pattern in byte order, their
  number, and one of them whatever is drawn (the empty name when there is none).\<close>

theorem Keys_DBSize_RandomKey:
  assumes "badger_db B view upd now D snap pend" "m = snap (db st) MaxUint64"
  shows "Keys B D pattern st = Inr (filter (\<lambda>k. glob (runes pattern) (runes k)) (sorted_list_of_set (names m)))
    \<and> DBSize B D st = Inr (int (card (names m)))
    \<and> (\<exists>k. RandomKey rnd B D st = Inr k \<and> (if names m = {} then k = [] else k \<in> names m))"
proof -
  let ?t = "newTransactionAt D (db st) MaxUint64"
  have tx: "badger_txn B view upd now" using assms(1) by (rule badger_db.axioms)
  have v: "view ?t = m" by (simp add: badger_db.new_view [OF assms(1)] assms(2))
  have fin: "finite (dom m)" using badger_txn.finite_view [OF tx, of ?t] by (simp add: v)
  note run = badger_db.typeNamesTx_run [OF assms(1), of ?t, unfolded v]
  have "DBSize B D st = Inr (int (card (names m)))"
    by (simp add: DBSize_def View_def bnd_def badger_txn.iterPrefix_keys [OF tx] v scan_names [OF fin] finite_names [OF fin])
  moreover have "Keys B D pattern st = Inr (filter (\<lambda>k. glob (runes pattern) (runes k)) (sorted_list_of_set (names m)))"
    by (simp add: Keys_def View_def bnd_def run matchPattern_eq)
  moreover have "\<exists>k. RandomKey rnd B D st = Inr k \<and> (if names m = {} then k = [] else k \<in> names m)"
    using reservoir_mem [of rnd 0 None "sorted_list_of_set (names m)"] reservoir_none [of rnd 0 None "sorted_list_of_set (names m)"]
      finite_names [OF fin]
    by (cases "reservoir rnd 0 None (sorted_list_of_set (names m))") (auto simp: RandomKey_def View_def bnd_def run)
  ultimately show ?thesis by blast
qed

theorem Keys_DBSize_RandomKey_witness:
  "Keys kv_ops kv_db_ops ''?'' (kv_with sample_names) = Inr [''a'', ''b'']
   \<and> DBSize kv_ops kv_db_ops (kv_with sample_names) = Inr 3"
proof -
  have "glob (runes ''?'') (runes ''a'')" "\<not> glob (runes ''?'') (runes ''ab'')" "glob (runes ''?'') (runes ''b'')"
    by (simp_all add: decodeRune_def Let_def glob_single)
  then show ?thesis
    using Keys_DBSize_RandomKey [OF kvd.badger_db_axioms kv_with_snap [of sample_names, symmetric], of "''?''"]
    by (simp add: names_sample sorted_sample)
qed

text \<open>Two findings. \<^verbatim>\<open>SSCAN\<close> resumes at the bookmarked member itself, so the last member of an answer is the
  first of the next; with a count of 1 the iteration never advances. And \<^verbatim>\<open>SCAN\<close> skips the record it resumes
  at without looking at it, so a key is missed when the bookmarked key was deleted in between.\<close>

theorem SScan_count_one_stuck:
  "case SScan (\<lambda>m. []) kv_ops kv_db_ops ''s'' 0 [] 1
       (bolt0 (kv_with [(memberKey ''s'' ''a'', plain []), (memberKey ''s'' ''b'', plain [])])) of (r, s) \<Rightarrow>
     r = Inr (1, [''a'']) \<and> fst (SScan (\<lambda>m. []) kv_ops kv_db_ops ''s'' 1 [] 1 s) = Inr (2, [''a''])"
  by code_simp

theorem Scan_skips_after_delete:
  "fst (Scan (\<lambda>m. []) kv_ops kv_db_ops 1 [] 10
     (bolt0 (kv_with sample_names)\<lparr>scanBookmarks := [1 \<mapsto> TypeOfKeyGet ''aa''], scanBookmarkSeq := 1\<rparr>))
   = Inr (0, [''b''])"
  by code_simp

end
