(* ===== verification/Compression.thy ===== *)
theory Compression
  imports Keyspace
begin

text \<open>
  Value compression of \<^verbatim>\<open>internal/store/compression.go\<close>. The three codecs are third-party packages and are
  arguments (\<open>codecs\<close>); \<open>codecs_ok\<close> is their documented round trip. Compressed values carry a four-byte mark
  that the reader looks for on every value.
\<close>

datatype CompressionType = CompressionNone | CompressionLZ4 | CompressionZSTD | CompressionSnappy | CompressionOther bytes

datatype lz4_failure = LZ4Write go_error | LZ4Close go_error

record codecs =
  lz4_encode :: "bytes \<Rightarrow> lz4_failure + bytes"
  lz4_decode :: "bytes \<Rightarrow> go_error + bytes"
  zstd_writer :: "go_error + (bytes \<Rightarrow> bytes)"
  zstd_reader :: "go_error + (bytes \<Rightarrow> go_error + bytes)"
  snappy_encode :: "bytes \<Rightarrow> bytes"
  snappy_decode :: "bytes \<Rightarrow> go_error + bytes"

abbreviation compressionMagicLZ4 :: bytes where "compressionMagicLZ4 \<equiv> [CHR 0x4C, CHR 0x5A, CHR 0x34, CHR 0x01]"
abbreviation compressionMagicZSTD :: bytes where "compressionMagicZSTD \<equiv> [CHR 0x5A, CHR 0x53, CHR 0x54, CHR 0x44]"
abbreviation compressionMagicSnappy :: bytes where "compressionMagicSnappy \<equiv> [CHR 0x53, CHR 0x4E, CHR 0x41, CHR 0x50]"

definition compressLZ4 :: "codecs \<Rightarrow> bytes \<Rightarrow> go_error + bytes" where
  "compressLZ4 C d = (case lz4_encode C d of
      Inl (LZ4Write e) \<Rightarrow> Inl (Wrap ''lz4 compress write error'' e)
    | Inl (LZ4Close e) \<Rightarrow> Inl (Wrap ''lz4 compress close error'' e)
    | Inr z \<Rightarrow> Inr (compressionMagicLZ4 @ z))"

definition decompressLZ4 :: "codecs \<Rightarrow> bytes \<Rightarrow> go_error + bytes" where
  "decompressLZ4 C z = (case lz4_decode C z of
      Inl e \<Rightarrow> Inl (Wrap ''lz4 decompress error'' e) | Inr d \<Rightarrow> Inr d)"

definition compressZSTD :: "codecs \<Rightarrow> bytes \<Rightarrow> go_error + bytes" where
  "compressZSTD C d = (case zstd_writer C of
      Inl e \<Rightarrow> Inl (Wrap ''zstd encoder creation error'' e)
    | Inr w \<Rightarrow> Inr (compressionMagicZSTD @ w d))"

definition decompressZSTD :: "codecs \<Rightarrow> bytes \<Rightarrow> go_error + bytes" where
  "decompressZSTD C z = (case zstd_reader C of
      Inl e \<Rightarrow> Inl (Wrap ''zstd decoder creation error'' e)
    | Inr r \<Rightarrow> (case r z of Inl e \<Rightarrow> Inl (Wrap ''zstd decompress error'' e) | Inr d \<Rightarrow> Inr d))"

definition compressSnappy :: "codecs \<Rightarrow> bytes \<Rightarrow> go_error + bytes" where
  "compressSnappy C d = Inr (compressionMagicSnappy @ snappy_encode C d)"

definition decompressSnappy :: "codecs \<Rightarrow> bytes \<Rightarrow> go_error + bytes" where
  "decompressSnappy C z = (case snappy_decode C z of
      Inl e \<Rightarrow> Inl (Wrap ''snappy decompress error'' e) | Inr d \<Rightarrow> Inr d)"

definition compressData :: "codecs \<Rightarrow> bytes \<Rightarrow> CompressionType \<Rightarrow> go_error + bytes" where
  "compressData C d ct =
     (if ct = CompressionNone \<or> d = [] then Inr d
      else case ct of
        CompressionLZ4 \<Rightarrow> compressLZ4 C d
      | CompressionZSTD \<Rightarrow> compressZSTD C d
      | CompressionSnappy \<Rightarrow> compressSnappy C d
      | CompressionOther name \<Rightarrow> Inl (Errorf (''unsupported compression type: '' @ name))
      | CompressionNone \<Rightarrow> Inr d)"

definition decompressData :: "codecs \<Rightarrow> bytes \<Rightarrow> go_error + bytes" where
  "decompressData C d =
     (if d = [] then Inr []
      else if prefix compressionMagicLZ4 d then decompressLZ4 C (drop 4 d)
      else if prefix compressionMagicZSTD d then decompressZSTD C (drop 4 d)
      else if prefix compressionMagicSnappy d then decompressSnappy C (drop 4 d)
      else Inr d)"

definition shouldCompress :: "bytes \<Rightarrow> CompressionType \<Rightarrow> bool" where
  "shouldCompress d ct = (if ct = CompressionNone then False else 64 \<le> length d)"

text \<open>The bytes that are written for a value.\<close>

definition storedValue :: "codecs \<Rightarrow> CompressionType \<Rightarrow> bytes \<Rightarrow> go_error + bytes" where
  "storedValue C ct value =
     (if shouldCompress value ct
      then (case compressData C value ct of
              Inl e \<Rightarrow> Inl (Wrap ''compression error'' e)
            | Inr compressed \<Rightarrow> Inr (if length value \<le> length compressed then value else compressed))
      else Inr value)"

definition setValueWithCompression ::
  "codecs \<Rightarrow> CompressionType \<Rightarrow> 't txn_ops \<Rightarrow> bytes \<Rightarrow> bytes \<Rightarrow> ('t, unit) tx" where
  "setValueWithCompression C ct B key value =
     (case storedValue C ct value of Inl e \<Rightarrow> fail e | Inr v \<Rightarrow> Set B key v)"

text \<open>\<^verbatim>\<open>WithTTL(ttl)\<close> sets the expiry to the second \<^verbatim>\<open>ttl\<close> nanoseconds after the clock reading \<open>ns\<close>.\<close>

definition setEntryWithCompression ::
  "codecs \<Rightarrow> CompressionType \<Rightarrow> 't txn_ops \<Rightarrow> int \<Rightarrow> bytes \<Rightarrow> bytes \<Rightarrow> int \<Rightarrow> ('t, unit) tx" where
  "setEntryWithCompression C ct B ns key value ttl =
     (case storedValue C ct value of
        Inl e \<Rightarrow> fail e
      | Inr v \<Rightarrow> if ttl > 0 then SetEntry B key v (word_of_int (Unix (ns + ttl))) else Set B key v)"

definition getValueWithDecompression :: "codecs \<Rightarrow> 't txn_ops \<Rightarrow> item \<Rightarrow> ('t, bytes) tx" where
  "getValueWithDecompression C B item =
     bnd (ValueCopy B item) (\<lambda>value. case decompressData C value of Inl e \<Rightarrow> fail e | Inr d \<Rightarrow> ret d)"

definition ReadValueInTxn :: "codecs \<Rightarrow> 't txn_ops \<Rightarrow> bytes \<Rightarrow> ('t, bytes) tx" where
  "ReadValueInTxn C B key = bnd (Get B key) (getValueWithDecompression C B)"

section \<open>The round trip\<close>

definition codecs_ok :: "codecs \<Rightarrow> bool" where
  "codecs_ok C \<longleftrightarrow> (\<forall>d z. lz4_encode C d = Inr z \<longrightarrow> lz4_decode C z = Inr d)
     \<and> (\<exists>r. zstd_reader C = Inr r \<and> (\<forall>w d. zstd_writer C = Inr w \<longrightarrow> r (w d) = Inr d))
     \<and> (\<forall>d. snappy_decode C (snappy_encode C d) = Inr d)"

definition has_magic :: "bytes \<Rightarrow> bool" where
  "has_magic v \<longleftrightarrow> prefix compressionMagicLZ4 v \<or> prefix compressionMagicZSTD v \<or> prefix compressionMagicSnappy v"

lemma decompressData_plain: "\<not> has_magic v \<Longrightarrow> decompressData C v = Inr v"
  by (simp add: has_magic_def decompressData_def)

lemma compressData_inverse:
  assumes "codecs_ok C" "compressData C v ct = Inr z" "z \<noteq> v"
  shows "decompressData C z = Inr v"
proof (cases ct)
  case CompressionLZ4
  then obtain z' where "lz4_encode C v = Inr z'" "z = compressionMagicLZ4 @ z'"
    using assms(2,3) by (auto simp: compressData_def compressLZ4_def split: if_splits sum.splits lz4_failure.splits)
  then show ?thesis using assms(1) by (simp add: codecs_ok_def decompressData_def decompressLZ4_def)
next
  case CompressionZSTD
  then obtain w where "zstd_writer C = Inr w" "z = compressionMagicZSTD @ w v"
    using assms(2,3) by (auto simp: compressData_def compressZSTD_def split: if_splits sum.splits)
  then show ?thesis using assms(1) by (auto simp: codecs_ok_def decompressData_def decompressZSTD_def)
next
  case CompressionSnappy
  then have "z = compressionMagicSnappy @ snappy_encode C v"
    using assms(2,3) by (auto simp: compressData_def compressSnappy_def split: if_splits)
  then show ?thesis using assms(1) by (simp add: codecs_ok_def decompressData_def decompressSnappy_def)
qed (use assms(2,3) in \<open>simp_all add: compressData_def split: if_splits\<close>)

lemma storedValue_cases:
  assumes "storedValue C ct v = Inr s" "codecs_ok C"
  shows "s = v \<or> decompressData C s = Inr v"
  using assms compressData_inverse [OF assms(2), of v ct]
  by (auto simp: storedValue_def split: if_splits sum.splits)

lemma storedValue_read:
  assumes "storedValue C ct v = Inr s" "codecs_ok C" "\<not> has_magic v"
  shows "decompressData C s = Inr v"
  using storedValue_cases [OF assms(1,2)] decompressData_plain [OF assms(3)] by auto

context badger_txn
begin

lemma setValueWithCompression_run [txn_simps]:
  "setValueWithCompression C ct B key value t = (case storedValue C ct value of
      Inl e \<Rightarrow> Inl e | Inr v \<Rightarrow> Inr ((), upd t key (Some \<lparr>ival = v, iexp = 0\<rparr>)))"
  by (simp add: setValueWithCompression_def txn_simps split: sum.split)

lemma getValueWithDecompression_run [txn_simps]:
  "getValueWithDecompression C B item t = (case decompressData C (ival item) of Inl e \<Rightarrow> Inl e | Inr d \<Rightarrow> Inr (d, t))"
  by (simp add: getValueWithDecompression_def bnd_def txn_simps split: sum.split)

lemma regular_compression [simp, intro]:
  "regular (setValueWithCompression C ct B key value)" "regular (setEntryWithCompression C ct B ns key value ttl)"
  "regular (getValueWithDecompression C B item)"
  unfolding setValueWithCompression_def setEntryWithCompression_def getValueWithDecompression_def
  by (intro regular_bnd regular_branches regular_ops regular_ret regular_fail)+

end

section \<open>Properties\<close>


text \<open>A concrete codec: one long value has a short code, every other value is kept behind a tag.\<close>

definition sample_codecs :: codecs where
  "sample_codecs = (let enc = (\<lambda>d. if d = replicate 64 CHR ''a'' then ''x'' else CHR ''y'' # d);
      dec = (\<lambda>z. case z of [] \<Rightarrow> Inl (ErrEngine ''corrupt input'')
        | c # d \<Rightarrow> if c = CHR ''y'' then Inr d else if z = ''x'' then Inr (replicate 64 CHR ''a'')
                  else Inl (ErrEngine ''corrupt input''))
    in \<lparr>lz4_encode = (\<lambda>d. Inr (enc d)), lz4_decode = dec, zstd_writer = Inr enc, zstd_reader = Inr dec,
        snappy_encode = enc, snappy_decode = dec\<rparr>)"

lemma sample_codecs_ok: "codecs_ok sample_codecs"
  by (simp add: codecs_ok_def sample_codecs_def Let_def)


text \<open>A finding: a short value that starts with a mark is kept as it is but read as a compressed one, so it
  cannot be read back.\<close>

theorem marked_value_unreadable:
  "storedValue C ct ''SNAPSHOT'' = Inr ''SNAPSHOT'' \<and> decompressData C ''SNAPSHOT'' = decompressSnappy C ''SHOT''
   \<and> decompressData sample_codecs ''SNAPSHOT'' = Inl (Wrap ''snappy decompress error'' (ErrEngine ''corrupt input''))"
proof -
  have "decompressData sample_codecs ''SNAPSHOT'' = Inl (Wrap ''snappy decompress error'' (ErrEngine ''corrupt input''))"
    by code_simp
  then show ?thesis by (simp add: storedValue_def shouldCompress_def decompressData_def)
qed

end
