(* ===== verification/Hashes.thy ===== *)
theory Hashes
  imports Scan Compression
begin

text \<open>
  The hash commands of \<^verbatim>\<open>internal/store/hash.go\<close>. A hash is a record per field below \<^verbatim>\<open>HASH:<key>:\<close> and the counter
  \<^verbatim>\<open>HASH:<key>:__count__\<close> in the same name space. Values go through the compression layer; \<open>C\<close> are its codecs and
  \<open>ct\<close> the configured algorithm. \<open>errText\<close> is the \<^verbatim>\<open>Error()\<close> text that \<^verbatim>\<open>%v\<close> prints. Of the value types of
  \<^verbatim>\<open>encodeHashValue\<close> the ones with an exact decimal or byte form are modelled (the server passes strings); floats
  and the gob fallback are not.
\<close>

section \<open>Values and flds\<close>

datatype go_value = GString bytes | GBytes bytes | GInt int | GUint nat | GBool bool

definition encodeHashValue :: "go_value \<Rightarrow> bytes" where
  "encodeHashValue value = (case value of
      GString v \<Rightarrow> v
    | GBytes v \<Rightarrow> v
    | GInt v \<Rightarrow> itoa v
    | GUint v \<Rightarrow> utoa v
    | GBool v \<Rightarrow> (if v then ''1'' else ''0''))"

abbreviation countField :: bytes where "countField \<equiv> ''__count__''"

definition hashPrefix :: "bytes \<Rightarrow> bytes" where
  "hashPrefix key = KeyTypeHash @ '':'' @ key @ '':''"

text \<open>The split at the last colon.\<close>

definition splitHashKey :: "bytes \<Rightarrow> bytes \<times> bytes" where
  "splitHashKey k =
     (if \<not> prefix (KeyTypeHash @ '':'') k then ([], [])
      else let remainder = drop (length (KeyTypeHash @ '':'')) k
           in if CHR '':'' \<notin> set remainder then ([], [])
              else let field = rev (takeWhile (\<lambda>c. c \<noteq> CHR '':'') (rev remainder))
                   in (take (length remainder - length field - 1) remainder, field))"

definition checkHashType :: "'t txn_ops \<Rightarrow> bytes \<Rightarrow> ('t, unit) tx" where
  "checkHashType B key = bnd (lookupValue B (TypeOfKeyGet key)) (\<lambda>r. case r of
      None \<Rightarrow> ret ()
    | Some keyType \<Rightarrow> if keyType \<noteq> [] \<and> keyType \<noteq> KeyTypeHash then fail ErrWrongType else ret ())"

text \<open>The counter: \<open>strict\<close> tells whether an error other than a missing record is passed on.\<close>

definition hashCount ::
  "bytes \<Rightarrow> (go_error \<Rightarrow> bytes) \<Rightarrow> bool \<Rightarrow> 't txn_ops \<Rightarrow> bytes \<Rightarrow> ('t, u64) tx" where
  "hashCount op errText strict B key = bnd (tryGet B (hashCountKey key)) (\<lambda>r. case r of
      Inl e \<Rightarrow> if strict \<and> \<not> errors_is e ErrKeyNotFound then fail e else ret 0
    | Inr item \<Rightarrow> (\<lambda>t. case ValueCopy B item t of
          Inl e \<Rightarrow> Inl (Errorf (op @ '': failed to get count value: '' @ errText e))
        | Inr (v, t') \<Rightarrow> Inr (BytesToUint64 v, t')))"

definition bumpCount :: "bytes \<Rightarrow> (go_error \<Rightarrow> bytes) \<Rightarrow> 't txn_ops \<Rightarrow> bytes \<Rightarrow> ('t, unit) tx" where
  "bumpCount op errText B key = bnd (hashCount op errText False B key) (\<lambda>cnt.
     Set B (hashCountKey key) (Uint64ToBytes (cnt + 1)))"

section \<open>HSET, HSETNX, HMSET and HDEL\<close>

definition hsetBody ::
  "(go_error \<Rightarrow> bytes) \<Rightarrow> codecs \<Rightarrow> CompressionType \<Rightarrow> 't txn_ops \<Rightarrow> bytes \<Rightarrow> bytes \<Rightarrow> bytes \<Rightarrow> ('t, unit) body" where
  "hsetBody errText C ct B key field bValue c =
     bnd (tryGet B (hashKey key field)) (\<lambda>r.
     andThen (checkHashType B key)
     (andThen (Set B (TypeOfKeyGet key) KeyTypeHash)
     (andThen (setValueWithCompression C ct B (hashKey key field) bValue)
     (bnd (hashCount ''HSet'' errText True B key) (\<lambda>cnt.
     Set B (hashCountKey key) (Uint64ToBytes (if isl r then cnt + 1 else cnt)))))))"

definition HSet ::
  "(go_error \<Rightarrow> bytes) \<Rightarrow> codecs \<Rightarrow> CompressionType \<Rightarrow> run_env \<Rightarrow> 't txn_ops \<Rightarrow> ('d, 't) db_ops
   \<Rightarrow> bytes \<Rightarrow> bytes \<Rightarrow> go_value \<Rightarrow> 'd store \<Rightarrow> (go_error + unit) \<times> unit \<times> 'd store" where
  "HSet errText C ct E B D key field value st =
     (let bValue = encodeHashValue value
      in retryUpdate E B D (hsetBody errText C ct B key field bValue) 30
           [encodePropagateCommand [''HSET'', key, field, bValue]] () st)"

definition hsetnxBody ::
  "(go_error \<Rightarrow> bytes) \<Rightarrow> codecs \<Rightarrow> CompressionType \<Rightarrow> 't txn_ops \<Rightarrow> bytes \<Rightarrow> bytes \<Rightarrow> bytes \<Rightarrow> ('t, bool) body" where
  "hsetnxBody errText C ct B key field bValue c =
     bnd (lookup B (hashKey key field)) (\<lambda>r. case r of
        Some i \<Rightarrow> ret False
      | None \<Rightarrow>
          andThen (Set B (TypeOfKeyGet key) KeyTypeHash)
          (andThen (setValueWithCompression C ct B (hashKey key field) bValue)
          (andThen (bumpCount ''HSetNX'' errText B key) (ret True))))"

definition HSetNX ::
  "(go_error \<Rightarrow> bytes) \<Rightarrow> codecs \<Rightarrow> CompressionType \<Rightarrow> run_env \<Rightarrow> 't txn_ops \<Rightarrow> ('d, 't) db_ops
   \<Rightarrow> bytes \<Rightarrow> bytes \<Rightarrow> go_value \<Rightarrow> 'd store \<Rightarrow> (go_error + unit) \<times> bool \<times> 'd store" where
  "HSetNX errText C ct E B D key field value st =
     (let bValue = encodeHashValue value
      in retryUpdate E B D (hsetnxBody errText C ct B key field bValue) 30
           [encodePropagateCommand [''HSETNX'', key, field, bValue]] False st)"

text \<open>The argument of \<^verbatim>\<open>HMSet\<close> is a Go map: \<open>fvs\<close> are its pairs in the order of the \<^verbatim>\<open>range\<close> in the
  transaction, \<open>fvs'\<close> in the order of the one that builds the log value.\<close>

fun hmsetLoop ::
  "codecs \<Rightarrow> CompressionType \<Rightarrow> 't txn_ops \<Rightarrow> bytes \<Rightarrow> (bytes \<times> go_value) list \<Rightarrow> int \<Rightarrow> ('t, int) tx" where
  "hmsetLoop C ct B key [] newFields = ret newFields"
| "hmsetLoop C ct B key ((field, value) # fvs) newFields =
     bnd (tryGet B (hashKey key field)) (\<lambda>r.
     andThen (setValueWithCompression C ct B (hashKey key field) (encodeHashValue value))
      (hmsetLoop C ct B key fvs (if isl r then newFields + 1 else newFields)))"

definition hmsetBody ::
  "(go_error \<Rightarrow> bytes) \<Rightarrow> codecs \<Rightarrow> CompressionType \<Rightarrow> 't txn_ops \<Rightarrow> bytes \<Rightarrow> (bytes \<times> go_value) list \<Rightarrow> ('t, unit) body" where
  "hmsetBody errText C ct B key fvs c =
     andThen (Set B (TypeOfKeyGet key) KeyTypeHash)
     (bnd (hashCount ''HMSet'' errText False B key) (\<lambda>cnt.
      bnd (hmsetLoop C ct B key fvs 0) (\<lambda>newFields.
        if newFields > 0 then Set B (hashCountKey key) (Uint64ToBytes (cnt + word_of_int newFields))
        else ret ())))"

definition HMSet ::
  "(go_error \<Rightarrow> bytes) \<Rightarrow> codecs \<Rightarrow> CompressionType \<Rightarrow> run_env \<Rightarrow> 't txn_ops \<Rightarrow> ('d, 't) db_ops
   \<Rightarrow> bytes \<Rightarrow> (bytes \<times> go_value) list \<Rightarrow> (bytes \<times> go_value) list \<Rightarrow> 'd store
   \<Rightarrow> (go_error + unit) \<times> unit \<times> 'd store" where
  "HMSet errText C ct E B D key fvs fvs' st =
     retryUpdate E B D (hmsetBody errText C ct B key fvs) 30
       [encodePropagateCommand (''HMSET'' # key # concat (map (\<lambda>(f, v). [f, encodeHashValue v]) fvs'))] () st"

fun hdelLoop :: "'t txn_ops \<Rightarrow> bytes \<Rightarrow> bytes list \<Rightarrow> u64 \<Rightarrow> int \<Rightarrow> ('t, u64 \<times> int) tx" where
  "hdelLoop B key [] cnt deleted = ret (cnt, deleted)"
| "hdelLoop B key (field # flds) cnt deleted =
     bnd (tryGet B (hashKey key field)) (\<lambda>r. case r of
        Inl e \<Rightarrow> hdelLoop B key flds cnt deleted
      | Inr i \<Rightarrow> andThen (Delete B (hashKey key field))
          (hdelLoop B key flds (if cnt > 0 then cnt - 1 else cnt) (deleted + 1)))"

definition hdelBody :: "(go_error \<Rightarrow> bytes) \<Rightarrow> 't txn_ops \<Rightarrow> bytes \<Rightarrow> bytes list \<Rightarrow> ('t, int) body" where
  "hdelBody errText B key flds c =
     andThen (checkHashType B key)
     (bnd (hashCount ''HDel'' errText False B key) (\<lambda>cnt.
      bnd (hdelLoop B key flds cnt 0) (\<lambda>(cnt', deleted).
        if deleted > 0 then andThen (Set B (hashCountKey key) (Uint64ToBytes cnt')) (ret deleted)
        else ret deleted)))"

definition HDel ::
  "(go_error \<Rightarrow> bytes) \<Rightarrow> run_env \<Rightarrow> 't txn_ops \<Rightarrow> ('d, 't) db_ops \<Rightarrow> bytes \<Rightarrow> bytes list \<Rightarrow> 'd store
   \<Rightarrow> (go_error + unit) \<times> int \<times> 'd store" where
  "HDel errText E B D key flds st =
     retryUpdate E B D (hdelBody errText B key flds) 30 [encodePropagateStringArgs ''HDEL'' (key # flds)] 0 st"

section \<open>HINCRBY\<close>

definition hincrbyBody ::
  "(go_error \<Rightarrow> bytes) \<Rightarrow> codecs \<Rightarrow> CompressionType \<Rightarrow> 't txn_ops \<Rightarrow> bytes \<Rightarrow> bytes \<Rightarrow> int \<Rightarrow> ('t, int) body" where
  "hincrbyBody errText C ct B key field increment c =
     bnd (lookupValue B (TypeOfKeyGet key)) (\<lambda>r.
     andThen (case r of
          None \<Rightarrow> Set B (TypeOfKeyGet key) KeyTypeHash
        | Some keyType \<Rightarrow> if keyType \<noteq> [] \<and> keyType \<noteq> KeyTypeHash then fail ErrWrongType else ret ())
     (bnd (lookupValue B (hashKey key field)) (\<lambda>old.
      case (case old of None \<Rightarrow> Some 0 | Some val \<Rightarrow> parse_int val) of
        None \<Rightarrow> fail (Errorf ''HIncrBy: value is not an integer or out of range'')
      | Some currentValue \<Rightarrow>
          let result = i64 (currentValue + increment)
          in andThen (setValueWithCompression C ct B (hashKey key field) (itoa result))
              (andThen (if old = None then bumpCount ''HIncrBy'' errText B key else ret ())
                (ret result)))))"

definition HIncrBy ::
  "(go_error \<Rightarrow> bytes) \<Rightarrow> codecs \<Rightarrow> CompressionType \<Rightarrow> run_env \<Rightarrow> 't txn_ops \<Rightarrow> ('d, 't) db_ops
   \<Rightarrow> bytes \<Rightarrow> bytes \<Rightarrow> int \<Rightarrow> 'd store \<Rightarrow> (go_error + unit) \<times> int \<times> 'd store" where
  "HIncrBy errText C ct E B D key field increment st =
     retryUpdate E B D (hincrbyBody errText C ct B key field increment) 30
       [encodePropagateCommand [''HINCRBY'', key, field, itoa increment]] 0 st"

section \<open>Reading a hash\<close>

text \<open>\<^verbatim>\<open>HGet\<close> reads the type and the field in two transactions.\<close>

definition HGet :: "codecs \<Rightarrow> 't txn_ops \<Rightarrow> ('d, 't) db_ops \<Rightarrow> bytes \<Rightarrow> bytes \<Rightarrow> 'd store \<Rightarrow> go_error + bytes" where
  "HGet C B D key field st =
     (case View D (lookupValue B (TypeOfKeyGet key)) st of
        Inl e \<Rightarrow> Inl e
      | Inr r \<Rightarrow>
          let keyType = (case r of None \<Rightarrow> [] | Some v \<Rightarrow> v)
          in if keyType \<noteq> [] \<and> keyType \<noteq> KeyTypeHash then Inl ErrWrongType
             else View D (bnd (Get B (hashKey key field)) (getValueWithDecompression C B)) st)"

definition HLen :: "(go_error \<Rightarrow> bytes) \<Rightarrow> 't txn_ops \<Rightarrow> ('d, 't) db_ops \<Rightarrow> bytes \<Rightarrow> 'd store \<Rightarrow> go_error + u64" where
  "HLen errText B D key st =
     View D (andThen (checkKeyType B key KeyTypeHash) (hashCount ''HLen'' errText True B key)) st"

definition HExists :: "'t txn_ops \<Rightarrow> ('d, 't) db_ops \<Rightarrow> bytes \<Rightarrow> bytes \<Rightarrow> 'd store \<Rightarrow> go_error + bool" where
  "HExists B D key field st = View D (andThen (checkKeyType B key KeyTypeHash)
     (bnd (lookup B (hashKey key field)) (\<lambda>r. ret (r \<noteq> None)))) st"

definition HStrLen :: "'t txn_ops \<Rightarrow> ('d, 't) db_ops \<Rightarrow> bytes \<Rightarrow> bytes \<Rightarrow> 'd store \<Rightarrow> go_error + int" where
  "HStrLen B D key field st = View D (andThen (checkKeyType B key KeyTypeHash)
     (bnd (lookupValue B (hashKey key field)) (\<lambda>r. ret (case r of None \<Rightarrow> 0 | Some v \<Rightarrow> int (length v))))) st"

fun hmgetLoop :: "codecs \<Rightarrow> 't txn_ops \<Rightarrow> bytes \<Rightarrow> bytes list \<Rightarrow> ('t, bytes option list) tx" where
  "hmgetLoop C B key [] = ret []"
| "hmgetLoop C B key (field # flds) =
     bnd (lookup B (hashKey key field)) (\<lambda>r.
     bnd (case r of None \<Rightarrow> ret None
          | Some item \<Rightarrow> bnd (getValueWithDecompression C B item) (\<lambda>v. ret (Some v))) (\<lambda>v.
     bnd (hmgetLoop C B key flds) (\<lambda>vs. ret (v # vs))))"

definition HMGet ::
  "codecs \<Rightarrow> 't txn_ops \<Rightarrow> ('d, 't) db_ops \<Rightarrow> bytes \<Rightarrow> bytes list \<Rightarrow> 'd store \<Rightarrow> go_error + bytes option list" where
  "HMGet C B D key flds st = View D (hmgetLoop C B key flds) st"

text \<open>The field loops over the records of a hash: the names and values, and the names only.\<close>

fun readFields :: "codecs \<Rightarrow> 't txn_ops \<Rightarrow> (bytes \<times> item) list \<Rightarrow> ('t, (bytes \<times> bytes) list) tx" where
  "readFields C B [] = ret []"
| "readFields C B ((k, item) # its) =
     (let field = snd (splitHashKey k)
      in if field = countField then readFields C B its
         else bnd (getValueWithDecompression C B item) (\<lambda>val.
              bnd (readFields C B its) (\<lambda>r. ret ((field, val) # r))))"

definition getAllHashFields :: "'t txn_ops \<Rightarrow> bytes \<Rightarrow> ('t, bytes list) tx" where
  "getAllHashFields B key = bnd (iterPrefix B False (hashPrefix key) (hashPrefix key)) (\<lambda>its.
     ret (filter (\<lambda>f. f \<noteq> countField) (map (\<lambda>(k, i). snd (splitHashKey k)) its)))"

text \<open>The Go map of the answer: a later record of the same name replaces an earlier one.\<close>

definition HGetAll :: "codecs \<Rightarrow> 't txn_ops \<Rightarrow> ('d, 't) db_ops \<Rightarrow> bytes \<Rightarrow> 'd store \<Rightarrow> go_error + (bytes \<rightharpoonup> bytes)" where
  "HGetAll C B D key st = View D (andThen (checkKeyType B key KeyTypeHash)
     (bnd (iterPrefix B False (hashPrefix key) (hashPrefix key)) (\<lambda>its.
      bnd (readFields C B its) (\<lambda>fvs. ret (map_of (rev fvs)))))) st"

definition HKeys :: "'t txn_ops \<Rightarrow> ('d, 't) db_ops \<Rightarrow> bytes \<Rightarrow> 'd store \<Rightarrow> go_error + bytes list" where
  "HKeys B D key st = View D (andThen (checkKeyType B key KeyTypeHash) (getAllHashFields B key)) st"

definition HVals :: "codecs \<Rightarrow> 't txn_ops \<Rightarrow> ('d, 't) db_ops \<Rightarrow> bytes \<Rightarrow> 'd store \<Rightarrow> go_error + bytes list" where
  "HVals C B D key st = View D (andThen (checkKeyType B key KeyTypeHash)
     (bnd (iterPrefix B False (hashPrefix key) (hashPrefix key)) (\<lambda>its.
      bnd (readFields C B its) (\<lambda>fvs. ret (map snd fvs))))) st"

section \<open>HRANDFIELD, HRANDMEMBER and HSCAN\<close>

text \<open>Algorithm R: the first \<open>n\<close> elements, then the \<open>i\<close>-th replaces a drawn position below \<open>n\<close>.\<close>

fun reservoirN :: "(nat \<Rightarrow> int \<Rightarrow> int) \<Rightarrow> int \<Rightarrow> nat \<Rightarrow> 'a list \<Rightarrow> 'a list \<Rightarrow> 'a list" where
  "reservoirN rnd n i acc [] = acc"
| "reservoirN rnd n i acc (x # xs) =
     (if int i < n then reservoirN rnd n (Suc i) (acc @ [x]) xs
      else let j = randomIntn (rnd i) (int i + 1)
           in reservoirN rnd n (Suc i) (if j < n then acc[nat j := x] else acc) xs)"

text \<open>Names are what follows the prefix, values are the stored bytes. \<^verbatim>\<open>parseHashIteratorKey\<close> passes over a record
  whose value cannot be read, \<^verbatim>\<open>hGetAllFieldNames\<close> keeps it with a nil value, \<^verbatim>\<open>hGetAllFields\<close> fails.\<close>

fun reservoirFields :: "'t txn_ops \<Rightarrow> nat \<Rightarrow> 't \<Rightarrow> (bytes \<times> item) list \<Rightarrow> (bytes \<times> bytes) list" where
  "reservoirFields B plen t [] = []"
| "reservoirFields B plen t ((k, item) # its) =
     (if drop plen k = countField then reservoirFields B plen t its
      else case value_copy B t item of
             Inl e \<Rightarrow> reservoirFields B plen t its
           | Inr val \<Rightarrow> (drop plen k, val) # reservoirFields B plen t its)"

fun rawFields :: "'t txn_ops \<Rightarrow> nat \<Rightarrow> (bytes \<times> item) list \<Rightarrow> ('t, (bytes \<times> bytes) list) tx" where
  "rawFields B plen [] = ret []"
| "rawFields B plen ((k, item) # its) =
     (if drop plen k = countField then rawFields B plen its
      else bnd (ValueCopy B item) (\<lambda>val. bnd (rawFields B plen its) (\<lambda>r. ret ((drop plen k, val) # r))))"

definition hGetAllFields :: "'t txn_ops \<Rightarrow> bytes \<Rightarrow> ('t, (bytes \<times> bytes) list) tx" where
  "hGetAllFields B key =
     bnd (iterPrefix B False (hashPrefix key) (hashPrefix key)) (rawFields B (length (hashPrefix key)))"

definition hGetAllFieldNames :: "'t txn_ops \<Rightarrow> bytes \<Rightarrow> bool \<Rightarrow> ('t, (bytes \<times> bytes) list) tx" where
  "hGetAllFieldNames B key withValues =
     bnd (iterPrefix B False (hashPrefix key) (hashPrefix key)) (\<lambda>its t.
       Inr (map (\<lambda>(k, item). (drop (length (hashPrefix key)) k,
                   if withValues then (case value_copy B t item of Inl e \<Rightarrow> [] | Inr v \<Rightarrow> v) else []))
              (filter (\<lambda>(k, item). drop (length (hashPrefix key)) k \<noteq> countField) its), t))"

definition hRandFieldReservoir ::
  "(nat \<Rightarrow> int \<Rightarrow> int) \<Rightarrow> 't txn_ops \<Rightarrow> bytes \<Rightarrow> int \<Rightarrow> ('t, (bytes \<times> bytes) list) tx" where
  "hRandFieldReservoir rnd B key cnt =
     bnd (iterPrefix B False (hashPrefix key) (hashPrefix key)) (\<lambda>its t.
       Inr (let r = reservoirN rnd cnt 0 [] (reservoirFields B (length (hashPrefix key)) t its)
            in take (nat (min cnt (int (length r)))) r, t))"

text \<open>\<open>pick i n\<close> is the \<open>i\<close>-th index below \<open>n\<close> that the scaled random float gives.\<close>

definition HRandField ::
  "(nat \<Rightarrow> int \<Rightarrow> int) \<Rightarrow> (nat \<Rightarrow> nat \<Rightarrow> nat) \<Rightarrow> 't txn_ops \<Rightarrow> ('d, 't) db_ops \<Rightarrow> bytes \<Rightarrow> int \<Rightarrow> bool \<Rightarrow> 'd store
   \<Rightarrow> go_error + bytes list \<times> bytes list" where
  "HRandField rnd pick B D key cnt withValues st =
     View D (bnd
       (if cnt > 0 then hRandFieldReservoir rnd B key cnt
        else if cnt < 0 then bnd (hGetAllFieldNames B key withValues) (\<lambda>all.
          ret (if all = [] then [] else map (\<lambda>i. all ! pick i (length all)) [0..<nat (i64 (- cnt))]))
        else hGetAllFields B key)
       (\<lambda>chosen. ret (map fst chosen, if withValues then map snd chosen else []))) st"

definition HRandMember ::
  "(nat \<Rightarrow> int \<Rightarrow> int) \<Rightarrow> (nat \<Rightarrow> int \<Rightarrow> int) \<Rightarrow> codecs \<Rightarrow> 't txn_ops \<Rightarrow> ('d, 't) db_ops \<Rightarrow> bytes \<Rightarrow> int \<Rightarrow> 'd store
   \<Rightarrow> go_error + (bytes \<times> bytes) list" where
  "HRandMember rnd shuffle C B D key cnt st =
     (case View D (checkHashType B key) st of
        Inl e \<Rightarrow> Inl e
      | Inr u \<Rightarrow>
          View D (bnd (iterPrefix B False (hashPrefix key) (hashPrefix key)) (\<lambda>its.
            bnd (readFields C B its) (\<lambda>all.
              ret (if cnt \<ge> 0 then
                     let n = (if cnt = 0 then 1 else cnt); r = reservoirN rnd n 0 [] all
                     in if n > int (length r) \<or> cnt = 0 then take (nat (min (int (length r)) n)) r
                        else randomShuffle shuffle r
                   else if all = [] then []
                   else map (\<lambda>i. all ! nat (randomIntn (rnd i) (int (length all)))) [0..<nat (i64 (- cnt))])))) st)"

text \<open>The loop of \<^verbatim>\<open>HSCAN\<close>: like the one of \<^verbatim>\<open>SCAN\<close>, with the counter record passed over.\<close>

fun hscanLoop :: "nat \<Rightarrow> bytes \<Rightarrow> nat \<Rightarrow> bytes \<Rightarrow> (bytes \<times> bytes) list \<Rightarrow> (bytes \<times> bytes) list \<times> bytes \<times> bool" where
  "hscanLoop plen pattern n lastKey [] = ([], lastKey, False)"
| "hscanLoop plen pattern n lastKey ((k, v) # ks) =
     (if n = 0 then ([], lastKey, True)
      else if drop plen k \<noteq> countField \<and> wanted pattern (drop plen k)
      then (case hscanLoop plen pattern (n - 1) k ks of (fvs, r) \<Rightarrow> ((drop plen k, v) # fvs, r))
      else hscanLoop plen pattern n k ks)"

definition HScan ::
  "((u64 \<rightharpoonup> bytes) \<Rightarrow> u64 list) \<Rightarrow> 't txn_ops \<Rightarrow> ('d, 't) db_ops \<Rightarrow> bytes \<Rightarrow> u64 \<Rightarrow> bytes \<Rightarrow> int \<Rightarrow> 'd bolt
   \<Rightarrow> (go_error + u64 \<times> (bytes \<times> bytes) list) \<times> 'd bolt" where
  "HScan order B D key cursor pattern cnt s =
     (let seekKey = scanBookmarkLookup cursor s;
          s1 = scanBookmarkRelease cursor s;
          p = hashPrefix key
      in case View D (bnd (lookupValue B (TypeOfKeyGet key)) (\<lambda>r. case r of
             None \<Rightarrow> ret ([], [], False)
           | Some keyType \<Rightarrow>
               if keyType \<noteq> [] \<and> keyType \<noteq> KeyTypeHash then fail ErrWrongType
               else bnd (scanItems B seekKey p) (\<lambda>its.
                    ret (hscanLoop (length p) pattern (scanCount cnt) [] (map (\<lambda>(k, i). (k, ival i)) its))))) (core s1) of
           Inl e \<Rightarrow> (if errors_is e ErrWrongType then Inl e else Inr (0, []), s1)
         | Inr (fvs, lastKey, again) \<Rightarrow>
             if again then (case scanBookmarkStore order lastKey s1 of (c, s2) \<Rightarrow> (Inr (c, fvs), s2))
             else (Inr (0, fvs), s1))"

section \<open>The hash behind the records\<close>

definition hfields :: "(bytes \<rightharpoonup> item) \<Rightarrow> bytes \<Rightarrow> bytes set" where
  "hfields m key = {f. f \<noteq> countField \<and> m (hashKey key f) \<noteq> None}"

definition hash_count :: "(bytes \<rightharpoonup> item) \<Rightarrow> bytes \<Rightarrow> u64" where
  "hash_count m key = (case m (hashCountKey key) of None \<Rightarrow> 0 | Some i \<Rightarrow> BytesToUint64 (ival i))"

text \<open>The invariant: the counter is the number of fields (modulo \<open>2 ^ 64\<close>).\<close>

definition hash_inv :: "(bytes \<rightharpoonup> item) \<Rightarrow> bytes \<Rightarrow> bool" where
  "hash_inv m key \<longleftrightarrow> hash_count m key = word_of_nat (card (hfields m key))"

definition hash_typed :: "(bytes \<rightharpoonup> item) \<Rightarrow> bytes \<Rightarrow> bool" where
  "hash_typed m key \<longleftrightarrow> (case m (TypeOfKeyGet key) of None \<Rightarrow> True | Some i \<Rightarrow> ival i = [] \<or> ival i = KeyTypeHash)"

lemma hashKey_eq: "hashKey key f = hashPrefix key @ f" "hashCountKey key = hashPrefix key @ countField"
  by (simp_all add: hashKey_def hashCountKey_def hashPrefix_def)

lemma hashKey_inj [simp]: "hashKey key x = hashKey key y \<longleftrightarrow> x = y"
  by (simp add: hashKey_eq)

lemma hash_keys_neq [simp]:
  "f \<noteq> countField \<Longrightarrow> hashKey key f \<noteq> hashCountKey key" "f \<noteq> countField \<Longrightarrow> hashCountKey key \<noteq> hashKey key f"
  "hashKey key f \<noteq> TypeOfKeyGet k" "TypeOfKeyGet k \<noteq> hashKey key f"
  "hashCountKey key \<noteq> TypeOfKeyGet k" "TypeOfKeyGet k \<noteq> hashCountKey key"
  by (simp_all add: hashKey_eq) (simp_all add: hashPrefix_def TypeOfKeyGet_def)

interpretation hc: counted "hashKey key" "hashCountKey key" "\<lambda>f. f \<noteq> countField"
  rewrites "counted.elems (hashKey key) (\<lambda>f. f \<noteq> countField) m = hfields m key"
    and "counted.counter (hashCountKey key) m = hash_count m key"
    and "counted.count_ok (hashKey key) (hashCountKey key) (\<lambda>f. f \<noteq> countField) m = hash_inv m key"
  for key m
proof -
  show "counted (hashKey key) (hashCountKey key) (\<lambda>f. f \<noteq> countField)" by unfold_locales simp_all
  then show "counted.elems (hashKey key) (\<lambda>f. f \<noteq> countField) m = hfields m key"
    "counted.counter (hashCountKey key) m = hash_count m key"
    by (simp_all add: counted.elems_def counted.counter_def hfields_def hash_count_def)
  with \<open>counted _ _ _\<close> show "counted.count_ok (hashKey key) (hashCountKey key) (\<lambda>f. f \<noteq> countField) m = hash_inv m key"
    by (simp add: counted.count_ok_def hash_inv_def)
qed

lemma hfields_type [simp]: "hfields (m(TypeOfKeyGet k := v)) key = hfields m key"
  "hash_count (m(TypeOfKeyGet k := v)) key = hash_count m key"
  by (simp_all add: hfields_def hash_count_def)

lemma hash_typed_data [simp]: "hash_typed (data m) key = hash_typed m key"
  by (simp add: hash_typed_def)

lemma hfields_data [simp]: "hfields (data m) key = hfields m key" "hash_count (data m) key = hash_count m key"
  "hash_inv (data m) key = hash_inv m key"
  by (simp_all add: hfields_def hash_count_def hash_inv_def)

text \<open>The record of a field is written and the counter follows.\<close>

definition put_field :: "bytes \<Rightarrow> bytes \<Rightarrow> bytes \<Rightarrow> (bytes \<rightharpoonup> item) \<Rightarrow> (bytes \<rightharpoonup> item)" where
  "put_field key field v m = m(TypeOfKeyGet key \<mapsto> \<lparr>ival = KeyTypeHash, iexp = 0\<rparr>,
     hashKey key field \<mapsto> \<lparr>ival = v, iexp = 0\<rparr>,
     hashCountKey key \<mapsto> \<lparr>ival = Uint64ToBytes (word_of_nat (card (insert field (hfields m key)))), iexp = 0\<rparr>)"

lemma put_field_data [simp]: "data (put_field key field v m) = put_field key field v (data m)"
  by (simp add: put_field_def)

lemma put_field_props:
  assumes "field \<noteq> countField"
  shows "hfields (put_field key field v m) key = insert field (hfields m key)" "hash_inv (put_field key field v m) key"
    "put_field key field v m (hashKey key field) = Some \<lparr>ival = v, iexp = 0\<rparr>"
    "hash_typed (put_field key field v m) key"
  using assms by (simp_all add: put_field_def hc.count_ok_set hash_typed_def)

lemma insert_word:
  assumes "finite S" "c = word_of_nat (card S)"
  shows "(if x \<in> S then c else c + 1 :: u64) = word_of_nat (card (insert x S))"
  using assms by (simp add: insert_absorb)

lemma itoa_short: "length (itoa (i64 x)) \<le> 20"
proof -
  define v where "v = i64 x"
  have "- (2 ^ 63) \<le> v" "v < 2 ^ 63"
    using sint_greater_eq [of "word_of_int x :: u64"] sint_less [of "word_of_int x :: u64"] by (simp_all add: v_def i64_def)
  then have "\<bar>v\<bar> \<le> 2 ^ 63" by linarith
  then have "nat \<bar>v\<bar> \<le> 2 ^ 63" by (simp add: nat_le_iff)
  also have "(2 :: nat) ^ 63 < 10 ^ Suc 18" by simp
  finally have "length (utoa (nat \<bar>v\<bar>)) \<le> Suc 18" by (rule utoa_length_bound)
  then have "length (itoa v) \<le> 20" by (cases "v < 0") (simp_all add: itoa_def)
  then show ?thesis by (simp add: v_def)
qed

lemma storedValue_itoa: "storedValue C ct (itoa (i64 x)) = Inr (itoa (i64 x))"
  using itoa_short [of x] by (simp add: storedValue_def shouldCompress_def)

context badger_txn
begin

lemma finite_hfields: "finite (hfields (view t) key)"
  by (rule hc.finite_elems [OF finite_view])

lemma checkHashType_run [txn_simps]:
  "checkHashType B key t = (if hash_typed (view t) key then Inr ((), t) else Inl ErrWrongType)"
  by (simp add: checkHashType_def bnd_def txn_simps hash_typed_def split: option.splits)

lemma hashCount_run [txn_simps]: "hashCount op errText strict B key t = Inr (hash_count (view t) key, t)"
  by (simp add: hashCount_def bnd_def txn_simps hash_count_def split: option.splits)

lemma bumpCount_run [txn_simps]:
  "bumpCount op errText B key t =
     Inr ((), upd t (hashCountKey key) (Some \<lparr>ival = Uint64ToBytes (hash_count (view t) key + 1), iexp = 0\<rparr>))"
  by (simp add: bumpCount_def bnd_def txn_simps)

lemma hsetBody_run:
  assumes "field \<noteq> countField" "hash_inv (view t) key"
  shows "hash_typed (view t) key \<Longrightarrow> storedValue C ct v = Inr s \<Longrightarrow>
      \<exists>t'. hsetBody errText C ct B key field v c t = Inr ((), t') \<and> view t' = put_field key field s (view t)"
    "\<not> hash_typed (view t) key \<Longrightarrow> hsetBody errText C ct B key field v c t = Inl ErrWrongType"
    "hash_typed (view t) key \<Longrightarrow> storedValue C ct v = Inl e \<Longrightarrow> hsetBody errText C ct B key field v c t = Inl e"
proof -
  have w: "(if field \<in> hfields (view t) key then hash_count (view t) key else hash_count (view t) key + 1) =
      word_of_nat (card (insert field (hfields (view t) key)))"
    by (rule insert_word) (use assms(2) finite_hfields in \<open>simp_all add: hash_inv_def\<close>)
  have ex: "field \<in> hfields (view t) key \<longleftrightarrow> view t (hashKey key field) \<noteq> None" using assms(1) by (simp add: hfields_def)
  show "\<exists>t'. hsetBody errText C ct B key field v c t = Inr ((), t') \<and> view t' = put_field key field s (view t)"
    if "hash_typed (view t) key" "storedValue C ct v = Inr s"
    using that assms(1) w ex
    by (cases "view t (hashKey key field)") (simp_all add: hsetBody_def andThen_def bnd_def txn_simps put_field_def)
  show "hsetBody errText C ct B key field v c t = Inl ErrWrongType" if "\<not> hash_typed (view t) key"
    using that by (simp add: hsetBody_def andThen_def bnd_def txn_simps)
  show "hsetBody errText C ct B key field v c t = Inl e" if "hash_typed (view t) key" "storedValue C ct v = Inl e"
    using that by (simp add: hsetBody_def andThen_def bnd_def txn_simps)
qed

lemma hsetnxBody_run:
  assumes "field \<noteq> countField" "hash_inv (view t) key"
  shows "field \<in> hfields (view t) key \<Longrightarrow> hsetnxBody errText C ct B key field v c t = Inr (False, t)"
    "field \<notin> hfields (view t) key \<Longrightarrow> storedValue C ct v = Inr s \<Longrightarrow>
      \<exists>t'. hsetnxBody errText C ct B key field v c t = Inr (True, t') \<and> view t' = put_field key field s (view t)"
proof -
  have ex: "field \<in> hfields (view t) key \<longleftrightarrow> view t (hashKey key field) \<noteq> None" using assms(1) by (simp add: hfields_def)
  then show "hsetnxBody errText C ct B key field v c t = Inr (False, t)" if "field \<in> hfields (view t) key"
    using that by (auto simp: hsetnxBody_def bnd_def txn_simps)
  show "\<exists>t'. hsetnxBody errText C ct B key field v c t = Inr (True, t') \<and> view t' = put_field key field s (view t)"
    if new: "field \<notin> hfields (view t) key" and s: "storedValue C ct v = Inr s"
  proof -
    have "hash_count (view t) key + 1 = word_of_nat (card (insert field (hfields (view t) key)))"
      using card_insert_word [OF finite_hfields new] assms(2) by (simp add: hash_inv_def)
    then show ?thesis
      using new s ex assms(1) by (simp add: hsetnxBody_def andThen_def bnd_def txn_simps put_field_def)
  qed
qed

lemma hincrbyBody_run:
  assumes "field \<noteq> countField" "hash_inv (view t) key" "hash_typed (view t) key"
    "cur = (case view t (hashKey key field) of None \<Rightarrow> Some 0 | Some i \<Rightarrow> parse_int (ival i))"
  shows "cur = None \<Longrightarrow> hincrbyBody errText C ct B key field n c t = Inl (Errorf ''HIncrBy: value is not an integer or out of range'')"
    "cur = Some x \<Longrightarrow> \<exists>t'. hincrbyBody errText C ct B key field n c t = Inr (i64 (x + n), t')
       \<and> hfields (view t') key = insert field (hfields (view t) key) \<and> hash_inv (view t') key
       \<and> view t' (hashKey key field) = Some \<lparr>ival = itoa (i64 (x + n)), iexp = 0\<rparr>
       \<and> (\<forall>k. k \<noteq> TypeOfKeyGet key \<and> k \<noteq> hashKey key field \<and> k \<noteq> hashCountKey key \<longrightarrow> view t' k = view t k)"
proof -
  have ty: "(case map_option ival (view t (TypeOfKeyGet key)) of None \<Rightarrow> Set B (TypeOfKeyGet key) KeyTypeHash
      | Some keyType \<Rightarrow> if keyType \<noteq> [] \<and> keyType \<noteq> KeyTypeHash then fail ErrWrongType else ret ()) t
    = Inr ((), if view t (TypeOfKeyGet key) = None then upd t (TypeOfKeyGet key) (Some \<lparr>ival = KeyTypeHash, iexp = 0\<rparr>) else t)"
    using assms(3) by (auto simp: hash_typed_def txn_simps split: option.splits)
  define t1 where "t1 = (if view t (TypeOfKeyGet key) = None
      then upd t (TypeOfKeyGet key) (Some \<lparr>ival = KeyTypeHash, iexp = 0\<rparr>) else t)"
  have t1: "view t1 (hashKey key field) = view t (hashKey key field)" "hash_count (view t1) key = hash_count (view t) key"
    "hfields (view t1) key = hfields (view t) key" "\<And>k. k \<noteq> TypeOfKeyGet key \<Longrightarrow> view t1 k = view t k"
    by (simp_all add: t1_def view_upd)
  have body: "hincrbyBody errText C ct B key field n c t =
      (case cur of None \<Rightarrow> Inl (Errorf ''HIncrBy: value is not an integer or out of range'')
       | Some x \<Rightarrow> andThen (setValueWithCompression C ct B (hashKey key field) (itoa (i64 (x + n))))
              (andThen (if view t (hashKey key field) = None then bumpCount ''HIncrBy'' errText B key else ret ())
                (ret (i64 (x + n)))) t1)"
    using assms(4) ty [folded t1_def] t1(1)
    by (auto simp: hincrbyBody_def bnd_def andThen_def lookupValue_run Let_def split: option.splits)
  then show "hincrbyBody errText C ct B key field n c t = Inl (Errorf ''HIncrBy: value is not an integer or out of range'')"
    if "cur = None" using that by simp
  show "\<exists>t'. hincrbyBody errText C ct B key field n c t = Inr (i64 (x + n), t')
       \<and> hfields (view t') key = insert field (hfields (view t) key) \<and> hash_inv (view t') key
       \<and> view t' (hashKey key field) = Some \<lparr>ival = itoa (i64 (x + n)), iexp = 0\<rparr>
       \<and> (\<forall>k. k \<noteq> TypeOfKeyGet key \<and> k \<noteq> hashKey key field \<and> k \<noteq> hashCountKey key \<longrightarrow> view t' k = view t k)"
    if x: "cur = Some x"
  proof -
    let ?t2 = "upd t1 (hashKey key field) (Some \<lparr>ival = itoa (i64 (x + n)), iexp = 0\<rparr>)"
    define t3 where "t3 = (if view t (hashKey key field) = None
      then upd ?t2 (hashCountKey key) (Some \<lparr>ival = Uint64ToBytes (hash_count (view t) key + 1), iexp = 0\<rparr>) else ?t2)"
    have "hincrbyBody errText C ct B key field n c t = Inr (i64 (x + n), t3)"
      using x assms(1) t1(2) by (simp add: body andThen_def bnd_def txn_simps storedValue_itoa t3_def)
    moreover have f: "hfields (view t3) key = insert field (hfields (view t) key)"
      using assms(1) t1(3) by (simp add: t3_def view_upd)
    moreover have "hash_inv (view t3) key"
    proof (cases "view t (hashKey key field)")
      case None
      then have "field \<notin> hfields (view t) key" by (simp add: hfields_def)
      from card_insert_word [OF finite_hfields this] show ?thesis
        using None f assms(2) by (simp add: hash_inv_def t3_def view_upd)
    next
      case (Some i)
      then have "field \<in> hfields (view t) key" using assms(1) by (simp add: hfields_def)
      then show ?thesis
        using Some f assms(1,2) t1(2) by (simp add: hash_inv_def t3_def view_upd insert_absorb)
    qed
    ultimately show ?thesis using assms(1) t1(4) by (auto simp: t3_def view_upd)
  qed
qed

lemma regular_hash [simp, intro]:
  "regular (checkHashType B key)" "regular (hashCount op errText strict B key)" "regular (bumpCount op errText B key)"
proof -
  show count: "regular (hashCount op errText strict B key)" for op errText strict
    by (auto simp: regular_def hashCount_run)
  show "regular (bumpCount op errText B key)" unfolding bumpCount_def by (intro regular_bnd regular_ops count)
  show "regular (checkHashType B key)"
    unfolding checkHashType_def by (intro regular_bnd regular_branches regular_ops regular_ret regular_fail)
qed

lemma regular_hash_bodies [simp, intro]:
  "regular (hsetBody errText C ct B key field v cu)" "regular (hsetnxBody errText C ct B key field v cb)"
  "regular (hincrbyBody errText C ct B key field n ci)"
  unfolding hsetBody_def hsetnxBody_def hincrbyBody_def Let_def
  by (intro regular_bnd regular_andThen regular_branches regular_ops regular_ret regular_fail regular_hash regular_compression)+

lemma regular_hdel [simp, intro]: "regular (hdelBody errText B key flds c)"
proof -
  have "regular (hdelLoop B key flds cnt deleted)" for cnt deleted
    by (induction flds arbitrary: cnt deleted)
      (simp_all only: hdelLoop.simps, (intro regular_bnd regular_andThen regular_branches regular_ops regular_ret, assumption?)+)
  then show ?thesis unfolding hdelBody_def
    by (intro regular_bnd regular_andThen regular_branches regular_ops regular_ret regular_hash)
qed

lemma regular_hmset [simp, intro]: "regular (hmsetBody errText C ct B key fvs c)"
proof -
  have "regular (hmsetLoop C ct B key fvs n)" for n
  proof (induction fvs arbitrary: n)
    case (Cons fv fvs)
    obtain f v where "fv = (f, v)" by force
    then show ?case
      by (simp only: hmsetLoop.simps) (intro regular_bnd regular_andThen regular_ops regular_compression Cons.IH)
  qed (simp only: hmsetLoop.simps regular_ret)
  then show ?thesis unfolding hmsetBody_def
    by (intro regular_bnd regular_andThen regular_branches regular_ops regular_ret regular_hash)
qed

end

text \<open>\<^verbatim>\<open>HDEL\<close>: the records of the given fields go, the counter is that of the rest.\<close>

definition drop_fields :: "bytes \<Rightarrow> bytes set \<Rightarrow> (bytes \<rightharpoonup> item) \<Rightarrow> (bytes \<rightharpoonup> item)" where
  "drop_fields key F m = (\<lambda>k. if k \<in> hashKey key ` F then None else m k)"

lemma drop_fields_simps [simp]:
  "drop_fields key {} m = m" "hfields (drop_fields key F m) key = hfields m key - F"
  "countField \<notin> F \<Longrightarrow> hash_count (drop_fields key F m) key = hash_count m key"
  "data (drop_fields key F m) = drop_fields key F (data m)"
proof -
  show "countField \<notin> F \<Longrightarrow> hash_count (drop_fields key F m) key = hash_count m key"
    by (auto simp: hash_count_def drop_fields_def hashKey_eq)
qed (auto simp: drop_fields_def hfields_def data_def fun_eq_iff)

lemma drop_fields_insert: "drop_fields key F (m(hashKey key f := None)) = drop_fields key (insert f F) m"
  by (auto simp: drop_fields_def fun_eq_iff)

lemma drop_fields_absent: "f \<noteq> countField \<Longrightarrow> f \<notin> hfields m key \<Longrightarrow> drop_fields key (insert f F) m = drop_fields key F m"
  by (auto simp: drop_fields_def hfields_def fun_eq_iff)

context badger_txn
begin

lemma hdelLoop_run:
  assumes "countField \<notin> set flds" "cnt = word_of_nat (card (hfields (view t) key))" "card (hfields (view t) key) < 2 ^ 64"
  shows "\<exists>t'. hdelLoop B key flds cnt d t =
      Inr ((word_of_nat (card (hfields (view t) key - set flds)), d + int (card (set flds \<inter> hfields (view t) key))), t')
    \<and> view t' = drop_fields key (set flds) (view t)"
  using assms
proof (induction flds arbitrary: t cnt d)
  case (Cons f flds)
  let ?F = "hfields (view t) key"
  show ?case
  proof (cases "f \<in> ?F")
    case False
    then have run: "hdelLoop B key (f # flds) cnt d t = hdelLoop B key flds cnt d t"
      using Cons.prems(1) by (auto simp: hfields_def bnd_def txn_simps)
    have "?F - set (f # flds) = ?F - set flds" "set (f # flds) \<inter> ?F = set flds \<inter> ?F" using False by auto
    then show ?thesis
      using Cons.IH [of cnt t d] Cons.prems drop_fields_absent [OF _ False, of "set flds"] unfolding run by auto
  next
    case True
    let ?t = "upd t (hashKey key f) None"
    have F: "hfields (view ?t) key = ?F - {f}" by (auto simp: view_upd hfields_def)
    have pos: "card ?F > 0" using True finite_hfields by (auto simp: card_gt_0_iff)
    then have "cnt > 0" using word_of_nat_pos [OF pos Cons.prems(3)] Cons.prems(2) by simp
    then have run: "hdelLoop B key (f # flds) cnt d t = hdelLoop B key flds (cnt - 1) (d + 1) ?t"
      using True by (auto simp: hfields_def bnd_def andThen_def txn_simps)
    have "cnt - 1 = word_of_nat (card (hfields (view ?t) key))"
      using card_remove_word [OF finite_hfields True] Cons.prems(2) F by simp
    moreover have "card (hfields (view ?t) key) < 2 ^ 64" using Cons.prems(3) card_Diff1_le [of ?F f] unfolding F by linarith
    ultimately obtain t' where t': "hdelLoop B key flds (cnt - 1) (d + 1) ?t =
        Inr ((word_of_nat (card (hfields (view ?t) key - set flds)), d + 1 + int (card (set flds \<inter> hfields (view ?t) key))), t')"
      "view t' = drop_fields key (set flds) (view ?t)"
      using Cons.IH [of "cnt - 1" ?t "d + 1"] Cons.prems(1) by auto
    have "set (f # flds) \<inter> ?F = insert f (set flds \<inter> hfields (view ?t) key)" using True F by auto
    then have "card (set (f # flds) \<inter> ?F) = Suc (card (set flds \<inter> hfields (view ?t) key))" using F by simp
    moreover have "?F - set (f # flds) = hfields (view ?t) key - set flds" using F by auto
    moreover have "view t' = drop_fields key (set (f # flds)) (view t)"
      using t'(2) by (simp add: view_upd drop_fields_insert)
    ultimately show ?thesis unfolding run t'(1) by (intro exI [of _ t']) (simp del: hdelLoop.simps)
  qed
qed simp

lemma hdelBody_run:
  assumes "countField \<notin> set flds" "hash_inv (view t) key" "hash_typed (view t) key" "card (hfields (view t) key) < 2 ^ 64"
  defines "F \<equiv> hfields (view t) key"
  shows "\<exists>t'. hdelBody errText B key flds c t = Inr (int (card (set flds \<inter> F)), t')
    \<and> view t' = (if set flds \<inter> F = {} then view t else (drop_fields key (set flds) (view t))
         (hashCountKey key \<mapsto> \<lparr>ival = Uint64ToBytes (word_of_nat (card (F - set flds))), iexp = 0\<rparr>))"
proof -
  obtain t1 where t1: "hdelLoop B key flds (hash_count (view t) key) 0 t =
      Inr ((word_of_nat (card (F - set flds)), int (card (set flds \<inter> F))), t1)" "view t1 = drop_fields key (set flds) (view t)"
    using hdelLoop_run [of flds "hash_count (view t) key" t key 0] assms by (auto simp: hash_inv_def)
  have "drop_fields key (set flds) (view t) = view t" if "set flds \<inter> F = {}"
  proof -
    have "view t (hashKey key f) = None" if "f \<in> set flds" for f
      using that \<open>set flds \<inter> F = {}\<close> assms(1) by (auto simp: F_def hfields_def)
    then show ?thesis by (auto simp: drop_fields_def fun_eq_iff)
  qed
  moreover have "int (card (set flds \<inter> F)) > 0 \<longleftrightarrow> set flds \<inter> F \<noteq> {}" by (simp add: card_gt_0_iff)
  ultimately show ?thesis
    using t1 assms(3) by (auto simp: hdelBody_def andThen_def bnd_def txn_simps)
qed

lemma hash_body_wrongtype:
  assumes "\<not> hash_typed (view t) key"
  shows "hdelBody errText B key flds c t = Inl ErrWrongType" "hincrbyBody errText C ct B key f n c t = Inl ErrWrongType"
    "hsetBody errText C ct B key f v u t = Inl ErrWrongType"
  using assms by (auto simp: hdelBody_def hincrbyBody_def hsetBody_def andThen_def bnd_def txn_simps hash_typed_def split: option.splits)

end

text \<open>Reservoir sampling without repetition.\<close>

lemma reservoirN_sample:
  assumes "\<And>i. draws_ok (rnd i)" "0 < n" "distinct (seen @ xs)" "length seen = i" "distinct acc" "set acc \<subseteq> set seen"
    "length acc = min (nat n) i"
  shows "distinct (reservoirN rnd n i acc xs) \<and> set (reservoirN rnd n i acc xs) \<subseteq> set (seen @ xs)
    \<and> length (reservoirN rnd n i acc xs) = min (nat n) (i + length xs)"
  using assms(3-7)
proof (induction xs arbitrary: i acc seen)
  case (Cons x xs)
  have x: "x \<notin> set acc" using Cons.prems(1,4) by auto
  show ?case
  proof (cases "int i < n")
    case True
    have "distinct (acc @ [x])" "set (acc @ [x]) \<subseteq> set (seen @ [x])" "length (acc @ [x]) = min (nat n) (Suc i)"
      using Cons.prems(3-5) x True by auto
    moreover have "reservoirN rnd n i acc (x # xs) = reservoirN rnd n (Suc i) (acc @ [x]) xs" using True by simp
    ultimately show ?thesis
      using Cons.IH [of "seen @ [x]" "Suc i" "acc @ [x]"] Cons.prems(1,2) by (simp del: reservoirN.simps)
  next
    case False
    define j where "j = randomIntn (rnd i) (int i + 1)"
    define acc' where "acc' = (if j < n then acc[nat j := x] else acc)"
    have "0 \<le> j" using assms(1) [of i] by (auto simp: j_def randomIntn_def draws_ok_def)
    have "distinct acc'" using Cons.prems(3) x by (simp add: acc'_def distinct_list_update)
    moreover have "set acc' \<subseteq> set (seen @ [x])"
      using Cons.prems(4) set_update_subset_insert [of acc "nat j" x] by (auto simp: acc'_def)
    moreover have "nat n \<le> i" using False by linarith
    then have "length acc' = min (nat n) (Suc i)" using Cons.prems(5) by (simp add: acc'_def)
    moreover have "reservoirN rnd n i acc (x # xs) = reservoirN rnd n (Suc i) acc' xs"
      using False by (simp add: acc'_def j_def Let_def)
    ultimately show ?thesis
      using Cons.IH [of "seen @ [x]" "Suc i" acc'] Cons.prems(1,2) by (simp del: reservoirN.simps)
  qed
qed simp

section \<open>Specification of the commands\<close>

definition hset_spec ::
  "codecs \<Rightarrow> CompressionType \<Rightarrow> bytes \<Rightarrow> bytes \<Rightarrow> bytes \<Rightarrow> (bytes \<rightharpoonup> item) \<Rightarrow> (bytes \<rightharpoonup> item) \<Rightarrow> bool" where
  "hset_spec C ct key field v m m' \<longleftrightarrow> (hash_inv m key \<longrightarrow> hash_typed m key
     \<and> (\<exists>s. storedValue C ct v = Inr s \<and> m' = put_field key field s m))"

definition hdel_spec :: "bytes \<Rightarrow> bytes list \<Rightarrow> (bytes \<rightharpoonup> item) \<Rightarrow> int \<Rightarrow> (bytes \<rightharpoonup> item) \<Rightarrow> bool" where
  "hdel_spec key flds m deleted m' \<longleftrightarrow> (hash_inv m key \<and> card (hfields m key) < 2 ^ 64 \<longrightarrow> hash_typed m key
     \<and> deleted = int (card (set flds \<inter> hfields m key)) \<and> hfields m' key = hfields m key - set flds \<and> hash_inv m' key
     \<and> (\<forall>k. k \<notin> hashKey key ` set flds \<and> k \<noteq> hashCountKey key \<longrightarrow> m' k = m k))"

definition hincrby_spec :: "bytes \<Rightarrow> bytes \<Rightarrow> int \<Rightarrow> (bytes \<rightharpoonup> item) \<Rightarrow> int \<Rightarrow> (bytes \<rightharpoonup> item) \<Rightarrow> bool" where
  "hincrby_spec key field n m result m' \<longleftrightarrow> (hash_inv m key \<longrightarrow> hash_typed m key
     \<and> (\<exists>x. (case m (hashKey key field) of None \<Rightarrow> Some 0 | Some i \<Rightarrow> parse_int (ival i)) = Some x
         \<and> result = i64 (x + n) \<and> m' (hashKey key field) = Some \<lparr>ival = itoa result, iexp = 0\<rparr>)
     \<and> hfields m' key = insert field (hfields m key) \<and> hash_inv m' key
     \<and> (\<forall>k. k \<noteq> TypeOfKeyGet key \<and> k \<noteq> hashKey key field \<and> k \<noteq> hashCountKey key \<longrightarrow> m' k = m k))"

context badger_txn
begin

lemma hsetBody_post:
  assumes "hsetBody errText C ct B key field v c t = Inr (c', t')" "field \<noteq> countField"
  shows "hset_spec C ct key field v (data (view t)) (data (view t'))"
  unfolding hset_spec_def hfields_data hash_typed_data
proof
  assume inv: "hash_inv (view t) key"
  have ty: "hash_typed (view t) key" using assms(1) hash_body_wrongtype(3) by fastforce
  then obtain s where s: "storedValue C ct v = Inr s"
    using assms(1) hsetBody_run(3) [OF assms(2) inv ty] by (cases "storedValue C ct v") fastforce+
  from hsetBody_run(1) [OF assms(2) inv ty s, of errText c] assms(1) s ty
  show "hash_typed (view t) key \<and> (\<exists>s. storedValue C ct v = Inr s \<and> data (view t') = put_field key field s (data (view t)))"
    by auto
qed

lemma hdelBody_post:
  assumes "hdelBody errText B key flds c t = Inr (d, t')" "countField \<notin> set flds"
  shows "hdel_spec key flds (data (view t)) d (data (view t'))"
  unfolding hdel_spec_def hfields_data hash_typed_data
proof (intro impI, elim conjE)
  assume inv: "hash_inv (view t) key" "card (hfields (view t) key) < 2 ^ 64"
  let ?F = "hfields (view t) key"
  have ty: "hash_typed (view t) key" using assms(1) hash_body_wrongtype(1) by fastforce
  from hdelBody_run [OF assms(2) inv(1) ty inv(2), of errText c] assms(1) have
    d: "d = int (card (set flds \<inter> ?F))" and v: "view t' = (if set flds \<inter> ?F = {} then view t else (drop_fields key (set flds) (view t))
         (hashCountKey key \<mapsto> \<lparr>ival = Uint64ToBytes (word_of_nat (card (?F - set flds))), iexp = 0\<rparr>))"
    by auto
  have "hfields (view t') key = ?F - set flds \<and> hash_inv (view t') key"
    using inv(1) v by (auto simp: hc.count_ok_set Diff_triv Int_commute)
  moreover have "data (view t') k = data (view t) k" if "k \<notin> hashKey key ` set flds \<and> k \<noteq> hashCountKey key" for k
    using that v by (auto simp: data_def drop_fields_def)
  ultimately show "hash_typed (view t) key \<and> d = int (card (set flds \<inter> ?F)) \<and> hfields (view t') key = ?F - set flds
      \<and> hash_inv (view t') key \<and> (\<forall>k. k \<notin> hashKey key ` set flds \<and> k \<noteq> hashCountKey key \<longrightarrow> data (view t') k = data (view t) k)"
    using ty d by blast
qed

lemma hincrbyBody_post:
  assumes "hincrbyBody errText C ct B key field n c t = Inr (d, t')" "field \<noteq> countField"
  shows "hincrby_spec key field n (data (view t)) d (data (view t'))"
  unfolding hincrby_spec_def hfields_data hash_typed_data
proof
  assume inv: "hash_inv (view t) key"
  have ty: "hash_typed (view t) key" using assms(1) hash_body_wrongtype(2) by fastforce
  define cur where "cur = (case view t (hashKey key field) of None \<Rightarrow> Some 0 | Some i \<Rightarrow> parse_int (ival i))"
  note run = hincrbyBody_run [OF assms(2) inv ty cur_def]
  obtain x where x: "cur = Some x" using assms(1) run(1) by (cases cur) fastforce+
  from run(2) [OF x, of errText C ct n c] assms(1) have o: "d = i64 (x + n)" "hfields (view t') key = insert field (hfields (view t) key)"
    "hash_inv (view t') key" "view t' (hashKey key field) = Some \<lparr>ival = itoa d, iexp = 0\<rparr>"
    "\<And>k. k \<noteq> TypeOfKeyGet key \<and> k \<noteq> hashKey key field \<and> k \<noteq> hashCountKey key \<Longrightarrow> view t' k = view t k" by auto
  show "hash_typed (view t) key
     \<and> (\<exists>x. (case data (view t) (hashKey key field) of None \<Rightarrow> Some 0 | Some i \<Rightarrow> parse_int (ival i)) = Some x
         \<and> d = i64 (x + n) \<and> data (view t') (hashKey key field) = Some \<lparr>ival = itoa d, iexp = 0\<rparr>)
     \<and> hfields (view t') key = insert field (hfields (view t) key) \<and> hash_inv (view t') key
     \<and> (\<forall>k. k \<noteq> TypeOfKeyGet key \<and> k \<noteq> hashKey key field \<and> k \<noteq> hashCountKey key \<longrightarrow> data (view t') k = data (view t) k)"
    using ty x o(1-4) by (auto simp: cur_def data_def o(5))
qed

end

context badger_db
begin

lemma HGet_run:
  assumes "hash_typed (snap (db st) MaxUint64) key"
  shows "HGet C B D key field st = (case snap (db st) MaxUint64 (hashKey key field) of
      None \<Rightarrow> Inl ErrKeyNotFound | Some i \<Rightarrow> decompressData C (ival i))"
  using assms
  by (auto simp: HGet_def View_def lookupValue_run bnd_def Get_run new_view hash_typed_def getValueWithDecompression_run
      split: option.splits sum.splits)

lemma HLen_run:
  assumes "snap (db st) MaxUint64 (TypeOfKeyGet key) = Some \<lparr>ival = KeyTypeHash, iexp = 0\<rparr>"
  shows "HLen errText B D key st = Inr (hash_count (snap (db st) MaxUint64) key)"
  using assms by (simp add: HLen_def View_def andThen_def bnd_def checkKeyType_def txn_simps new_view)

end

section \<open>Properties\<close>

text \<open>C20 \<^verbatim>\<open>HSET\<close> then \<^verbatim>\<open>HGET\<close>: a committed \<^verbatim>\<open>HSET\<close> on a hash whose counter is right writes the field, the type and the
  counter and no other record, \<^verbatim>\<open>HGET\<close> then answers the value (unless the value starts with a compression
  mark), \<^verbatim>\<open>HLEN\<close> answers the number of fields, and the counter is right again. A failed one changes nothing.\<close>

theorem HSet_then_HGet:
  assumes "badger_db B view upd now D snap pend" "writable D st" "codecs_ok C"
    and "HSet errText C ct E B D key field value st = (r, u, st')" "field \<noteq> countField"
    and "m = data (snap (db st) MaxUint64)" "m' = data (snap (db st') MaxUint64)"
  shows "case r of Inl e \<Rightarrow> m' = m
    | Inr x \<Rightarrow> hset_spec C ct key field (encodeHashValue value) m m'
        \<and> (hash_inv m key \<longrightarrow> hash_inv m' key
            \<and> HLen errText B D key st' = Inr (word_of_nat (card (insert field (hfields m key))))
            \<and> (\<not> has_magic (encodeHashValue value) \<longrightarrow> HGet C B D key field st' = Inr (encodeHashValue value)))"
proof -
  let ?v = "encodeHashValue value"
  have tx: "badger_txn B view upd now" using assms(1) by (rule badger_db.axioms)
  have post: "case r of Inl e \<Rightarrow> m' = m | Inr x \<Rightarrow> hset_spec C ct key field ?v m m'" unfolding assms(6,7)
    by (rule badger_db.retryUpdate_post [where P = "\<lambda>m _. hset_spec C ct key field ?v m", OF assms(1,2)
          badger_txn.regular_hash_bodies(1) [OF tx] assms(4) [unfolded HSet_def Let_def]])
      (rule badger_txn.hsetBody_post [OF tx _ assms(5)])
  show ?thesis
  proof (cases r)
    case (Inr x)
    have spec: "hset_spec C ct key field ?v m m'" using post Inr by simp
    have "hash_inv m' key \<and> HLen errText B D key st' = Inr (word_of_nat (card (insert field (hfields m key))))
        \<and> (\<not> has_magic ?v \<longrightarrow> HGet C B D key field st' = Inr ?v)" if inv: "hash_inv m key"
    proof -
      obtain s where s: "storedValue C ct ?v = Inr s" "m' = put_field key field s m" using spec inv by (auto simp: hset_spec_def)
      note p = put_field_props [OF assms(5), of key s m, folded s(2)]
      have ty: "snap (db st') MaxUint64 (TypeOfKeyGet key) = Some \<lparr>ival = KeyTypeHash, iexp = 0\<rparr>"
        "snap (db st') MaxUint64 (hashKey key field) = Some \<lparr>ival = s, iexp = 0\<rparr>"
        using arg_cong [OF s(2), of "\<lambda>m. m (TypeOfKeyGet key)"] p(3) unfolding assms(7) by (simp_all add: put_field_def)
      have "hash_count m' key = word_of_nat (card (insert field (hfields m key)))" using p(1,2) by (simp add: hash_inv_def)
      then have "HLen errText B D key st' = Inr (word_of_nat (card (insert field (hfields m key))))"
        using badger_db.HLen_run [OF assms(1) ty(1)] by (simp add: assms(7))
      moreover have "HGet C B D key field st' = decompressData C s"
        using badger_db.HGet_run [OF assms(1), of st' key C field] ty by (simp add: hash_typed_def)
      ultimately show ?thesis using p(2) storedValue_read [OF s(1) assms(3)] by auto
    qed
    then show ?thesis using spec Inr by simp
  qed (use post in simp)
qed

text \<open>C28 \<^verbatim>\<open>HDEL\<close> removes exactly the given fields: it answers how many there were, the counter follows, and no other
  record changes. A failed one changes nothing.\<close>

theorem HDel_removes:
  assumes "badger_db B view upd now D snap pend" "writable D st" "HDel errText E B D key flds st = (r, deleted, st')"
    and "countField \<notin> set flds" "m = data (snap (db st) MaxUint64)" "m' = data (snap (db st') MaxUint64)"
  shows "case r of Inl e \<Rightarrow> m' = m | Inr u \<Rightarrow> hdel_spec key flds m deleted m'"
proof -
  have tx: "badger_txn B view upd now" using assms(1) by (rule badger_db.axioms)
  show ?thesis unfolding assms(5,6)
    by (rule badger_db.retryUpdate_post [where P = "hdel_spec key flds", OF assms(1,2)
          badger_txn.regular_hdel [OF tx] assms(3) [unfolded HDel_def]])
      (rule badger_txn.hdelBody_post [OF tx _ assms(4)])
qed

text \<open>C29 \<^verbatim>\<open>HINCRBY\<close> adds modulo \<open>2 ^ 64\<close>: a committed one answers the 64-bit wrapped sum of the integer in the field
  (0 when the field is new) and the increment, stores its decimal form, and the counter follows; on a field that
  is not a 64-bit decimal it fails, and a failed one changes nothing.\<close>

theorem HIncrBy_wraps:
  assumes "badger_db B view upd now D snap pend" "writable D st" "HIncrBy errText C ct E B D key field n st = (r, result, st')"
    and "field \<noteq> countField" "m = data (snap (db st) MaxUint64)" "m' = data (snap (db st') MaxUint64)"
  shows "case r of Inl e \<Rightarrow> m' = m | Inr u \<Rightarrow> hincrby_spec key field n m result m'"
proof -
  have tx: "badger_txn B view upd now" using assms(1) by (rule badger_db.axioms)
  show ?thesis unfolding assms(5,6)
    by (rule badger_db.retryUpdate_post [where P = "hincrby_spec key field n", OF assms(1,2)
          badger_txn.regular_hash_bodies(3) [OF tx] assms(3) [unfolded HIncrBy_def]])
      (rule badger_txn.hincrbyBody_post [OF tx _ assms(4)])
qed

section \<open>Samples\<close>

definition sample_hash :: "(bytes \<times> item) list" where
  "sample_hash = [(TypeOfKeyGet ''h'', plain KeyTypeHash), (hashKey ''h'' ''n'', plain ''41''),
     (hashKey ''h'' ''max'', plain (itoa 9223372036854775807)), (hashCountKey ''h'', plain (Uint64ToBytes 2))]"

lemmas hash_key_defs = hashKey_def hashCountKey_def TypeOfKeyGet_def

lemma sample_hfields: "hfields (map_of sample_hash) ''h'' = {''n'', ''max''}"
  by (auto simp: hfields_def sample_hash_def hash_key_defs split: if_splits)

lemma sample_hash_inv: "hash_inv (map_of sample_hash) ''h''" "hash_typed (map_of sample_hash) ''h''"
  unfolding hash_inv_def sample_hfields by (simp_all add: hash_count_def hash_typed_def sample_hash_def hash_key_defs)

abbreviation hash_tx :: kv_txn where
  "hash_tx \<equiv> newTransactionAt kv_db_ops (db (kv_with sample_hash)) MaxUint64"

lemma hash_tx_view [simp]: "kv_view hash_tx = map_of sample_hash"
  by (simp add: kvd.new_view kv_with_snap)

theorem HSet_then_HGet_witness:
  "\<exists>st'. HSet (\<lambda>e. []) sample_codecs CompressionLZ4 env0 kv_ops kv_db_ops ''h'' ''new'' (GInt 7) (kv_with sample_hash)
       = (Inr (), (), st')
     \<and> HGet sample_codecs kv_ops kv_db_ops ''h'' ''new'' st' = Inr ''7''
     \<and> HLen (\<lambda>e. []) kv_ops kv_db_ops ''h'' st' = Inr 3"
proof -
  let ?st = "kv_with sample_hash"
  have v: "encodeHashValue (GInt 7) = ''7''" "\<not> has_magic ''7''" "storedValue sample_codecs CompressionLZ4 ''7'' = Inr ''7''"
    by code_simp+
  have "hash_inv (kv_view hash_tx) ''h''" "hash_typed (kv_view hash_tx) ''h''" "''new'' \<noteq> countField"
    by (simp_all add: sample_hash_inv)
  from kv.hsetBody_run(1) [OF this(3,1,2) v(3), of "\<lambda>e. []" "()"] obtain t' where
    "hsetBody (\<lambda>e. []) sample_codecs CompressionLZ4 kv_ops ''h'' ''new'' ''7'' () hash_tx = Inr ((), t')" by blast
  from kv_update_first_eager [of "hsetBody (\<lambda>e. []) sample_codecs CompressionLZ4 kv_ops ''h'' ''new'' ''7''", OF this] obtain st' where
    run: "HSet (\<lambda>e. []) sample_codecs CompressionLZ4 env0 kv_ops kv_db_ops ''h'' ''new'' (GInt 7) ?st = (Inr (), (), st')"
    unfolding HSet_def Let_def v(1) by blast
  from HSet_then_HGet [OF kvd.badger_db_axioms kv_with_writable sample_codecs_ok run _ refl refl] show ?thesis
    using run v by (auto simp: kv_with_snap sample_hash_inv sample_hfields)
qed

theorem HDel_removes_witness:
  "\<exists>st'. HDel (\<lambda>e. []) env0 kv_ops kv_db_ops ''h'' [''n'', ''x'', ''n''] (kv_with sample_hash) = (Inr (), 1, st')
     \<and> hfields (data (kv_snap (db st') MaxUint64)) ''h'' = {''max''}"
proof -
  let ?st = "kv_with sample_hash" and ?fs = "[''n'', ''x'', ''n'']"
  have nc: "countField \<notin> set ?fs" by simp
  have inv: "hash_inv (kv_view hash_tx) ''h''" "hash_typed (kv_view hash_tx) ''h''" "card (hfields (kv_view hash_tx) ''h'') < 2 ^ 64"
    by (simp_all add: sample_hash_inv sample_hfields)
  from kv.hdelBody_run [OF nc inv, of "\<lambda>e. []" 0] obtain t' where
    "hdelBody (\<lambda>e. []) kv_ops ''h'' ?fs 0 hash_tx = Inr (1, t')" by (auto simp: sample_hfields)
  from kv_update_first_eager [of "hdelBody (\<lambda>e. []) kv_ops ''h'' ?fs", OF this] obtain st' where
    run: "HDel (\<lambda>e. []) env0 kv_ops kv_db_ops ''h'' ?fs ?st = (Inr (), 1, st')" unfolding HDel_def by blast
  from HDel_removes [OF kvd.badger_db_axioms kv_with_writable run nc refl refl] show ?thesis
    using run by (auto simp: hdel_spec_def kv_with_snap sample_hash_inv sample_hfields)
qed

theorem HIncrBy_wraps_witness:
  "\<exists>st'. HIncrBy (\<lambda>e. []) sample_codecs CompressionNone env0 kv_ops kv_db_ops ''h'' ''max'' 1 (kv_with sample_hash)
      = (Inr (), - 9223372036854775808, st')
     \<and> hfields (data (kv_snap (db st') MaxUint64)) ''h'' = {''n'', ''max''}"
proof -
  let ?st = "kv_with sample_hash" and ?max = "9223372036854775807 :: int"
  have inv: "hash_inv (kv_view hash_tx) ''h''" "hash_typed (kv_view hash_tx) ''h''" "''max'' \<noteq> countField"
    by (simp_all add: sample_hash_inv)
  have cur: "Some ?max = (case kv_view hash_tx (hashKey ''h'' ''max'') of None \<Rightarrow> Some 0 | Some i \<Rightarrow> parse_int (ival i))"
  proof -
    have "parse_int (itoa ?max) = Some ?max" by (rule parse_int_itoa) (simp_all add: max_int64_def min_int64_def)
    then show ?thesis unfolding hash_tx_view by (simp add: sample_hash_def hash_key_defs)
  qed
  have "i64 (?max + 1) = - 9223372036854775808" by (simp add: i64_def)
  with kv.hincrbyBody_run(2) [OF inv(3,1,2) cur refl, of "\<lambda>e. []" sample_codecs CompressionNone 1 0] obtain t' where
    "hincrbyBody (\<lambda>e. []) sample_codecs CompressionNone kv_ops ''h'' ''max'' 1 0 hash_tx = Inr (- 9223372036854775808, t')"
    by auto
  from kv_update_first_eager [of "hincrbyBody (\<lambda>e. []) sample_codecs CompressionNone kv_ops ''h'' ''max'' 1", OF this] obtain st' where
    run: "HIncrBy (\<lambda>e. []) sample_codecs CompressionNone env0 kv_ops kv_db_ops ''h'' ''max'' 1 ?st
      = (Inr (), - 9223372036854775808, st')" unfolding HIncrBy_def by blast
  from HIncrBy_wraps [OF kvd.badger_db_axioms kv_with_writable run inv(3) refl refl] show ?thesis
    using run by (auto simp: hincrby_spec_def kv_with_snap sample_hash_inv sample_hfields)
qed

text \<open>Findings. The field of a record is taken after the last colon, so a field that contains one is listed under
  another name, under which it does not exist; \<^verbatim>\<open>HSTRLEN\<close> gives the length of the compressed bytes; \<^verbatim>\<open>HMSET\<close>
  does not look at the type of the key and turns a string into a hash.\<close>

theorem HKeys_colon_field:
  "HKeys kv_ops kv_db_ops ''h'' (kv_with [(TypeOfKeyGet ''h'', plain KeyTypeHash), (hashKey ''h'' ''a:b'', plain ''1'')]) = Inr [''b'']
   \<and> HExists kv_ops kv_db_ops ''h'' ''b'' (kv_with [(TypeOfKeyGet ''h'', plain KeyTypeHash), (hashKey ''h'' ''a:b'', plain ''1'')]) = Inr False"
  by code_simp

theorem HStrLen_compressed:
  "HStrLen kv_ops kv_db_ops ''h'' ''f'' (kv_with [(TypeOfKeyGet ''h'', plain KeyTypeHash), (hashKey ''h'' ''f'', plain ''ZSTDx'')]) = Inr 5
   \<and> HGet sample_codecs kv_ops kv_db_ops ''h'' ''f''
       (kv_with [(TypeOfKeyGet ''h'', plain KeyTypeHash), (hashKey ''h'' ''f'', plain ''ZSTDx'')]) = Inr (replicate 64 CHR ''a'')"
  by code_simp

context badger_txn
begin

lemma hmsetBody_no_type_check:
  "\<exists>t'. hmsetBody errText C ct B key [] c t = Inr ((), t') \<and> view t' (TypeOfKeyGet key) = Some \<lparr>ival = KeyTypeHash, iexp = 0\<rparr>"
  by (simp add: hmsetBody_def andThen_def bnd_def txn_simps)

end

end
