(* ===== verification/Lists.thy ===== *)
theory Lists
  imports Hashes
begin

text \<open>
  The list commands: \<^verbatim>\<open>list_types.go\<close>, \<^verbatim>\<open>lpushpop_core.go\<close>, \<^verbatim>\<open>lpush_rpop.go\<close>, \<^verbatim>\<open>lrange_lindex.go\<close>, \<^verbatim>\<open>ltrim.go\<close>,
  \<^verbatim>\<open>linsert.go\<close> and the non-blocking part of \<^verbatim>\<open>blpop.go\<close>. A list is a doubly linked chain of records: the value,
  the successor and the predecessor of every node, and three records for the length and the two ends.
  Node names come from \<^verbatim>\<open>uuid.New\<close>, a third-party package: \<open>uuid a i\<close> is the \<open>i\<close>-th name drawn by attempt \<open>a\<close> of
  a command. The commands that create nodes count their attempts in the variables of the closure.
\<close>

section \<open>Reading and writing the records\<close>

definition tryCopy :: "'t txn_ops \<Rightarrow> item \<Rightarrow> ('t, go_error + bytes) tx" where
  "tryCopy B i = (\<lambda>t. Inr (value_copy B t i, t))"

text \<open>\<^verbatim>\<open>txn.Get\<close> followed by \<^verbatim>\<open>ValueCopy\<close>, the error of either as a value.\<close>

definition tryValue :: "'t txn_ops \<Rightarrow> bytes \<Rightarrow> ('t, go_error + bytes) tx" where
  "tryValue B k = bnd (tryGet B k) (\<lambda>r. case r of Inl e \<Rightarrow> ret (Inl e) | Inr i \<Rightarrow> tryCopy B i)"

definition nodeKey :: "bytes \<Rightarrow> bytes \<Rightarrow> bytes" where
  "nodeKey key nodeID = listKey key [nodeID]"

definition nextKey :: "bytes \<Rightarrow> bytes \<Rightarrow> bytes" where
  "nextKey key nodeID = listKey key [nodeID, ''next'']"

definition prevKey :: "bytes \<Rightarrow> bytes \<Rightarrow> bytes" where
  "prevKey key nodeID = listKey key [nodeID, ''prev'']"

text \<open>The type check of the pushes and of \<^verbatim>\<open>LLEN\<close>: a missing or empty type record passes.\<close>

definition checkListType :: "'t txn_ops \<Rightarrow> bytes \<Rightarrow> ('t, unit) tx" where
  "checkListType B key = bnd (lookupValue B (TypeOfKeyGet key)) (\<lambda>r. case r of
      None \<Rightarrow> ret ()
    | Some keyType \<Rightarrow> if keyType \<noteq> [] \<and> keyType \<noteq> KeyTypeList then fail ErrWrongType else ret ())"

type_synonym list_meta = "u64 \<times> bytes \<times> bytes"

text \<open>An end of the list: a missing record reads as the empty name.\<close>

definition metaEnd :: "'t txn_ops \<Rightarrow> bytes \<Rightarrow> bytes \<Rightarrow> ('t, go_error + bytes) tx" where
  "metaEnd B key part = bnd (tryGet B (listKey key [part])) (\<lambda>r. case r of
      Inl e \<Rightarrow> ret (if errors_is e ErrKeyNotFound then Inr [] else Inl e)
    | Inr i \<Rightarrow> tryCopy B i)"

text \<open>The named results of \<^verbatim>\<open>listGetMetaTxn\<close>: what was read before an error is returned along with it.\<close>

definition listGetMetaTxn :: "'t txn_ops \<Rightarrow> bytes \<Rightarrow> ('t, list_meta \<times> go_error option) tx" where
  "listGetMetaTxn B key = bnd (tryGet B (listKey key [''length''])) (\<lambda>r. case r of
      Inl e \<Rightarrow> ret ((0, [], []), if errors_is e ErrKeyNotFound then None else Some e)
    | Inr i \<Rightarrow> bnd (tryCopy B i) (\<lambda>v. case v of
        Inl e \<Rightarrow> ret ((0, [], []), Some e)
      | Inr lengthVal \<Rightarrow> bnd (metaEnd B key ''start'') (\<lambda>s. case s of
          Inl e \<Rightarrow> ret ((BytesToUint64 lengthVal, [], []), Some e)
        | Inr start \<Rightarrow> bnd (metaEnd B key ''end'') (\<lambda>n. case n of
            Inl e \<Rightarrow> ret ((BytesToUint64 lengthVal, start, []), Some e)
          | Inr fin \<Rightarrow> ret ((BytesToUint64 lengthVal, start, fin), None)))))"

text \<open>The usual call: an error is returned.\<close>

definition getMeta :: "'t txn_ops \<Rightarrow> bytes \<Rightarrow> ('t, list_meta) tx" where
  "getMeta B key = bnd (listGetMetaTxn B key) (\<lambda>(m, err). case err of None \<Rightarrow> ret m | Some e \<Rightarrow> fail e)"

definition listUpdateMeta :: "'t txn_ops \<Rightarrow> bytes \<Rightarrow> u64 \<Rightarrow> bytes \<Rightarrow> bytes \<Rightarrow> ('t, unit) tx" where
  "listUpdateMeta B key len start fin =
     andThen (Set B (listKey key [''length'']) (Uint64ToBytes len))
      (andThen (Set B (listKey key [''start'']) start)
        (Set B (listKey key [''end'']) fin))"

definition createNode :: "'t txn_ops \<Rightarrow> bytes \<Rightarrow> bytes \<Rightarrow> bytes \<Rightarrow> ('t, bytes) tx" where
  "createNode B nodeID key val = andThen (Set B (nodeKey key nodeID) val) (ret nodeID)"

definition linkNodes :: "'t txn_ops \<Rightarrow> bytes \<Rightarrow> bytes \<Rightarrow> bytes \<Rightarrow> ('t, unit) tx" where
  "linkNodes B key prevID nextID =
     andThen (if prevID \<noteq> [] then Set B (nextKey key prevID) nextID else ret ())
       (if nextID \<noteq> [] then Set B (prevKey key nextID) prevID else ret ())"

text \<open>\<^verbatim>\<open>txn.Delete\<close> with \<^verbatim>\<open>ErrKeyNotFound\<close> ignored.\<close>

definition deleteQuiet :: "'t txn_ops \<Rightarrow> bytes \<Rightarrow> ('t, unit) tx" where
  "deleteQuiet B k = (\<lambda>t. case Delete B k t of
      Inl e \<Rightarrow> if errors_is e ErrKeyNotFound then Inr ((), t) else Inl e
    | Inr r \<Rightarrow> Inr r)"

definition deleteNode :: "'t txn_ops \<Rightarrow> bytes \<Rightarrow> bytes \<Rightarrow> ('t, unit) tx" where
  "deleteNode B key nodeID =
     forEach (\<lambda>suffix. deleteQuiet B (listKey key [nodeID, suffix])) ['''', ''prev'', ''next'']"

section \<open>Pushes\<close>

text \<open>The loop that \<^verbatim>\<open>LPush\<close>, \<^verbatim>\<open>RPush\<close> and \<^verbatim>\<open>listPushXInTxn\<close> share; \<open>i\<close> nodes were created before.\<close>

fun pushLoop ::
  "'t txn_ops \<Rightarrow> (nat \<Rightarrow> bytes) \<Rightarrow> bytes \<Rightarrow> bool \<Rightarrow> nat \<Rightarrow> bytes list \<Rightarrow> list_meta \<Rightarrow> ('t, list_meta) tx" where
  "pushLoop B ids key toLeft i [] lm = ret lm"
| "pushLoop B ids key toLeft i (val # vals) (len, start, fin) =
     bnd (createNode B (ids i) key val) (\<lambda>nodeID.
       if len = 0 then
         andThen (linkNodes B key nodeID nodeID)
           (pushLoop B ids key toLeft (Suc i) vals (len + 1, nodeID, nodeID))
       else if toLeft then
         andThen (linkNodes B key nodeID start)
           (andThen (Set B (prevKey key start) nodeID)
             (pushLoop B ids key toLeft (Suc i) vals (len + 1, nodeID, fin)))
       else
         andThen (linkNodes B key fin nodeID)
           (andThen (Set B (nextKey key fin) nodeID)
             (pushLoop B ids key toLeft (Suc i) vals (len + 1, start, nodeID))))"

definition pushBody ::
  "(nat \<Rightarrow> nat \<Rightarrow> bytes) \<Rightarrow> 't txn_ops \<Rightarrow> bytes \<Rightarrow> bool \<Rightarrow> bytes list \<Rightarrow> ('t, u64 \<times> nat) body" where
  "pushBody uuid B key toLeft vals c =
     andThen (checkListType B key)
      (andThen (Set B (TypeOfKeyGet key) KeyTypeList)
        (bnd (getMeta B key) (\<lambda>lm.
          bnd (pushLoop B (uuid (snd c)) key toLeft 0 vals lm) (\<lambda>(len, start, fin).
            andThen (listUpdateMeta B key len start fin) (ret (len, Suc (snd c)))))))"

text \<open>The first value is handed to \<^verbatim>\<open>notifyBlockingPop\<close> whether or not the write succeeded.\<close>

definition LPush ::
  "(nat \<Rightarrow> nat \<Rightarrow> bytes) \<Rightarrow> run_env \<Rightarrow> 't txn_ops \<Rightarrow> ('d, 't) db_ops \<Rightarrow> bytes \<Rightarrow> bytes list \<Rightarrow> 'd store
   \<Rightarrow> (go_error + unit) \<times> int \<times> 'd store" where
  "LPush uuid E B D key vals st =
     (case retryUpdate E B D (pushBody uuid B key True vals) 30 [encodePropagateStringArgs ''LPUSH'' (key # vals)] (0, 0) st
      of (r, (finalLength, n), st') \<Rightarrow> (r, sint finalLength, st'))"

definition RPush ::
  "(nat \<Rightarrow> nat \<Rightarrow> bytes) \<Rightarrow> run_env \<Rightarrow> 't txn_ops \<Rightarrow> ('d, 't) db_ops \<Rightarrow> bytes \<Rightarrow> bytes list \<Rightarrow> 'd store
   \<Rightarrow> (go_error + unit) \<times> int \<times> 'd store" where
  "RPush uuid E B D key vals st =
     (case retryUpdate E B D (pushBody uuid B key False vals) 30 [encodePropagateStringArgs ''RPUSH'' (key # vals)] (0, 0) st
      of (r, (finalLength, n), st') \<Rightarrow> (r, sint finalLength, st'))"

definition listPushXInTxn ::
  "(nat \<Rightarrow> bytes) \<Rightarrow> 't txn_ops \<Rightarrow> bytes \<Rightarrow> bytes list \<Rightarrow> bool \<Rightarrow> ('t, u64) tx" where
  "listPushXInTxn ids B key vals toLeft = bnd (lookupValue B (TypeOfKeyGet key)) (\<lambda>r. case r of
      None \<Rightarrow> ret 0
    | Some v \<Rightarrow>
        if v \<noteq> KeyTypeList then fail ErrWrongType
        else bnd (getMeta B key) (\<lambda>lm.
               bnd (pushLoop B ids key toLeft 0 vals lm) (\<lambda>(len, start, fin).
                 andThen (listUpdateMeta B key len start fin) (ret len))))"

definition pushXBody ::
  "(nat \<Rightarrow> nat \<Rightarrow> bytes) \<Rightarrow> 't txn_ops \<Rightarrow> bytes \<Rightarrow> bool \<Rightarrow> bytes list \<Rightarrow> ('t, u64 \<times> nat) body" where
  "pushXBody uuid B key toLeft vals c =
     bnd (listPushXInTxn (uuid (snd c)) B key vals toLeft) (\<lambda>len. ret (len, Suc (snd c)))"

definition LPUSHX ::
  "(nat \<Rightarrow> nat \<Rightarrow> bytes) \<Rightarrow> run_env \<Rightarrow> 't txn_ops \<Rightarrow> ('d, 't) db_ops \<Rightarrow> bytes \<Rightarrow> bytes list \<Rightarrow> 'd store
   \<Rightarrow> (go_error + unit) \<times> int \<times> 'd store" where
  "LPUSHX uuid E B D key vals st =
     (case retryUpdate E B D (pushXBody uuid B key True vals) 30 [encodePropagateStringArgs ''LPUSHX'' (key # vals)] (0, 0) st
      of (r, (finalLength, n), st') \<Rightarrow> (r, sint finalLength, st'))"

definition RPUSHX ::
  "(nat \<Rightarrow> nat \<Rightarrow> bytes) \<Rightarrow> run_env \<Rightarrow> 't txn_ops \<Rightarrow> ('d, 't) db_ops \<Rightarrow> bytes \<Rightarrow> bytes list \<Rightarrow> 'd store
   \<Rightarrow> (go_error + unit) \<times> int \<times> 'd store" where
  "RPUSHX uuid E B D key vals st =
     (case retryUpdate E B D (pushXBody uuid B key False vals) 30 [encodePropagateStringArgs ''RPUSHX'' (key # vals)] (0, 0) st
      of (r, (finalLength, n), st') \<Rightarrow> (r, sint finalLength, st'))"

definition listPushInTxn ::
  "bytes \<Rightarrow> 't txn_ops \<Rightarrow> bytes \<Rightarrow> bytes \<Rightarrow> bool \<Rightarrow> ('t, unit) tx" where
  "listPushInTxn newID B key val toLeft =
     andThen (checkListType B key)
      (andThen (Set B (TypeOfKeyGet key) KeyTypeList)
        (bnd (getMeta B key) (\<lambda>(len, start, fin).
          bnd (createNode B newID key val) (\<lambda>newNodeID.
            if len = 0 then
              andThen (linkNodes B key newNodeID newNodeID) (listUpdateMeta B key 1 newNodeID newNodeID)
            else if toLeft then
              andThen (linkNodes B key newNodeID start)
                (andThen (Set B (prevKey key start) newNodeID)
                  (listUpdateMeta B key (len + 1) newNodeID fin))
            else
              andThen (linkNodes B key fin newNodeID)
                (andThen (Set B (nextKey key fin) newNodeID)
                  (listUpdateMeta B key (len + 1) start newNodeID))))))"

section \<open>Pops\<close>

definition RPopNode :: "'t txn_ops \<Rightarrow> bytes \<Rightarrow> list_meta \<Rightarrow> ('t, bytes) tx" where
  "RPopNode B key = (\<lambda>(len, start, fin).
     bnd (getValue B (nodeKey key fin)) (\<lambda>val.
     bnd (if len > 1 then getValue B (prevKey key fin) else ret []) (\<lambda>newEnd.
     let start' = (if len > 1 then start else [])
     in andThen (if len > 1 then linkNodes B key newEnd start' else ret ())
         (andThen (Delete B (nodeKey key fin))
         (andThen (Delete B (prevKey key fin))
         (andThen (Delete B (nextKey key fin))
         (andThen (listUpdateMeta B key (len - 1) start' newEnd) (ret val))))))))"

definition LPopNode :: "'t txn_ops \<Rightarrow> bytes \<Rightarrow> list_meta \<Rightarrow> ('t, bytes) tx" where
  "LPopNode B key = (\<lambda>(len, start, fin).
     bnd (getValue B (nodeKey key start)) (\<lambda>val.
     bnd (if len > 1 then getValue B (nextKey key start) else ret []) (\<lambda>newStart.
     let fin' = (if len > 1 then fin else [])
     in andThen (if len > 1 then linkNodes B key fin' newStart else ret ())
         (andThen (Delete B (nodeKey key start))
         (andThen (Delete B (prevKey key start))
         (andThen (Delete B (nextKey key start))
         (andThen (listUpdateMeta B key (len - 1) newStart fin') (ret val))))))))"

text \<open>An error while reading the length ends the transaction without an error; the captured \<^verbatim>\<open>value\<close> is not
  reset.\<close>

definition popBody :: "(list_meta \<Rightarrow> ('t, bytes) tx) \<Rightarrow> 't txn_ops \<Rightarrow> bytes \<Rightarrow> ('t, bytes) body" where
  "popBody node B key c = bnd (listGetMetaTxn B key) (\<lambda>((len, start, fin), err).
     case err of
       Some e \<Rightarrow> if len = 0 then ret c else fail e
     | None \<Rightarrow> if len = 0 then ret c else node (len, start, fin))"

definition RPop ::
  "run_env \<Rightarrow> 't txn_ops \<Rightarrow> ('d, 't) db_ops \<Rightarrow> bytes \<Rightarrow> 'd store \<Rightarrow> (go_error + unit) \<times> bytes \<times> 'd store" where
  "RPop E B D key st =
     (case checkTypeBeforeOp B D key KeyTypeList st of
        Inl e \<Rightarrow> (Inl e, [], st)
      | Inr u \<Rightarrow> retryUpdate E B D (popBody (RPopNode B key) B key) 30 [encodePropagateCommand [''RPOP'', key]] [] st)"

definition LPop ::
  "run_env \<Rightarrow> 't txn_ops \<Rightarrow> ('d, 't) db_ops \<Rightarrow> bytes \<Rightarrow> 'd store \<Rightarrow> (go_error + unit) \<times> bytes \<times> 'd store" where
  "LPop E B D key st =
     (case checkTypeBeforeOp B D key KeyTypeList st of
        Inl e \<Rightarrow> (Inl e, [], st)
      | Inr u \<Rightarrow> retryUpdate E B D (popBody (LPopNode B key) B key) 30 [encodePropagateCommand [''LPOP'', key]] [] st)"

definition listPopInTxn :: "'t txn_ops \<Rightarrow> bytes \<Rightarrow> bool \<Rightarrow> ('t, bytes) tx" where
  "listPopInTxn B key fromLeft = bnd (listGetMetaTxn B key) (\<lambda>((len, start, fin), err).
     if err \<noteq> None \<or> len = 0 then ret []
     else let nodeID = (if fromLeft then start else fin)
          in bnd (if len > 1 then getValue B ((if fromLeft then nextKey else prevKey) key nodeID) else ret []) (\<lambda>neighborID.
             bnd (getValue B (nodeKey key nodeID)) (\<lambda>val.
             bnd (if len > 1 then
                    (if fromLeft then andThen (linkNodes B key fin neighborID) (ret (neighborID, fin))
                     else andThen (linkNodes B key neighborID start) (ret (start, neighborID)))
                  else ret ([], [])) (\<lambda>(start', fin').
             andThen (deleteNode B key nodeID)
               (andThen (listUpdateMeta B key (len - 1) start' fin') (ret val))))))"

text \<open>\<^verbatim>\<open>RPOPLPUSH\<close> and \<^verbatim>\<open>LMOVE\<close>: the empty string stands for nothing popped.\<close>

definition moveTx :: "bytes \<Rightarrow> 't txn_ops \<Rightarrow> bytes \<Rightarrow> bytes \<Rightarrow> bool \<Rightarrow> bool \<Rightarrow> ('t, bytes) tx" where
  "moveTx newID B source destination fromLeft toLeft =
     bnd (listPopInTxn B source fromLeft) (\<lambda>popped.
       if popped = [] then ret []
       else andThen (listPushInTxn newID B destination popped toLeft) (ret popped))"

definition rpoplpushBody ::
  "(nat \<Rightarrow> nat \<Rightarrow> bytes) \<Rightarrow> 't txn_ops \<Rightarrow> bytes \<Rightarrow> bytes \<Rightarrow> ('t, bytes \<times> nat) body" where
  "rpoplpushBody uuid B source destination c =
     bnd (moveTx (uuid (snd c) 0) B source destination False True) (\<lambda>val. ret (val, Suc (snd c)))"

definition RPopLPush ::
  "(nat \<Rightarrow> nat \<Rightarrow> bytes) \<Rightarrow> run_env \<Rightarrow> 't txn_ops \<Rightarrow> ('d, 't) db_ops \<Rightarrow> bytes \<Rightarrow> bytes \<Rightarrow> 'd store
   \<Rightarrow> (go_error + unit) \<times> bytes \<times> 'd store" where
  "RPopLPush uuid E B D source destination st =
     (case retryUpdate E B D (rpoplpushBody uuid B source destination) 30
             [encodePropagateCommand [''RPOPLPUSH'', source, destination]] ([], 0) st
      of (r, (val, n), st') \<Rightarrow> (r, val, st'))"

definition lmoveBody ::
  "(nat \<Rightarrow> nat \<Rightarrow> bytes) \<Rightarrow> 't txn_ops \<Rightarrow> bytes \<Rightarrow> bytes \<Rightarrow> bool \<Rightarrow> bool \<Rightarrow> ('t, bytes \<times> nat) body" where
  "lmoveBody uuid B source destination fromLeft toLeft c =
     andThen (checkKeyType B source KeyTypeList)
       (bnd (moveTx (uuid (snd c) 0) B source destination fromLeft toLeft) (\<lambda>val. ret (val, Suc (snd c))))"

definition direction :: "bytes \<Rightarrow> bytes \<Rightarrow> go_error + bool" where
  "direction what dir =
     (if dir = ''LEFT'' then Inr True else if dir = ''RIGHT'' then Inr False
      else Inl (Errorf (''ERR wrong '' @ what @ '' direction argument'')))"

definition LMove ::
  "(nat \<Rightarrow> nat \<Rightarrow> bytes) \<Rightarrow> run_env \<Rightarrow> 't txn_ops \<Rightarrow> ('d, 't) db_ops \<Rightarrow> bytes \<Rightarrow> bytes \<Rightarrow> bytes \<Rightarrow> bytes \<Rightarrow> 'd store
   \<Rightarrow> (go_error + unit) \<times> bytes \<times> 'd store" where
  "LMove uuid E B D source destination srcDir dstDir st =
     (case direction ''source'' srcDir of
        Inl e \<Rightarrow> (Inl e, [], st)
      | Inr fromLeft \<Rightarrow> (case direction ''destination'' dstDir of
          Inl e \<Rightarrow> (Inl e, [], st)
        | Inr toLeft \<Rightarrow>
            (case retryUpdate E B D (lmoveBody uuid B source destination fromLeft toLeft) 30
                    [encodePropagateCommand [''LMOVE'', source, destination, srcDir, dstDir]] ([], 0) st
             of (r, (val, n), st') \<Rightarrow> (r, val, st'))))"

text \<open>\<^verbatim>\<open>LMPOP\<close>: \<open>start0\<close> and \<open>fin0\<close> are the ends before the first pop.\<close>

fun lmpopLoop ::
  "'t txn_ops \<Rightarrow> bytes \<Rightarrow> bool \<Rightarrow> bytes \<Rightarrow> bytes \<Rightarrow> nat \<Rightarrow> list_meta \<Rightarrow> ('t, list_meta \<times> bytes list) tx" where
  "lmpopLoop B key left start0 fin0 0 lm = ret (lm, [])"
| "lmpopLoop B key left start0 fin0 (Suc n) (len, start, fin) =
     (if len = 0 then ret ((len, start, fin), [])
      else let nodeID = (if left then start else fin)
           in bnd (if len > 1 then getValue B ((if left then nextKey else prevKey) key nodeID) else ret []) (\<lambda>nextNodeID.
              bnd (getValue B (nodeKey key nodeID)) (\<lambda>val.
              andThen (deleteNode B key nodeID)
              (andThen (if len > 1 then (if left then linkNodes B key fin0 nextNodeID
                                         else linkNodes B key nextNodeID start0) else ret ())
              (bnd (lmpopLoop B key left start0 fin0 n
                      (if len > 1 then (if left then (len - 1, nextNodeID, fin) else (len - 1, start, nextNodeID))
                       else (len - 1, [], [])))
                 (\<lambda>(lm, vals). ret (lm, val # vals)))))))"

definition lmpopBody :: "'t txn_ops \<Rightarrow> bytes \<Rightarrow> bytes \<Rightarrow> int \<Rightarrow> ('t, bytes list) body" where
  "lmpopBody B key modifier cnt c = bnd (listGetMetaTxn B key) (\<lambda>((len, start, fin), err).
     case err of
       Some e \<Rightarrow> if len = 0 then ret c else fail e
     | None \<Rightarrow>
         if len = 0 then ret c
         else bnd (lmpopLoop B key (modifier = ''LEFT'') start fin (nat cnt) (len, start, fin)) (\<lambda>((len', start', fin'), vals).
                andThen (listUpdateMeta B key len' start' fin') (ret vals)))"

definition lmpopLog :: "bytes list \<Rightarrow> bytes \<Rightarrow> int \<Rightarrow> bytes" where
  "lmpopLog keys modifier cnt =
     encodePropagateCommand ([''LMPOP'', itoa (int (length keys))] @ keys @ [modifier, ''COUNT'', itoa cnt])"

fun lmpopKeys ::
  "run_env \<Rightarrow> 't txn_ops \<Rightarrow> ('d, 't) db_ops \<Rightarrow> bytes \<Rightarrow> bytes \<Rightarrow> int \<Rightarrow> bytes list \<Rightarrow> 'd store
   \<Rightarrow> (go_error + bytes \<times> bytes list) \<times> 'd store" where
  "lmpopKeys E B D lv modifier cnt [] st = (Inr ([], []), st)"
| "lmpopKeys E B D lv modifier cnt (key # keys) st =
     (case checkTypeBeforeOp B D key KeyTypeList st of
        Inl e \<Rightarrow> (Inl e, st)
      | Inr u \<Rightarrow>
          (case retryUpdate E B D (lmpopBody B key modifier cnt) 30 [lv] [] st of
             (Inl e, results, st') \<Rightarrow> (Inl e, st')
           | (Inr u, results, st') \<Rightarrow>
               if results \<noteq> [] then (Inr (key, results), st') else lmpopKeys E B D lv modifier cnt keys st'))"

definition LMPop ::
  "run_env \<Rightarrow> 't txn_ops \<Rightarrow> ('d, 't) db_ops \<Rightarrow> bytes list \<Rightarrow> bytes \<Rightarrow> int \<Rightarrow> 'd store
   \<Rightarrow> (go_error + bytes \<times> bytes list) \<times> 'd store" where
  "LMPop E B D keys modifier cnt st = lmpopKeys E B D (lmpopLog keys modifier cnt) modifier cnt keys st"

section \<open>Reading a list\<close>

definition LLen :: "'t txn_ops \<Rightarrow> ('d, 't) db_ops \<Rightarrow> bytes \<Rightarrow> 'd store \<Rightarrow> go_error + u64" where
  "LLen B D key st = View D (andThen (checkListType B key)
     (bnd (lookupValue B (listKey key [''length''])) (\<lambda>r. case r of
        None \<Rightarrow> ret 0 | Some lengthVal \<Rightarrow> ret (BytesToUint64 lengthVal)))) st"

text \<open>\<open>n\<close> steps along the links read with \<open>stepKey\<close>; \<open>None\<close> when a node comes up again.\<close>

fun walk :: "'t txn_ops \<Rightarrow> (bytes \<Rightarrow> bytes) \<Rightarrow> nat \<Rightarrow> bytes list \<Rightarrow> bytes \<Rightarrow> ('t, bytes option) tx" where
  "walk B stepKey 0 visited cur = ret (Some cur)"
| "walk B stepKey (Suc n) visited cur =
     (if cur \<in> set visited then ret None
      else bnd (getValue B (stepKey cur)) (walk B stepKey n (cur # visited)))"

text \<open>The values of \<open>n\<close> nodes along the links.\<close>

fun walkValues ::
  "'t txn_ops \<Rightarrow> bytes \<Rightarrow> (bytes \<Rightarrow> bytes) \<Rightarrow> nat \<Rightarrow> bytes list \<Rightarrow> bytes \<Rightarrow> ('t, bytes list) tx" where
  "walkValues B key stepKey 0 visited cur = ret []"
| "walkValues B key stepKey (Suc n) visited cur =
     (if cur \<in> set visited then ret []
      else bnd (getValue B (nodeKey key cur)) (\<lambda>val.
             if n > 0 then bnd (getValue B (stepKey cur)) (\<lambda>nxt.
               bnd (walkValues B key stepKey n (cur # visited) nxt) (\<lambda>vals. ret (val # vals)))
             else ret [val]))"

text \<open>Go's division by two truncates towards zero.\<close>

definition half :: "int \<Rightarrow> int" where
  "half x = (if x < 0 then - ((- x) div 2) else x div 2)"

definition getNodeByIndexWithMeta :: "'t txn_ops \<Rightarrow> bytes \<Rightarrow> int \<Rightarrow> u64 \<Rightarrow> bytes \<Rightarrow> ('t, bytes \<times> bytes) tx" where
  "getNodeByIndexWithMeta B key index len start =
     (if len = 0 then ret ([], [])
      else let idx = (if index < 0 then i64 (sint len + index) else index)
           in if idx < 0 \<or> sint len \<le> idx then ret ([], [])
              else bnd (if idx < half (sint len) then walk B (nextKey key) (nat idx) [] start
                        else bnd (getMeta B key) (\<lambda>(_, _, fin).
                               walk B (prevKey key) (nat (sint len - 1 - idx)) [] fin)) (\<lambda>r. case r of
                     None \<Rightarrow> ret ([], [])
                   | Some nodeID \<Rightarrow> bnd (getValue B (nodeKey key nodeID)) (\<lambda>val. ret (nodeID, val))))"

definition getNodeByIndex :: "'t txn_ops \<Rightarrow> bytes \<Rightarrow> int \<Rightarrow> ('t, bytes \<times> bytes) tx" where
  "getNodeByIndex B key index =
     bnd (getMeta B key) (\<lambda>(len, start, fin). getNodeByIndexWithMeta B key index len start)"

definition LIndex :: "'t txn_ops \<Rightarrow> ('d, 't) db_ops \<Rightarrow> bytes \<Rightarrow> int \<Rightarrow> 'd store \<Rightarrow> go_error + bytes" where
  "LIndex B D key index st = View D (andThen (checkKeyType B key KeyTypeList)
     (bnd (getNodeByIndex B key index) (\<lambda>(nodeID, val). ret val))) st"

definition lsetBody :: "'t txn_ops \<Rightarrow> bytes \<Rightarrow> int \<Rightarrow> bytes \<Rightarrow> ('t, unit) body" where
  "lsetBody B key index val c = bnd (getNodeByIndex B key index) (\<lambda>(nodeID, old).
     if nodeID = [] then fail (Errorf ''index out of range'')
     else Set B (nodeKey key nodeID) val)"

definition LSet ::
  "run_env \<Rightarrow> 't txn_ops \<Rightarrow> ('d, 't) db_ops \<Rightarrow> bytes \<Rightarrow> int \<Rightarrow> bytes \<Rightarrow> 'd store \<Rightarrow> (go_error + unit) \<times> 'd store" where
  "LSet E B D key index val st =
     (case retryUpdate E B D (lsetBody B key index val) 30 [encodePropagateCommand [''LSET'', key, itoa index, val]] () st
      of (r, c, st') \<Rightarrow> (r, st'))"

definition lRangeForward :: "'t txn_ops \<Rightarrow> bytes \<Rightarrow> int \<Rightarrow> int \<Rightarrow> bytes \<Rightarrow> ('t, bytes list) tx" where
  "lRangeForward B key start stop startID =
     bnd (walk B (nextKey key) (nat start) [] startID) (\<lambda>r. case r of
       None \<Rightarrow> ret []
     | Some cur \<Rightarrow> walkValues B key (nextKey key) (nat (stop - start + 1)) [] cur)"

definition lRangeReverse :: "'t txn_ops \<Rightarrow> bytes \<Rightarrow> int \<Rightarrow> int \<Rightarrow> u64 \<Rightarrow> bytes \<Rightarrow> ('t, bytes list) tx" where
  "lRangeReverse B key stop cnt len endID =
     bnd (walk B (prevKey key) (nat (sint (len - 1) - stop)) [] endID) (\<lambda>r. case r of
       None \<Rightarrow> ret []
     | Some cur \<Rightarrow> bnd (walkValues B key (prevKey key) (nat cnt) [] cur) (\<lambda>tmp. ret (rev tmp)))"

text \<open>The bounds that \<^verbatim>\<open>LRANGE\<close> and \<^verbatim>\<open>LTRIM\<close> compute.\<close>

definition clampRange :: "u64 \<Rightarrow> int \<Rightarrow> int \<Rightarrow> int \<times> int" where
  "clampRange len start stop =
     (let s1 = (if start < 0 then i64 (sint len + start) else start);
          p1 = (if stop < 0 then i64 (sint len + stop) else stop);
          s2 = (if s1 < 0 then 0 else s1);
          p2 = (if sint len \<le> p1 then sint len - 1 else p1)
      in (s2, p2))"

definition LRange ::
  "'t txn_ops \<Rightarrow> ('d, 't) db_ops \<Rightarrow> bytes \<Rightarrow> int \<Rightarrow> int \<Rightarrow> 'd store \<Rightarrow> go_error + bytes list" where
  "LRange B D key start stop st = View D (andThen (checkKeyType B key KeyTypeList)
     (bnd (listGetMetaTxn B key) (\<lambda>((len, startID, _), err).
        if err \<noteq> None \<or> len = 0 then ret []
        else case clampRange len start stop of (s, p) \<Rightarrow>
          if s > p then ret []
          else if p > half (sint len)
          then bnd (getMeta B key) (\<lambda>(_, _, endID). lRangeReverse B key p (p - s + 1) len endID)
          else lRangeForward B key s p startID))) st"

text \<open>\<^verbatim>\<open>LPOS\<close>: errors of the engine end the search.\<close>

fun lposSeek :: "'t txn_ops \<Rightarrow> bytes \<Rightarrow> nat \<Rightarrow> bytes list \<Rightarrow> bytes \<Rightarrow> ('t, bytes option) tx" where
  "lposSeek B key 0 visited cur = ret (Some cur)"
| "lposSeek B key (Suc n) visited cur =
     (if cur \<in> set visited then ret None
      else bnd (tryValue B (nextKey key cur)) (\<lambda>r. case r of
             Inl e \<Rightarrow> ret None
           | Inr nxt \<Rightarrow> lposSeek B key n (cur # visited) nxt))"

text \<open>\<open>n\<close> is the number of positions left before \<^verbatim>\<open>scanLen\<close>.\<close>

fun lposLoop ::
  "'t txn_ops \<Rightarrow> bytes \<Rightarrow> bytes \<Rightarrow> int \<Rightarrow> int \<Rightarrow> nat \<Rightarrow> int \<Rightarrow> bytes list \<Rightarrow> bytes \<Rightarrow> int \<Rightarrow> int \<Rightarrow> ('t, int list) tx" where
  "lposLoop B key element rank cnt 0 idx visited cur matches found = ret []"
| "lposLoop B key element rank cnt (Suc n) idx visited cur matches found =
     (if cur \<in> set visited then ret []
      else bnd (tryValue B (nodeKey key cur)) (\<lambda>r. case r of
        Inl e \<Rightarrow> ret []
      | Inr val \<Rightarrow>
          let matches' = (if val = element then matches + 1 else matches);
              hit = (val = element \<and> \<not> (rank > 0 \<and> matches' < rank) \<and> \<not> (rank < 0 \<and> matches' < i64 (- rank)));
              found' = (if hit then found + 1 else found);
              here = (if hit then [idx] else [])
          in if hit \<and> ((cnt = 0 \<and> rank = 0) \<or> (cnt > 0 \<and> cnt \<le> found')) then ret here
             else if n = 0 then ret here
             else bnd (tryValue B (nextKey key cur)) (\<lambda>x. case x of
                    Inl e \<Rightarrow> ret here
                  | Inr nxt \<Rightarrow> bnd (lposLoop B key element rank cnt n (idx + 1) (cur # visited) nxt matches' found')
                                (\<lambda>rest. ret (here @ rest)))))"

definition LPos ::
  "'t txn_ops \<Rightarrow> ('d, 't) db_ops \<Rightarrow> bytes \<Rightarrow> bytes \<Rightarrow> int \<Rightarrow> int \<Rightarrow> int \<Rightarrow> 'd store \<Rightarrow> go_error + int list" where
  "LPos B D key element rank cnt maxlen st = View D
     (bnd (listGetMetaTxn B key) (\<lambda>((len, startID, _), err).
        if err \<noteq> None \<or> len = 0 then ret []
        else let scanLen = (if maxlen > 0 \<and> maxlen < sint len then maxlen else sint len);
                 startIdx = (if rank < 0 then max 0 (i64 (sint len + rank)) else 0)
             in bnd (lposSeek B key (nat startIdx) [] startID) (\<lambda>r. case r of
                  None \<Rightarrow> ret []
                | Some cur \<Rightarrow> lposLoop B key element rank cnt (nat (scanLen - startIdx)) startIdx [] cur 0 0))) st"

section \<open>LTRIM, LINSERT, LREM\<close>

text \<open>
  \<^verbatim>\<open>deleteList\<close> and the last loop of \<^verbatim>\<open>LTRIM\<close> follow links until a break. They read the successor of a node
  after \<^verbatim>\<open>deleteNode\<close> removed it, so on an engine that reads its own writes they stop in the second round at
  the latest; \<open>fuel\<close> bounds the rounds, and running out is the error \<open>outOfFuel\<close>.
\<close>

abbreviation outOfFuel :: go_error where "outOfFuel \<equiv> Errorf ''out of fuel''"

fun deleteChain :: "'t txn_ops \<Rightarrow> bytes \<Rightarrow> bytes \<Rightarrow> nat \<Rightarrow> bytes list \<Rightarrow> bytes \<Rightarrow> ('t, unit) tx" where
  "deleteChain B key start 0 visited cur = fail outOfFuel"
| "deleteChain B key start (Suc fuel) visited cur =
     (if cur \<in> set visited then ret ()
      else andThen (deleteNode B key cur) (bnd (tryGet B (nextKey key cur)) (\<lambda>r. case r of
             Inl e \<Rightarrow> ret ()
           | Inr i \<Rightarrow> bnd (ValueCopy B i) (\<lambda>nextVal.
               if nextVal = start then ret () else deleteChain B key start fuel (cur # visited) nextVal))))"

definition deleteList :: "'t txn_ops \<Rightarrow> bytes \<Rightarrow> ('t, unit) tx" where
  "deleteList B key = bnd (getMeta B key) (\<lambda>(len, start, fin).
     andThen (if start \<noteq> [] then deleteChain B key start 2 [] start else ret ())
      (andThen (forEach (\<lambda>metaKey. deleteQuiet B (listKey key [metaKey])) [''length'', ''start'', ''end''])
        (Delete B (TypeOfKeyGet key))))"

text \<open>The first loop of \<^verbatim>\<open>LTRIM\<close> deletes the nodes it leaves behind; it returns the nodes visited.\<close>

fun trimHead :: "'t txn_ops \<Rightarrow> bytes \<Rightarrow> nat \<Rightarrow> bytes list \<Rightarrow> bytes \<Rightarrow> ('t, (bytes \<times> bytes list) option) tx" where
  "trimHead B key 0 visited cur = ret (Some (cur, visited))"
| "trimHead B key (Suc n) visited cur =
     (if cur \<in> set visited then ret None
      else bnd (getValue B (nextKey key cur)) (\<lambda>nextVal.
             andThen (deleteNode B key cur) (trimHead B key n (cur # visited) nextVal)))"

fun trimTail :: "'t txn_ops \<Rightarrow> bytes \<Rightarrow> bytes \<Rightarrow> nat \<Rightarrow> bytes list \<Rightarrow> bytes \<Rightarrow> ('t, unit) tx" where
  "trimTail B key newStartID 0 visited cur = fail outOfFuel"
| "trimTail B key newStartID (Suc fuel) visited cur =
     bnd (tryGet B (nextKey key cur)) (\<lambda>r. case r of
       Inl e \<Rightarrow> ret ()
     | Inr i \<Rightarrow> bnd (ValueCopy B i) (\<lambda>nextID.
         if nextID = newStartID \<or> nextID \<in> set visited then ret ()
         else andThen (deleteNode B key nextID) (trimTail B key newStartID fuel (nextID # visited) nextID)))"

text \<open>The closure assigns to the parameters \<^verbatim>\<open>start\<close> and \<^verbatim>\<open>stop\<close>, which are its captured variables.\<close>

definition ltrimBody :: "'t txn_ops \<Rightarrow> bytes \<Rightarrow> ('t, int \<times> int) body" where
  "ltrimBody B key c = bnd (listGetMetaTxn B key) (\<lambda>((len, startID, _), err).
     if err \<noteq> None \<or> len = 0 then ret c
     else case clampRange len (fst c) (snd c) of (start, stop) \<Rightarrow>
       if start > stop then andThen (deleteList B key) (ret (start, stop))
       else bnd (trimHead B key (nat start) [] startID) (\<lambda>r. case r of
              None \<Rightarrow> ret (start, stop)
            | Some (newStartID, visited) \<Rightarrow>
                bnd (walk B (nextKey key) (nat (stop - start)) visited newStartID) (\<lambda>w. case w of
                  None \<Rightarrow> ret (start, stop)
                | Some newEndID \<Rightarrow>
                    andThen (trimTail B key newStartID 2 [newStartID, newEndID] newEndID)
                    (andThen (Set B (prevKey key newStartID) newEndID)
                    (andThen (Set B (nextKey key newEndID) newStartID)
                    (andThen (listUpdateMeta B key (word_of_int (stop - start + 1)) newStartID newEndID)
                      (ret (start, stop))))))))"

definition LTrim ::
  "run_env \<Rightarrow> 't txn_ops \<Rightarrow> ('d, 't) db_ops \<Rightarrow> bytes \<Rightarrow> int \<Rightarrow> int \<Rightarrow> 'd store \<Rightarrow> (go_error + unit) \<times> 'd store" where
  "LTrim E B D key start stop st =
     (case retryUpdate E B D (ltrimBody B key) 30 [encodePropagateCommand [''LTRIM'', key, itoa start, itoa stop]]
             (start, stop) st
      of (r, c, st') \<Rightarrow> (r, st'))"

fun findPivot :: "'t txn_ops \<Rightarrow> bytes \<Rightarrow> bytes \<Rightarrow> nat \<Rightarrow> bytes list \<Rightarrow> bytes \<Rightarrow> ('t, bytes) tx" where
  "findPivot B key pivot 0 visited cur = ret []"
| "findPivot B key pivot (Suc n) visited cur =
     (if cur \<in> set visited then ret []
      else bnd (tryGet B (nodeKey key cur)) (\<lambda>r. case r of
        Inl e \<Rightarrow> ret []
      | Inr i \<Rightarrow> bnd (ValueCopy B i) (\<lambda>val.
          if val = pivot then ret cur
          else bnd (tryGet B (nextKey key cur)) (\<lambda>x. case x of
                 Inl e \<Rightarrow> ret []
               | Inr j \<Rightarrow> bnd (ValueCopy B j) (findPivot B key pivot n (cur # visited))))))"

definition linsertBody ::
  "(nat \<Rightarrow> bytes) \<Rightarrow> 't txn_ops \<Rightarrow> bytes \<Rightarrow> bytes \<Rightarrow> bytes \<Rightarrow> bytes \<Rightarrow> ('t, int \<times> nat) body" where
  "linsertBody uuid B key wher pivot val c =
     (let a = Suc (snd c)
      in bnd (listGetMetaTxn B key) (\<lambda>((len, start, _), err).
     if err \<noteq> None \<or> len = 0 then ret (fst c, a)
     else bnd (findPivot B key pivot (unat len) [] start) (\<lambda>pivotNodeID.
       if pivotNodeID = [] then ret (- 1, a)
       else bnd (createNode B (uuid (snd c)) key val) (\<lambda>newNodeID.
         andThen
          (if wher = ''BEFORE'' then
             bnd (bnd (lookupValue B (prevKey key pivotNodeID)) (\<lambda>r. case r of
                    Some prevVal \<Rightarrow> ret prevVal
                  | None \<Rightarrow> bnd (getMeta B key) (\<lambda>(_, _, fin). ret fin))) (\<lambda>prevNodeID.
             andThen (linkNodes B key prevNodeID newNodeID)
             (andThen (linkNodes B key newNodeID pivotNodeID)
             (bnd (getMeta B key) (\<lambda>(_, _, fin).
                listUpdateMeta B key (len + 1) (if pivotNodeID = start then newNodeID else start) fin))))
           else
             bnd (getValue B (nextKey key pivotNodeID)) (\<lambda>nextNodeID.
             andThen (linkNodes B key pivotNodeID newNodeID)
             (andThen (linkNodes B key newNodeID nextNodeID)
             (bnd (getMeta B key) (\<lambda>(_, _, fin).
                listUpdateMeta B key (len + 1) start (if pivotNodeID = fin then newNodeID else fin))))))
          (ret (i64 (sint len + 1), a))))))"

definition LInsert ::
  "(nat \<Rightarrow> bytes) \<Rightarrow> run_env \<Rightarrow> 't txn_ops \<Rightarrow> ('d, 't) db_ops \<Rightarrow> bytes \<Rightarrow> bytes \<Rightarrow> bytes \<Rightarrow> bytes \<Rightarrow> 'd store
   \<Rightarrow> (go_error + unit) \<times> int \<times> 'd store" where
  "LInsert uuid E B D key wher pivot val st =
     (case retryUpdate E B D (linsertBody uuid B key wher pivot val) 30
             [encodePropagateCommand [''LINSERT'', key, wher, pivot, val]] (0, 0) st
      of (r, (newLength, n), st') \<Rightarrow> (r, newLength, st'))"

text \<open>The scans of \<^verbatim>\<open>LREM\<close>: \<open>full k\<close> tells whether \<open>k\<close> nodes are enough.\<close>

fun remScan ::
  "'t txn_ops \<Rightarrow> bytes \<Rightarrow> (bytes \<Rightarrow> bytes) \<Rightarrow> bytes \<Rightarrow> (nat \<Rightarrow> bool) \<Rightarrow> nat \<Rightarrow> bytes list \<Rightarrow> bytes \<Rightarrow> bytes list
   \<Rightarrow> ('t, bytes list) tx" where
  "remScan B key stepKey val full 0 visited cur acc = ret acc"
| "remScan B key stepKey val full (Suc n) visited cur acc =
     (if cur \<in> set visited then ret acc
      else bnd (tryGet B (nodeKey key cur)) (\<lambda>r. case r of
        Inl e \<Rightarrow> ret acc
      | Inr i \<Rightarrow> bnd (ValueCopy B i) (\<lambda>v.
          let acc' = (if v = val then acc @ [cur] else acc)
          in if v = val \<and> full (length acc') then ret acc'
             else bnd (tryGet B (stepKey cur)) (\<lambda>x. case x of
                    Inl e \<Rightarrow> ret acc'
                  | Inr j \<Rightarrow> bnd (ValueCopy B j) (\<lambda>nxt.
                      remScan B key stepKey val full n (cur # visited) nxt acc')))))"

fun remNodes :: "'t txn_ops \<Rightarrow> bytes \<Rightarrow> bytes list \<Rightarrow> bytes \<times> bytes \<Rightarrow> ('t, bytes \<times> bytes) tx" where
  "remNodes B key [] ends = ret ends"
| "remNodes B key (nodeID # nodes) (curStart, curEnd) =
     bnd (lookup B (prevKey key nodeID)) (\<lambda>prevItem.
     bnd (lookup B (nextKey key nodeID)) (\<lambda>nextItem.
     bnd (case prevItem of None \<Rightarrow> ret [] | Some i \<Rightarrow> ValueCopy B i) (\<lambda>prevID.
     bnd (case nextItem of None \<Rightarrow> ret [] | Some i \<Rightarrow> ValueCopy B i) (\<lambda>nextID.
     andThen (linkNodes B key prevID nextID)
      (andThen (deleteNode B key nodeID)
        (remNodes B key nodes (if nodeID = curStart then nextID else curStart,
                               if nodeID = curEnd then prevID else curEnd)))))))"

definition lremBody :: "'t txn_ops \<Rightarrow> bytes \<Rightarrow> int \<Rightarrow> bytes \<Rightarrow> ('t, int) body" where
  "lremBody B key cnt val c = bnd (listGetMetaTxn B key) (\<lambda>((len, start, _), err).
     if err \<noteq> None \<or> len = 0 then ret 0
     else bnd (if cnt \<ge> 0
               then remScan B key (nextKey key) val (\<lambda>k. cnt > 0 \<and> cnt \<le> int k) (nat (sint len)) [] start []
               else bnd (getMeta B key) (\<lambda>(_, _, fin).
                 remScan B key (prevKey key) val (\<lambda>k. i64 (- cnt) \<le> int k) (nat (sint len)) [] fin [])) (\<lambda>nodes.
          bnd (getMeta B key) (\<lambda>(_, curStart, curEnd).
          bnd (remNodes B key nodes (curStart, curEnd)) (\<lambda>(start', end').
            if nodes \<noteq> [] then
              let newLength = len - word_of_nat (length nodes)
              in andThen (listUpdateMeta B key newLength (if newLength = 0 then [] else start')
                            (if newLength = 0 then [] else end'))
                   (ret (int (length nodes)))
            else ret 0))))"

definition LRem ::
  "run_env \<Rightarrow> 't txn_ops \<Rightarrow> ('d, 't) db_ops \<Rightarrow> bytes \<Rightarrow> int \<Rightarrow> bytes \<Rightarrow> 'd store
   \<Rightarrow> (go_error + unit) \<times> int \<times> 'd store" where
  "LRem E B D key cnt val st =
     retryUpdate E B D (lremBody B key cnt val) 30 [encodePropagateCommand [''LREM'', key, itoa cnt, val]] 0 st"

end
