(* ===== verification/ListChain.thy ===== *)
theory ListChain
  imports Lists
begin

text \<open>
  Correctness of the pushes, the pops and the reads of \<^verbatim>\<open>Lists\<close>: the chain of records represents a list of values,
  and every command acts on that list. The links at the two outer ends are not part of the representation:
  these commands leave stale ones there and never read them.
\<close>

section \<open>The cells of a list\<close>

text \<open>The records of a list by the part they play. \<open>Junk\<close> is the record that \<^verbatim>\<open>deleteNode\<close> removes in place of
  the value.\<close>

datatype cell = Len | Start | End | Val bytes | Next bytes | Prev bytes | Junk bytes

fun cellKey :: "bytes \<Rightarrow> cell \<Rightarrow> bytes" where
  "cellKey key Len = listKey key [''length'']"
| "cellKey key Start = listKey key [''start'']"
| "cellKey key End = listKey key [''end'']"
| "cellKey key (Val n) = listKey key [n]"
| "cellKey key (Next n) = listKey key [n, ''next'']"
| "cellKey key (Prev n) = listKey key [n, ''prev'']"
| "cellKey key (Junk n) = listKey key [n, '''']"

declare cellKey.simps [simp del]

text \<open>What the code relies on of a name from \<^verbatim>\<open>uuid.New\<close>: it is not empty, has no colon and is none of the three
  reserved pool.\<close>

definition node_id :: "bytes \<Rightarrow> bool" where
  "node_id n \<longleftrightarrow> n \<noteq> [] \<and> CHR '':'' \<notin> set n \<and> n \<notin> {''length'', ''start'', ''end''}"

fun good_cell :: "cell \<Rightarrow> bool" where
  "good_cell (Val n) = node_id n"
| "good_cell (Next n) = node_id n"
| "good_cell (Prev n) = node_id n"
| "good_cell (Junk n) = node_id n"
| "good_cell _ = True"

definition cells :: "(bytes \<rightharpoonup> item) \<Rightarrow> bytes \<Rightarrow> cell \<Rightarrow> bytes option" where
  "cells m key c = (if good_cell c then map_option ival (m (cellKey key c)) else None)"

lemma append_colon_eq:
  assumes "CHR '':'' \<notin> set a" "CHR '':'' \<notin> set b"
  shows "a @ CHR '':'' # x = b @ CHR '':'' # y \<longleftrightarrow> a = b \<and> x = y"
  using assms
proof (induction a arbitrary: b)
  case Nil
  then show ?case by (cases b) auto
next
  case (Cons c a)
  then show ?case by (cases b) auto
qed

lemma colon_not_plain:
  assumes "CHR '':'' \<notin> set b"
  shows "a @ CHR '':'' # x \<noteq> b" "b \<noteq> a @ CHR '':'' # x"
  using assms by auto

lemma cellKey_eq [simp]: "good_cell c \<Longrightarrow> good_cell d \<Longrightarrow> cellKey key c = cellKey key d \<longleftrightarrow> c = d"
  by (cases c; cases d) (auto simp: cellKey.simps listKey_def node_id_def append_colon_eq colon_not_plain)

lemma cellKey_prefix: "prefix (KeyTypeList @ '':'' @ key @ '':'') (cellKey key c)"
  by (cases c) (auto simp: cellKey.simps listKey_def)

lemma cellKey_not_type [simp]: "cellKey key c \<noteq> TypeOfKeyGet k" "TypeOfKeyGet k \<noteq> cellKey key c"
  by (cases c; simp add: cellKey.simps listKey_def TypeOfKeyGet_def)+

lemma cellKey_not_log [simp]: "\<not> prefix replLogPrefix (cellKey key c)"
  by (cases c) (simp_all add: cellKey.simps)

lemma cells_data [simp]: "cells (data m) key = cells m key"
  by (simp add: cells_def fun_eq_iff)

lemma cells_upd [simp]:
  "good_cell c \<Longrightarrow> cells (m(cellKey key c := x)) key = (cells m key)(c := map_option ival x)"
  by (auto simp: cells_def fun_eq_iff)

lemma cells_upd_type [simp]: "cells (m(TypeOfKeyGet k := x)) key = cells m key"
  by (simp add: cells_def fun_eq_iff)

lemma cell_keys:
  "nodeKey key n = cellKey key (Val n)" "nextKey key n = cellKey key (Next n)" "prevKey key n = cellKey key (Prev n)"
  "listKey key [''length''] = cellKey key Len" "listKey key [''start''] = cellKey key Start"
  "listKey key [''end''] = cellKey key End"
  by (simp_all add: cellKey.simps nodeKey_def nextKey_def prevKey_def)

section \<open>Chains\<close>

text \<open>The nodes \<open>ids\<close> hold the values \<open>vs\<close> and are linked in both directions.\<close>

definition chain :: "(cell \<Rightarrow> bytes option) \<Rightarrow> bytes list \<Rightarrow> bytes list \<Rightarrow> bool" where
  "chain g ids vs \<longleftrightarrow> distinct ids \<and> list_all node_id ids \<and> map (\<lambda>n. g (Val n)) ids = map Some vs
     \<and> map (\<lambda>n. g (Next n)) (butlast ids) = map Some (tl ids)
     \<and> map (\<lambda>n. g (Prev n)) (tl ids) = map Some (butlast ids)"

text \<open>What \<^verbatim>\<open>listGetMetaTxn\<close> reads, and the ends of the nodes \<open>ids\<close>.\<close>

definition lmeta :: "(cell \<Rightarrow> bytes option) \<Rightarrow> list_meta" where
  "lmeta g = (case g Len of
      None \<Rightarrow> (0, [], [])
    | Some b \<Rightarrow> (BytesToUint64 b, case_option [] id (g Start), case_option [] id (g End)))"

fun ends_ok :: "list_meta \<Rightarrow> bytes list \<Rightarrow> bool" where
  "ends_ok (len, start, fin) ids \<longleftrightarrow> len = word_of_nat (length ids) \<and> length ids < 2 ^ 63
     \<and> (ids \<noteq> [] \<longrightarrow> start = hd ids \<and> fin = last ids)"

definition list_at :: "(cell \<Rightarrow> bytes option) \<Rightarrow> bytes list \<Rightarrow> bool" where
  "list_at g vs \<longleftrightarrow> (\<exists>ids. chain g ids vs \<and> ends_ok (lmeta g) ids)"

lemma chain_length: "chain g ids vs \<Longrightarrow> length ids = length vs"
  by (auto simp: chain_def dest: map_eq_imp_length_eq)

lemma list_at_length: "list_at g vs \<Longrightarrow> length vs < 2 ^ 63"
  by (cases "lmeta g") (auto simp: list_at_def dest: chain_length)

lemma chain_Nil [simp]: "chain g [] vs \<longleftrightarrow> vs = []" "chain g ids [] \<longleftrightarrow> ids = []"
  by (auto simp: chain_def)

lemma chain_cong:
  assumes "\<And>n. n \<in> set ids \<Longrightarrow> g' (Val n) = g (Val n)"
    and "\<And>n. n \<in> set (butlast ids) \<Longrightarrow> g' (Next n) = g (Next n)"
    and "\<And>n. n \<in> set (tl ids) \<Longrightarrow> g' (Prev n) = g (Prev n)"
  shows "chain g' ids vs = chain g ids vs"
proof -
  have "map (\<lambda>n. g' (Val n)) ids = map (\<lambda>n. g (Val n)) ids"
    "map (\<lambda>n. g' (Next n)) (butlast ids) = map (\<lambda>n. g (Next n)) (butlast ids)"
    "map (\<lambda>n. g' (Prev n)) (tl ids) = map (\<lambda>n. g (Prev n)) (tl ids)"
    using assms by (simp_all only: map_eq_conv) auto
  then show ?thesis unfolding chain_def by presburger
qed

lemma chain_Cons:
  "ids \<noteq> [] \<Longrightarrow> chain g (n # ids) (v # vs) \<longleftrightarrow>
     n \<notin> set ids \<and> node_id n \<and> g (Val n) = Some v \<and> g (Next n) = Some (hd ids) \<and> g (Prev (hd ids)) = Some n \<and> chain g ids vs"
  by (cases ids) (auto simp: chain_def)

lemma chain_snoc:
  "ids \<noteq> [] \<Longrightarrow> chain g (ids @ [n]) (vs @ [v]) \<longleftrightarrow>
     n \<notin> set ids \<and> node_id n \<and> g (Val n) = Some v \<and> g (Next (last ids)) = Some n \<and> g (Prev n) = Some (last ids) \<and> chain g ids vs"
  by (induction ids rule: rev_induct) (auto simp: chain_def butlast_append tl_append split: list.splits)

lemma chain_single: "chain g [n] [v] \<longleftrightarrow> node_id n \<and> g (Val n) = Some v"
  by (auto simp: chain_def)

lemma chain_ids: "chain g ids vs \<Longrightarrow> n \<in> set ids \<Longrightarrow> node_id n"
  by (auto simp: chain_def list_all_iff)

lemma chain_vals: "chain g ids vs \<Longrightarrow> n \<in> set ids \<Longrightarrow> g (Val n) \<noteq> None"
  unfolding chain_def by (metis (mono_tags, lifting) in_set_conv_nth length_map nth_map option.distinct(1))

lemma ends_not_inner:
  assumes "distinct ids" "ids \<noteq> []"
  shows "hd ids \<notin> set (tl ids)" "last ids \<notin> set (butlast ids)"
proof -
  show "hd ids \<notin> set (tl ids)" using assms by (cases ids) auto
  show "last ids \<notin> set (butlast ids)" using assms by (cases ids rule: rev_cases) auto
qed

lemma inner_sub: "n \<in> set (butlast ids) \<Longrightarrow> n \<in> set ids" "n \<in> set (tl ids) \<Longrightarrow> n \<in> set ids"
  by (auto dest: in_set_butlastD) (cases ids; simp)

text \<open>Changes that leave a chain alone: the cells of other nodes and the links at the outer ends.\<close>

lemma chain_off [simp]:
  "n \<notin> set ids \<Longrightarrow> chain (g(Val n := x)) ids vs = chain g ids vs"
  "n \<notin> set (butlast ids) \<Longrightarrow> chain (g(Next n := x)) ids vs = chain g ids vs"
  "n \<notin> set (tl ids) \<Longrightarrow> chain (g(Prev n := x)) ids vs = chain g ids vs"
  "chain (g(Junk n := x)) ids vs = chain g ids vs" "chain (g(Len := x)) ids vs = chain g ids vs"
  "chain (g(Start := x)) ids vs = chain g ids vs" "chain (g(End := x)) ids vs = chain g ids vs"
  by (rule chain_cong; fastforce)+

text \<open>Adding a node at either end; the links at the outer ends do not matter.\<close>

lemma chain_push_left:
  assumes "chain g ids vs" "ids \<noteq> []" "node_id n" "n \<notin> set ids"
  shows "chain (g(Val n := Some v, Next n := Some (hd ids), Prev (hd ids) := Some n)) (n # ids) (v # vs)"
proof -
  have d: "distinct ids" using assms(1) by (simp add: chain_def)
  have "n \<notin> set (butlast ids)" using assms(4) inner_sub(1) [of n ids] by argo
  then have "chain (g(Val n := Some v, Next n := Some (hd ids), Prev (hd ids) := Some n)) ids vs"
    using assms(1) by (simp only: chain_off(1) [OF assms(4)] chain_off(2) chain_off(3) [OF ends_not_inner(1) [OF d assms(2)]] not_False_eq_True)
  then show ?thesis using assms(3,4) unfolding chain_Cons [OF assms(2)] by simp
qed

lemma chain_push_right:
  assumes "chain g ids vs" "ids \<noteq> []" "node_id n" "n \<notin> set ids"
  shows "chain (g(Val n := Some v, Next (last ids) := Some n, Prev n := Some (last ids))) (ids @ [n]) (vs @ [v])"
proof -
  have d: "distinct ids" using assms(1) by (simp add: chain_def)
  have "n \<notin> set (tl ids)" using assms(4) inner_sub(2) [of n ids] by argo
  then have "chain (g(Val n := Some v, Next (last ids) := Some n, Prev n := Some (last ids))) ids vs"
    using assms(1) by (simp only: chain_off(1) [OF assms(4)] chain_off(2) [OF ends_not_inner(2) [OF d assms(2)]] chain_off(3) not_False_eq_True)
  then show ?thesis using assms(3,4) unfolding chain_snoc [OF assms(2)] by simp
qed

lemma chain_pop_left:
  assumes "chain g (n # ids) (v # vs)" "ids \<noteq> []"
  shows "g (Val n) = Some v" "g (Next n) = Some (hd ids)" "node_id n" "node_id (hd ids)" "node_id (last ids)" "chain g ids vs"
    "n \<notin> set ids" "hd ids \<notin> set (tl ids)" "last ids \<notin> set (butlast ids)"
  using assms chain_ids [of g ids vs] ends_not_inner [of ids] by (auto simp: chain_Cons) (auto simp: chain_def)

lemma chain_pop_right:
  assumes "chain g (ids @ [n]) (vs @ [v])" "ids \<noteq> []"
  shows "g (Val n) = Some v" "g (Prev n) = Some (last ids)" "node_id n" "node_id (hd ids)" "node_id (last ids)" "chain g ids vs"
    "n \<notin> set ids" "hd ids \<notin> set (tl ids)" "last ids \<notin> set (butlast ids)"
  using assms chain_ids [of g ids vs] ends_not_inner [of ids] by (auto simp: chain_snoc) (auto simp: chain_def)

text \<open>The data records of a list.\<close>

definition under_list :: "bytes \<Rightarrow> bytes \<Rightarrow> bool" where
  "under_list key x \<longleftrightarrow> prefix (KeyTypeList @ '':'' @ key @ '':'') x"

lemma under_listKey [simp]: "under_list key (listKey key ps)"
  by (simp add: under_list_def listKey_def)

lemma under_list_owns: "owns key KeyTypeList x \<longleftrightarrow> x = TypeOfKeyGet key \<or> under_list key x"
  by (simp add: owns_def under_list_def)

lemma not_under_type [simp]: "\<not> under_list key (TypeOfKeyGet k)"
  by (simp add: under_list_def TypeOfKeyGet_def)

lemmas owns_keys = nodeKey_def nextKey_def prevKey_def

lemma bnd_InrE: "bnd f g t = Inr r \<Longrightarrow> (\<And>x t1. f t = Inr (x, t1) \<Longrightarrow> g x t1 = Inr r \<Longrightarrow> P) \<Longrightarrow> P"
  by (auto simp: bnd_def split: sum.splits)

lemma andThen_InrE: "andThen f g t = Inr r \<Longrightarrow> (\<And>x t1. f t = Inr (x, t1) \<Longrightarrow> g t1 = Inr r \<Longrightarrow> P) \<Longrightarrow> P"
  unfolding andThen_def by (rule bnd_InrE)

text \<open>Names for new nodes.\<close>

definition fresh :: "(cell \<Rightarrow> bytes option) \<Rightarrow> bytes list \<Rightarrow> bool" where
  "fresh g new \<longleftrightarrow> distinct new \<and> (\<forall>n \<in> set new. node_id n \<and> g (Val n) = None)"

lemma fresh_Cons: "fresh g (n # new) \<Longrightarrow> \<forall>m. m \<noteq> n \<longrightarrow> g' (Val m) = g (Val m) \<Longrightarrow> fresh g' new"
  by (auto simp: fresh_def)

section \<open>What the commands promise\<close>

text \<open>One element at an end of a list of values, and the rest.\<close>

definition end_of :: "bool \<Rightarrow> 'a list \<Rightarrow> 'a" where
  "end_of left vs = (if left then hd vs else last vs)"

definition rest_of :: "bool \<Rightarrow> 'a list \<Rightarrow> 'a list" where
  "rest_of left vs = (if left then tl vs else butlast vs)"

definition added :: "bool \<Rightarrow> 'a list \<Rightarrow> 'a list \<Rightarrow> 'a list" where
  "added left vals vs = (if left then rev vals @ vs else vs @ vals)"

definition list_frame :: "bytes set \<Rightarrow> (bytes \<rightharpoonup> item) \<Rightarrow> (bytes \<rightharpoonup> item) \<Rightarrow> bool" where
  "list_frame keys m m' \<longleftrightarrow> (\<forall>x. (\<forall>key \<in> keys. \<not> owns key KeyTypeList x) \<longrightarrow> m' x = m x)"

definition push_spec ::
  "(nat \<Rightarrow> nat \<Rightarrow> bytes) \<Rightarrow> bytes \<Rightarrow> bool \<Rightarrow> bytes list \<Rightarrow> (bytes \<rightharpoonup> item) \<Rightarrow> int \<Rightarrow> (bytes \<rightharpoonup> item) \<Rightarrow> bool" where
  "push_spec uuid key left vals m n m' \<longleftrightarrow> list_frame {key} m m' \<and>
     (\<forall>vs. list_at (cells m key) vs \<and> length vs + length vals < 2 ^ 63
        \<and> (\<forall>a. fresh (cells m key) (map (uuid a) [0..<length vals])) \<longrightarrow>
       list_at (cells m' key) (added left vals vs) \<and> n = int (length vs + length vals)
        \<and> map_option ival (m' (TypeOfKeyGet key)) = Some KeyTypeList)"

definition pop_spec :: "bytes \<Rightarrow> bool \<Rightarrow> (bytes \<rightharpoonup> item) \<Rightarrow> bytes \<Rightarrow> (bytes \<rightharpoonup> item) \<Rightarrow> bool" where
  "pop_spec key left m x m' \<longleftrightarrow> list_frame {key} m m' \<and>
     (\<forall>vs. list_at (cells m key) vs \<longrightarrow>
       (if vs = [] then x = [] \<and> m' = m
        else x = end_of left vs \<and> list_at (cells m' key) (rest_of left vs)))"

text \<open>Moving an element: an empty one is taken away and not added again.\<close>

definition move_spec ::
  "bytes set \<Rightarrow> bytes \<Rightarrow> bytes \<Rightarrow> bool \<Rightarrow> bool \<Rightarrow> (bytes \<rightharpoonup> item) \<Rightarrow> bytes \<Rightarrow> (bytes \<rightharpoonup> item) \<Rightarrow> bool" where
  "move_spec pool s d from_left to_left m x m' \<longleftrightarrow> list_frame {s, d} m m' \<and>
     (\<forall>vs ws. list_at (cells m s) vs \<and> list_at (cells m d) ws \<and> length ws + 1 < 2 ^ 63 \<and> (s = d \<or> apart s d)
        \<and> (\<forall>n \<in> pool. fresh (cells m d) [n]) \<longrightarrow>
       (if vs = [] then x = [] \<and> m' = m
        else x = end_of from_left vs \<and>
          (let back = (if x = [] then [] else [x])
           in if s = d then list_at (cells m' d) (added to_left back (rest_of from_left vs))
              else list_at (cells m' s) (rest_of from_left vs) \<and> list_at (cells m' d) (added to_left back ws))))"

text \<open>Positions count from the end when they are negative.\<close>

definition at_index :: "'a list \<Rightarrow> int \<Rightarrow> 'a option" where
  "at_index vs index = (let i = (if index < 0 then int (length vs) + index else index)
     in if 0 \<le> i \<and> i < int (length vs) then Some (vs ! nat i) else None)"

definition slice :: "'a list \<Rightarrow> int \<Rightarrow> int \<Rightarrow> 'a list" where
  "slice vs start stop =
     (let n = int (length vs);
          s = max 0 (if start < 0 then n + start else start);
          p = min (n - 1) (if stop < 0 then n + stop else stop)
      in take (nat (p - s + 1)) (drop (nat s) vs))"

lemma under_list_apart: "apart a b \<Longrightarrow> \<not> under_list a (cellKey b c)" "apart a b \<Longrightarrow> \<not> owns a KeyTypeList (cellKey b c)"
  using apart_under [of b a "''LIST:''" "cellKey b c"] cellKey_prefix [of b c]
  by (simp_all add: under_list_owns apart_sym) (simp_all add: under_list_def apart_sym)

section \<open>Running the parts\<close>

context badger_txn
begin

abbreviation lcells :: "bytes \<Rightarrow> 't \<Rightarrow> cell \<Rightarrow> bytes option" where
  "lcells key t \<equiv> cells (view t) key"

text \<open>Writing and deleting one cell.\<close>

lemma cell_ops [txn_simps]:
  "Set B (cellKey key c) v t = Inr ((), upd t (cellKey key c) (Some \<lparr>ival = v, iexp = 0\<rparr>))"
  "Delete B (cellKey key c) t = Inr ((), upd t (cellKey key c) None)"
  "deleteQuiet B k t = Inr ((), upd t k None)"
  by (simp_all add: deleteQuiet_def Set_run Delete_run)

lemma lcells_upd [simp]:
  "good_cell c \<Longrightarrow> lcells key (upd t (cellKey key c) x) = (lcells key t)(c := map_option ival x)"
  "lcells key (upd t (TypeOfKeyGet k) x) = lcells key t"
  by (simp_all add: view_upd)

lemma getCell [txn_simps]:
  "good_cell c \<Longrightarrow> getValue B (cellKey key c) t =
     (case lcells key t c of None \<Rightarrow> Inl ErrKeyNotFound | Some v \<Rightarrow> Inr (v, t))"
  by (simp add: getValue_run cells_def split: option.split)

lemma tryGetCell:
  "good_cell c \<Longrightarrow> (case view t (cellKey key c) of None \<Rightarrow> a | Some i \<Rightarrow> f (ival i)) =
     (case lcells key t c of None \<Rightarrow> a | Some v \<Rightarrow> f v)"
  by (simp add: cells_def split: option.split)

lemma metaEnd_run:
  "metaEnd B key ''start'' t = Inr (Inr (case_option [] id (lcells key t Start)), t)"
  "metaEnd B key ''end'' t = Inr (Inr (case_option [] id (lcells key t End)), t)"
  by (simp_all add: metaEnd_def cell_keys bnd_def tryGet_run tryCopy_def value_law cells_def split: option.split)

lemma listGetMetaTxn_run [txn_simps]: "listGetMetaTxn B key t = Inr ((lmeta (lcells key t), None), t)"
  by (simp add: listGetMetaTxn_def cell_keys bnd_def tryGet_run tryCopy_def value_law metaEnd_run lmeta_def
      cells_def [of _ _ Len] split: option.split)

lemma getMeta_run [txn_simps]: "getMeta B key t = Inr (lmeta (lcells key t), t)"
  by (simp add: getMeta_def bnd_def listGetMetaTxn_run)

lemma listUpdateMeta_run:
  "\<exists>t'. listUpdateMeta B key len start fin t = Inr ((), t')
     \<and> lcells key t' = (lcells key t)(Len := Some (Uint64ToBytes len), Start := Some start, End := Some fin)"
  by (simp add: listUpdateMeta_def cell_keys andThen_def bnd_def cell_ops)

lemma linkNodes_run:
  "node_id p \<Longrightarrow> node_id n \<Longrightarrow> \<exists>t'. linkNodes B key p n t = Inr ((), t')
     \<and> lcells key t' = (lcells key t)(Next p := Some n, Prev n := Some p)"
  by (simp add: linkNodes_def cell_keys andThen_def bnd_def cell_ops node_id_def)

lemma deleteNode_run:
  "node_id n \<Longrightarrow> \<exists>t'. deleteNode B key n t = Inr ((), t')
     \<and> lcells key t' = (lcells key t)(Junk n := None, Prev n := None, Next n := None)"
  by (simp add: deleteNode_def cellKey.simps(5-7) [symmetric] andThen_def bnd_def cell_ops)

lemma createNode_run:
  "node_id n \<Longrightarrow> \<exists>t'. createNode B n key v t = Inr (n, t') \<and> lcells key t' = (lcells key t)(Val n := Some v)"
  by (simp add: createNode_def cell_keys andThen_def bnd_def cell_ops)

text \<open>A body \<^emph>\<open>touches\<close> only the keys in \<open>P\<close> when all other records are as before.\<close>

definition touches :: "(bytes \<Rightarrow> bool) \<Rightarrow> ('t, 'a) tx \<Rightarrow> bool" where
  "touches P f \<longleftrightarrow> (\<forall>t r t'. f t = Inr (r, t') \<longrightarrow> (\<forall>x. \<not> P x \<longrightarrow> view t' x = view t x))"

lemma touches_bnd [intro]: "touches P f \<Longrightarrow> (\<And>x. touches P (g x)) \<Longrightarrow> touches P (bnd f g)"
  unfolding touches_def bnd_def by (fastforce split: sum.splits)

lemma touches_andThen [intro]: "touches P f \<Longrightarrow> touches P g \<Longrightarrow> touches P (andThen f g)"
  by (auto simp: andThen_def)

lemma touches_ret [intro]: "touches P (ret x)" "touches P (fail e)"
  by (simp_all add: touches_def)

lemma touches_reads [intro]:
  "touches P (tryGet B k)" "touches P (lookup B k)" "touches P (lookupValue B k)" "touches P (getValue B k)"
  "touches P (ValueCopy B i)" "touches P (tryCopy B i)"
  by (auto simp: touches_def txn_simps tryCopy_def split: option.splits)

lemma touches_writes [intro]:
  "P k \<Longrightarrow> touches P (Set B k v)" "P k \<Longrightarrow> touches P (Delete B k)" "P k \<Longrightarrow> touches P (deleteQuiet B k)"
  by (auto simp: touches_def txn_simps)

lemma touches_forEach [intro]: "(\<And>x. x \<in> set xs \<Longrightarrow> touches P (f x)) \<Longrightarrow> touches P (forEach f xs)"
  by (induction xs) auto

lemma touches_branches [intro]:
  "touches P f \<Longrightarrow> (\<And>x. touches P (g x)) \<Longrightarrow> touches P (case v of None \<Rightarrow> f | Some x \<Rightarrow> g x)"
  "(\<And>x y. touches P (h x y)) \<Longrightarrow> touches P (case p of (x, y) \<Rightarrow> h x y)"
  "(\<And>e. touches P (k e)) \<Longrightarrow> (\<And>x. touches P (g x)) \<Longrightarrow> touches P (case s of Inl e \<Rightarrow> k e | Inr x \<Rightarrow> g x)"
  "touches P f \<Longrightarrow> touches P f' \<Longrightarrow> touches P (if b then f else f')"
  by (auto split: option.split prod.split sum.split)

lemmas touches_intros = touches_bnd touches_andThen touches_ret touches_reads touches_writes touches_forEach touches_branches

lemma touches_mono: "touches P f \<Longrightarrow> (\<And>x. P x \<Longrightarrow> Q x) \<Longrightarrow> touches Q f"
  unfolding touches_def by blast

lemma touchesD: "touches P f \<Longrightarrow> f t = Inr (r, t') \<Longrightarrow> \<not> P x \<Longrightarrow> view t' x = view t x"
  by (auto simp: touches_def)

lemma touches_meta [intro]: "touches P (listGetMetaTxn B key)" "touches P (getMeta B key)"
  unfolding listGetMetaTxn_def getMeta_def metaEnd_def by (intro touches_intros)+

lemma touches_parts [intro]:
  "touches (under_list key) (listUpdateMeta B key len start fin)"
  "touches (under_list key) (linkNodes B key p n)"
  "touches (under_list key) (deleteNode B key n)"
  "touches (under_list key) (createNode B n key v)"
  unfolding listUpdateMeta_def linkNodes_def deleteNode_def createNode_def owns_keys
  by (intro touches_intros under_listKey)+

lemma touches_pushLoop [intro]: "touches (under_list key) (pushLoop B ids key toLeft i vals lm)"
proof (induction vals arbitrary: i lm)
  case (Cons val vals)
  obtain len start fin where lm: "lm = (len, start, fin)" by (cases lm)
  show ?case unfolding lm pushLoop.simps owns_keys
    by (intro touches_intros touches_parts under_listKey Cons)
qed (simp add: touches_ret)

text \<open>The push loop adds the values at its end of the chain.\<close>

lemma ends_ok_0: "ends_ok (len, start, fin) ids \<Longrightarrow> len = 0 \<longleftrightarrow> ids = []"
  using word_of_nat_0_small [of "length ids"] by auto

lemma ends_ok_step:
  "ends_ok (len, start, fin) ids \<Longrightarrow> length ids + 1 < 2 ^ 63 \<Longrightarrow> ids \<noteq> [] \<Longrightarrow> ends_ok (len + 1, n, fin) (n # ids)"
  "ends_ok (len, start, fin) ids \<Longrightarrow> length ids + 1 < 2 ^ 63 \<Longrightarrow> ids \<noteq> [] \<Longrightarrow> ends_ok (len + 1, start, n) (ids @ [n])"
  by (auto simp: add.commute)

lemma push_step:
  assumes "chain (lcells key t) ids vs" "ends_ok (len, start, fin) ids" "node_id n" "n \<notin> set ids" "length ids + 1 < 2 ^ 63" "f i = n"
  shows "\<exists>t' ids' lm. pushLoop B f key toLeft i (v # vals) (len, start, fin) t = pushLoop B f key toLeft (Suc i) vals lm t'
     \<and> chain (lcells key t') ids' (if toLeft then v # vs else vs @ [v]) \<and> ends_ok lm ids'
     \<and> set ids' = insert n (set ids) \<and> (\<forall>m. m \<noteq> n \<longrightarrow> lcells key t' (Val m) = lcells key t (Val m))"
proof (cases "ids = []")
  case True
  then have "len = 0" "vs = []" using assms(1,2) by auto
  obtain t1 where t1: "createNode B n key v t = Inr (n, t1)" "lcells key t1 = (lcells key t)(Val n := Some v)"
    using createNode_run [OF assms(3)] by blast
  obtain t2 where t2: "linkNodes B key n n t1 = Inr ((), t2)" "lcells key t2 = (lcells key t1)(Next n := Some n, Prev n := Some n)"
    using linkNodes_run [OF assms(3) assms(3)] by blast
  have run: "pushLoop B f key toLeft i (v # vals) (len, start, fin) t = pushLoop B f key toLeft (Suc i) vals (len + 1, n, n) t2"
    by (simp add: assms(6) \<open>len = 0\<close> andThen_def bnd_def t1(1) t2(1))
  show ?thesis
    by (intro exI [of _ t2] exI [of _ "[n]"] exI [of _ "(len + 1, n, n)"] conjI, rule run)
      (use assms(3) in \<open>simp_all add: t2(2) t1(2) chain_single True \<open>vs = []\<close> \<open>len = 0\<close>\<close>)
next
  case False
  then have len: "len \<noteq> 0" and ends: "start = hd ids" "fin = last ids" using ends_ok_0 [OF assms(2)] assms(2) by auto
  have ok: "node_id (hd ids)" "node_id (last ids)" using False chain_ids [OF assms(1)] by simp_all
  obtain t1 where t1: "createNode B n key v t = Inr (n, t1)" "lcells key t1 = (lcells key t)(Val n := Some v)"
    using createNode_run [OF assms(3)] by blast
  show ?thesis
  proof (cases toLeft)
    case True
    obtain t2 where t2: "linkNodes B key n start t1 = Inr ((), t2)"
        "lcells key t2 = (lcells key t1)(Next n := Some start, Prev start := Some n)"
      using linkNodes_run [OF assms(3) ok(1)] ends by blast
    let ?t3 = "upd t2 (cellKey key (Prev start)) (Some \<lparr>ival = n, iexp = 0\<rparr>)"
    have run: "pushLoop B f key toLeft i (v # vals) (len, start, fin) t = pushLoop B f key toLeft (Suc i) vals (len + 1, n, fin) ?t3"
      by (simp add: assms(6) len True andThen_def bnd_def t1(1) t2(1) cell_keys cell_ops)
    have cells: "lcells key ?t3 = (lcells key t)(Val n := Some v, Next n := Some (hd ids), Prev (hd ids) := Some n)"
      using ok ends by (simp add: t2(2) t1(2))
    show ?thesis
      by (intro exI [of _ ?t3] exI [of _ "n # ids"] exI [of _ "(len + 1, n, fin)"] conjI)
        (use True run chain_push_left [OF assms(1) False assms(3,4), of v] ends_ok_step(1) [OF assms(2,5) False] in
          \<open>simp_all add: cells del: ends_ok.simps\<close>)
  next
    case R: False
    obtain t2 where t2: "linkNodes B key fin n t1 = Inr ((), t2)"
        "lcells key t2 = (lcells key t1)(Next fin := Some n, Prev n := Some fin)"
      using linkNodes_run [OF ok(2) assms(3)] ends by blast
    let ?t3 = "upd t2 (cellKey key (Next fin)) (Some \<lparr>ival = n, iexp = 0\<rparr>)"
    have run: "pushLoop B f key toLeft i (v # vals) (len, start, fin) t = pushLoop B f key toLeft (Suc i) vals (len + 1, start, n) ?t3"
      by (simp add: assms(6) len R andThen_def bnd_def t1(1) t2(1) cell_keys cell_ops)
    have cells: "lcells key ?t3 = (lcells key t)(Val n := Some v, Next (last ids) := Some n, Prev n := Some (last ids))"
      using ok ends by (auto simp: t2(2) t1(2) fun_eq_iff)
    show ?thesis
      by (intro exI [of _ ?t3] exI [of _ "ids @ [n]"] exI [of _ "(len + 1, start, n)"] conjI)
        (use R run chain_push_right [OF assms(1) False assms(3,4), of v] ends_ok_step(2) [OF assms(2,5) False] in
          \<open>simp_all add: cells del: ends_ok.simps\<close>)
  qed
qed

lemma pushLoop_run:
  assumes "chain (lcells key t) ids vs" "ends_ok lm ids" "fresh (lcells key t) (map f [i..<i + length vals])"
    "length ids + length vals < 2 ^ 63"
  shows "\<exists>t' ids' lm'. pushLoop B f key toLeft i vals lm t = Inr (lm', t')
     \<and> chain (lcells key t') ids' (if toLeft then rev vals @ vs else vs @ vals) \<and> ends_ok lm' ids'"
  using assms
proof (induction vals arbitrary: i lm t ids vs)
  case (Cons v vals)
  obtain len start fin where lm: "lm = (len, start, fin)" by (cases lm)
  have ups: "map f [i..<i + length (v # vals)] = f i # map f [Suc i..<Suc i + length vals]" by (subst upt_conv_Cons) (simp_all del: upt_Suc)
  have fr: "node_id (f i)" "lcells key t (Val (f i)) = None"
    using Cons.prems(3) unfolding ups by (auto simp: fresh_def)
  have "f i \<notin> set ids" using chain_vals [OF Cons.prems(1)] fr(2) by blast
  from push_step [where f = f and i = i, OF Cons.prems(1) Cons.prems(2) [unfolded lm] fr(1) this _ refl, of toLeft v vals] Cons.prems(4)
  obtain t1 ids1 lm1 where step:
      "pushLoop B f key toLeft i (v # vals) (len, start, fin) t = pushLoop B f key toLeft (Suc i) vals lm1 t1"
      "chain (lcells key t1) ids1 (if toLeft then v # vs else vs @ [v])" "ends_ok lm1 ids1" "set ids1 = insert (f i) (set ids)"
      "\<forall>m. m \<noteq> f i \<longrightarrow> lcells key t1 (Val m) = lcells key t (Val m)" by auto
  have "fresh (lcells key t1) (map f [Suc i..<Suc i + length vals])"
    using fresh_Cons [OF Cons.prems(3) [unfolded ups] step(5)] .
  moreover have "length ids1 + length vals < 2 ^ 63"
    using Cons.prems(4) chain_length [OF step(2)] chain_length [OF Cons.prems(1)] by (simp split: if_splits)
  ultimately show ?case using Cons.IH [OF step(2,3)] unfolding lm step(1) by (cases toLeft) simp_all
qed auto

lemma checkListType_run:
  "checkListType B key t = (case map_option ival (view t (TypeOfKeyGet key)) of
      None \<Rightarrow> Inr ((), t)
    | Some T \<Rightarrow> if T \<noteq> [] \<and> T \<noteq> KeyTypeList then Inl ErrWrongType else Inr ((), t))"
  by (simp add: checkListType_def bnd_def lookupValue_run split: option.split)

lemma touches_checkListType [intro]: "touches P (checkListType B key)"
  unfolding checkListType_def by (intro touches_intros)

lemma checkListType_Inr: "checkListType B key t = Inr (u, t') \<Longrightarrow> t' = t"
  by (auto simp: checkListType_run split: option.splits if_splits)

lemma touches_pushBody: "touches (owns key KeyTypeList) (pushBody uuid B key toLeft vals c)"
  unfolding pushBody_def
  by (intro touches_intros touches_checkListType touches_meta touches_mono [OF touches_pushLoop]
      touches_mono [OF touches_parts(1)]) (simp_all add: under_list_owns)

text \<open>A chain that got its three end records again.\<close>

lemma list_at_meta:
  assumes "chain g ids vs" "ends_ok (len, start, fin) ids"
  shows "list_at (g(Len := Some (Uint64ToBytes len), Start := Some start, End := Some fin)) vs"
  using assms unfolding list_at_def by (intro exI [of _ ids]) (simp add: lmeta_def)

lemma pushBody_run:
  assumes "list_at (lcells key t) vs" "fresh (lcells key t) (map (uuid (snd c)) [0..<length vals])"
    "length vs + length vals < 2 ^ 63" "pushBody uuid B key toLeft vals c t = Inr (c', t')"
  shows "list_at (lcells key t') (if toLeft then rev vals @ vs else vs @ vals) \<and> c' = (word_of_nat (length vs + length vals), Suc (snd c))
     \<and> view t' (TypeOfKeyGet key) = Some \<lparr>ival = KeyTypeList, iexp = 0\<rparr>"
proof -
  obtain ids where ids: "chain (lcells key t) ids vs" "ends_ok (lmeta (lcells key t)) ids"
    using assms(1) by (auto simp: list_at_def)
  let ?t1 = "upd t (TypeOfKeyGet key) (Some \<lparr>ival = KeyTypeList, iexp = 0\<rparr>)"
  have run: "bnd (pushLoop B (uuid (snd c)) key toLeft 0 vals (lmeta (lcells key t))) (\<lambda>(len, start, fin).
      andThen (listUpdateMeta B key len start fin) (ret (len, Suc (snd c)))) ?t1 = Inr (c', t')"
    using assms(4) unfolding pushBody_def
    by (elim andThen_InrE) (auto dest!: checkListType_Inr simp: Set_run bnd_def getMeta_run)
  have l: "length ids + length vals < 2 ^ 63" using assms(3) chain_length [OF ids(1)] by simp
  have "chain (lcells key ?t1) ids vs" "fresh (lcells key ?t1) (map (uuid (snd c)) [0..<0 + length vals])" using ids(1) assms(2) by simp_all
  from pushLoop_run [OF this(1) ids(2) this(2) l, of toLeft] obtain t2 ids' len start fin where
    loop: "pushLoop B (uuid (snd c)) key toLeft 0 vals (lmeta (lcells key t)) ?t1 = Inr ((len, start, fin), t2)"
      "chain (lcells key t2) ids' (if toLeft then rev vals @ vs else vs @ vals)" "ends_ok (len, start, fin) ids'" by fastforce
  obtain t3 where t3: "listUpdateMeta B key len start fin t2 = Inr ((), t3)"
    "lcells key t3 = (lcells key t2)(Len := Some (Uint64ToBytes len), Start := Some start, End := Some fin)"
    using listUpdateMeta_run by blast
  have c': "c' = (len, Suc (snd c))" "t' = t3" using run by (simp_all add: bnd_def loop(1) andThen_def t3(1))
  have "view t2 (TypeOfKeyGet key) = view ?t1 (TypeOfKeyGet key)" "view t3 (TypeOfKeyGet key) = view t2 (TypeOfKeyGet key)"
    by (rule touchesD [OF touches_pushLoop loop(1)], simp) (rule touchesD [OF touches_parts(1) t3(1)], simp)
  moreover have "len = word_of_nat (length vs + length vals)"
    using loop(3) chain_length [OF loop(2)] by (simp add: add.commute split: if_splits)
  ultimately show ?thesis using list_at_meta [OF loop(2,3)] t3(2) by (simp add: c' view_upd)
qed

text \<open>Removing a node at either end.\<close>

lemma len_gt_1: "ends_ok (len, start, fin) ids \<Longrightarrow> 1 < len \<longleftrightarrow> 1 < length ids"
  by (auto simp: word_less_nat_alt unat_of_nat take_bit_nat_eq_self)

lemma ends_ok_tl:
  "ends_ok (len, start, fin) (n # ids) \<Longrightarrow> ids \<noteq> [] \<Longrightarrow> ends_ok (len - 1, hd ids, fin) ids"
  "ends_ok (len, start, fin) (ids @ [n]) \<Longrightarrow> ids \<noteq> [] \<Longrightarrow> ends_ok (len - 1, start, last ids) ids"
  by auto

text \<open>The chain that remains does not use the cells of the removed node or the outer links.\<close>

lemma chain_rest:
  assumes "chain g ids vs" "ids \<noteq> []" "n \<notin> set ids"
    and "\<And>m. m \<in> set ids \<Longrightarrow> g' (Val m) = g (Val m)"
    and "\<And>m. m \<in> set ids \<Longrightarrow> m \<noteq> last ids \<Longrightarrow> g' (Next m) = g (Next m)"
    and "\<And>m. m \<in> set ids \<Longrightarrow> m \<noteq> hd ids \<Longrightarrow> g' (Prev m) = g (Prev m)"
  shows "chain g' ids vs"
proof -
  have d: "distinct ids" using assms(1) by (simp add: chain_def)
  have "chain g' ids vs = chain g ids vs"
  proof (rule chain_cong)
    fix m assume "m \<in> set (butlast ids)"
    then show "g' (Next m) = g (Next m)" using assms(5) ends_not_inner(2) [OF d assms(2)] inner_sub(1) [of m ids] by metis
  next
    fix m assume "m \<in> set (tl ids)"
    then show "g' (Prev m) = g (Prev m)" using assms(6) ends_not_inner(1) [OF d assms(2)] inner_sub(2) [of m ids] by metis
  qed (rule assms(4))
  then show ?thesis using assms(1) by simp
qed

lemma LPopNode_run:
  assumes "chain (lcells key t) (n # ids) (v # vs)" "ends_ok (len, start, fin) (n # ids)"
  shows "\<exists>t'. LPopNode B key (len, start, fin) t = Inr (v, t') \<and> list_at (lcells key t') vs"
proof (cases "ids = []")
  case True
  then have n: "node_id n" "lcells key t (Val n) = Some v" "vs = []" "len = 1" "start = n"
    using assms chain_length [OF assms(1)] by (auto simp: chain_single)
  obtain t1 where t1: "listUpdateMeta B key 0 [] [] (upd (upd (upd t (cellKey key (Val n)) None) (cellKey key (Prev n)) None) (cellKey key (Next n)) None) = Inr ((), t1)"
    "lcells key t1 = (lcells key t)(Val n := None, Prev n := None, Next n := None, Len := Some (Uint64ToBytes 0), Start := Some [], End := Some [])"
    using listUpdateMeta_run [of key 0 "[]" "[]"] n(1) by fastforce
  have "LPopNode B key (len, start, fin) t = Inr (v, t1)"
    using n by (simp add: LPopNode_def cell_keys andThen_def bnd_def getCell cell_ops Let_def t1(1))
  then show ?thesis using list_at_meta [of "(lcells key t)(Val n := None, Prev n := None, Next n := None)" "[]" "[]" 0 "[]" "[]"]
    by (simp add: t1(2) n(3))
next
  case False
  note p = chain_pop_left [OF assms(1) False]
  have e: "start = n" "fin = last ids" "1 < len" using assms(2) False len_gt_1 [OF assms(2)] by (auto simp: Suc_lessI)
  obtain t1 where t1: "linkNodes B key fin (hd ids) t = Inr ((), t1)"
    "lcells key t1 = (lcells key t)(Next fin := Some (hd ids), Prev (hd ids) := Some fin)"
    using linkNodes_run [OF p(5,4)] e(2) by blast
  let ?t2 = "upd (upd (upd t1 (cellKey key (Val n)) None) (cellKey key (Prev n)) None) (cellKey key (Next n)) None"
  obtain t3 where t3: "listUpdateMeta B key (len - 1) (hd ids) fin ?t2 = Inr ((), t3)"
    "lcells key t3 = (lcells key ?t2)(Len := Some (Uint64ToBytes (len - 1)), Start := Some (hd ids), End := Some fin)"
    using listUpdateMeta_run by blast
  have run: "LPopNode B key (len, start, fin) t = Inr (v, t3)"
    using p e by (simp add: LPopNode_def cell_keys andThen_def bnd_def getCell cell_ops Let_def t1(1) [unfolded e(2)] t3(1) [unfolded e(2)])
  have "chain (lcells key ?t2) ids vs"
    by (rule chain_rest [OF p(6) False p(7)]) (use p(3,7) e(2) in \<open>auto simp: t1(2)\<close>)
  from list_at_meta [OF this ends_ok_tl(1) [OF assms(2) False]] show ?thesis
    unfolding t3(2) [symmetric] using run by blast
qed

lemma emptied: "list_at (g(Len := Some (Uint64ToBytes 0), Start := Some [], End := Some [])) []"
  using list_at_meta [of g "[]" "[]" 0 "[]" "[]"] by simp

lemma RPopNode_run:
  assumes "chain (lcells key t) (ids @ [n]) (vs @ [v])" "ends_ok (len, start, fin) (ids @ [n])"
  shows "\<exists>t'. RPopNode B key (len, start, fin) t = Inr (v, t') \<and> list_at (lcells key t') vs"
proof (cases "ids = []")
  case True
  then have n: "node_id n" "lcells key t (Val n) = Some v" "vs = []" "len = 1" "fin = n"
    using assms chain_length [OF assms(1)] by (auto simp: chain_single)
  let ?t1 = "upd (upd (upd t (cellKey key (Val n)) None) (cellKey key (Prev n)) None) (cellKey key (Next n)) None"
  obtain t1 where t1: "listUpdateMeta B key 0 [] [] ?t1 = Inr ((), t1)"
    "lcells key t1 = (lcells key ?t1)(Len := Some (Uint64ToBytes 0), Start := Some [], End := Some [])"
    using listUpdateMeta_run by blast
  have "RPopNode B key (len, start, fin) t = Inr (v, t1)"
    using n by (simp add: RPopNode_def cell_keys andThen_def bnd_def getCell cell_ops Let_def t1(1))
  then show ?thesis using emptied [of "lcells key ?t1"] unfolding t1(2) [symmetric] n(3) by blast
next
  case False
  note p = chain_pop_right [OF assms(1) False]
  have e: "fin = n" "start = hd ids" "1 < len" using assms(2) False len_gt_1 [OF assms(2)] by (auto simp: Suc_lessI)
  obtain t1 where t1: "linkNodes B key (last ids) start t = Inr ((), t1)"
    "lcells key t1 = (lcells key t)(Next (last ids) := Some start, Prev start := Some (last ids))"
    using linkNodes_run [OF p(5,4)] e(2) by blast
  let ?t2 = "upd (upd (upd t1 (cellKey key (Val n)) None) (cellKey key (Prev n)) None) (cellKey key (Next n)) None"
  obtain t3 where t3: "listUpdateMeta B key (len - 1) start (last ids) ?t2 = Inr ((), t3)"
    "lcells key t3 = (lcells key ?t2)(Len := Some (Uint64ToBytes (len - 1)), Start := Some start, End := Some (last ids))"
    using listUpdateMeta_run by blast
  have run: "RPopNode B key (len, start, fin) t = Inr (v, t3)"
    using p e by (simp add: RPopNode_def cell_keys andThen_def bnd_def getCell cell_ops Let_def t1(1) [unfolded e(2)] t3(1) [unfolded e(2)])
  have "chain (lcells key ?t2) ids vs"
    by (rule chain_rest [OF p(6) False p(7)]) (use p(3,7) e(2) in \<open>auto simp: t1(2)\<close>)
  from list_at_meta [OF this ends_ok_tl(2) [OF assms(2) False]] show ?thesis
    unfolding t3(2) [symmetric] using run by blast
qed

text \<open>The pops of \<^verbatim>\<open>RPOPLPUSH\<close>, \<^verbatim>\<open>LMOVE\<close> and \<^verbatim>\<open>LMPOP\<close> leave the value record of the node behind.\<close>

lemma listPopInTxn_left:
  assumes "chain (lcells key t) (n # ids) (v # vs)" "ends_ok (lmeta (lcells key t)) (n # ids)"
  shows "\<exists>t'. listPopInTxn B key True t = Inr (v, t') \<and> list_at (lcells key t') vs
     \<and> (\<forall>m. lcells key t' (Val m) = lcells key t (Val m))"
proof -
  obtain len start fin where lm: "lmeta (lcells key t) = (len, start, fin)" by (cases "lmeta (lcells key t)")
  note ends = assms(2) [unfolded lm]
  show ?thesis
  proof (cases "ids = []")
    case True
    then have n: "node_id n" "lcells key t (Val n) = Some v" "vs = []" "len = 1" "start = n"
      using assms(1) ends chain_length [OF assms(1)] by (auto simp: chain_single)
    obtain t1 where t1: "deleteNode B key n t = Inr ((), t1)" "lcells key t1 = (lcells key t)(Junk n := None, Prev n := None, Next n := None)"
      using deleteNode_run [OF n(1)] by blast
    obtain t2 where t2: "listUpdateMeta B key 0 [] [] t1 = Inr ((), t2)"
      "lcells key t2 = (lcells key t1)(Len := Some (Uint64ToBytes 0), Start := Some [], End := Some [])"
      using listUpdateMeta_run by blast
    have "listPopInTxn B key True t = Inr (v, t2)"
      using n by (simp add: listPopInTxn_def cell_keys andThen_def bnd_def getCell listGetMetaTxn_run lm Let_def t1(1) t2(1))
    then show ?thesis using emptied [of "lcells key t1"] unfolding t2(2) [symmetric] n(3) by (auto simp: t2(2) t1(2))
  next
    case False
    note p = chain_pop_left [OF assms(1) False]
    have e: "start = n" "fin = last ids" "1 < len" "len \<noteq> 0"
      using ends False len_gt_1 [OF ends] ends_ok_0 [OF ends] by (auto simp: Suc_lessI)
    obtain t1 where t1: "linkNodes B key (last ids) (hd ids) t = Inr ((), t1)"
      "lcells key t1 = (lcells key t)(Next (last ids) := Some (hd ids), Prev (hd ids) := Some (last ids))"
      using linkNodes_run [OF p(5,4)] by blast
    obtain t2 where t2: "deleteNode B key n t1 = Inr ((), t2)" "lcells key t2 = (lcells key t1)(Junk n := None, Prev n := None, Next n := None)"
      using deleteNode_run [OF p(3)] by blast
    obtain t3 where t3: "listUpdateMeta B key (len - 1) (hd ids) (last ids) t2 = Inr ((), t3)"
      "lcells key t3 = (lcells key t2)(Len := Some (Uint64ToBytes (len - 1)), Start := Some (hd ids), End := Some (last ids))"
      using listUpdateMeta_run by blast
    have run: "listPopInTxn B key True t = Inr (v, t3)"
      using p e by (simp add: listPopInTxn_def cell_keys andThen_def bnd_def getCell listGetMetaTxn_run lm Let_def t1(1) t2(1) t3(1))
    have "chain (lcells key t2) ids vs"
      by (rule chain_rest [OF p(6) False p(7)]) (use p(3,7) in \<open>auto simp: t1(2) t2(2)\<close>)
    from list_at_meta [OF this ends_ok_tl(1) [OF ends False]] show ?thesis
      using run by (auto simp: t3(2) t2(2) t1(2) e(2))
  qed
qed

lemma listPopInTxn_right:
  assumes "chain (lcells key t) (ids @ [n]) (vs @ [v])" "ends_ok (lmeta (lcells key t)) (ids @ [n])"
  shows "\<exists>t'. listPopInTxn B key False t = Inr (v, t') \<and> list_at (lcells key t') vs
     \<and> (\<forall>m. lcells key t' (Val m) = lcells key t (Val m))"
proof -
  obtain len start fin where lm: "lmeta (lcells key t) = (len, start, fin)" by (cases "lmeta (lcells key t)")
  note ends = assms(2) [unfolded lm]
  show ?thesis
  proof (cases "ids = []")
    case True
    then have n: "node_id n" "lcells key t (Val n) = Some v" "vs = []" "len = 1" "fin = n"
      using assms(1) ends chain_length [OF assms(1)] by (auto simp: chain_single)
    obtain t1 where t1: "deleteNode B key n t = Inr ((), t1)" "lcells key t1 = (lcells key t)(Junk n := None, Prev n := None, Next n := None)"
      using deleteNode_run [OF n(1)] by blast
    obtain t2 where t2: "listUpdateMeta B key 0 [] [] t1 = Inr ((), t2)"
      "lcells key t2 = (lcells key t1)(Len := Some (Uint64ToBytes 0), Start := Some [], End := Some [])"
      using listUpdateMeta_run by blast
    have "listPopInTxn B key False t = Inr (v, t2)"
      using n by (simp add: listPopInTxn_def cell_keys andThen_def bnd_def getCell listGetMetaTxn_run lm Let_def t1(1) t2(1))
    then show ?thesis using emptied [of "lcells key t1"] unfolding t2(2) [symmetric] n(3) by (auto simp: t2(2) t1(2))
  next
    case False
    note p = chain_pop_right [OF assms(1) False]
    have e: "fin = n" "start = hd ids" "1 < len" "len \<noteq> 0"
      using ends False len_gt_1 [OF ends] ends_ok_0 [OF ends] by (auto simp: Suc_lessI)
    obtain t1 where t1: "linkNodes B key (last ids) (hd ids) t = Inr ((), t1)"
      "lcells key t1 = (lcells key t)(Next (last ids) := Some (hd ids), Prev (hd ids) := Some (last ids))"
      using linkNodes_run [OF p(5,4)] by blast
    obtain t2 where t2: "deleteNode B key n t1 = Inr ((), t2)" "lcells key t2 = (lcells key t1)(Junk n := None, Prev n := None, Next n := None)"
      using deleteNode_run [OF p(3)] by blast
    obtain t3 where t3: "listUpdateMeta B key (len - 1) (hd ids) (last ids) t2 = Inr ((), t3)"
      "lcells key t3 = (lcells key t2)(Len := Some (Uint64ToBytes (len - 1)), Start := Some (hd ids), End := Some (last ids))"
      using listUpdateMeta_run by blast
    have run: "listPopInTxn B key False t = Inr (v, t3)"
      using p e by (simp add: listPopInTxn_def cell_keys andThen_def bnd_def getCell listGetMetaTxn_run lm Let_def t1(1) t2(1) t3(1))
    have "chain (lcells key t2) ids vs"
      by (rule chain_rest [OF p(6) False p(7)]) (use p(3,7) in \<open>auto simp: t1(2) t2(2)\<close>)
    from list_at_meta [OF this ends_ok_tl(2) [OF ends False]] show ?thesis
      using run by (auto simp: t3(2) t2(2) t1(2) e(2))
  qed
qed

lemma regular_case_app: "(\<And>a b. regular (h a b z)) \<Longrightarrow> regular ((case p of (a, b) \<Rightarrow> h a b) z)"
  by (cases p) simp

lemma touches_case_app: "(\<And>a b. touches P (h a b z)) \<Longrightarrow> touches P ((case p of (a, b) \<Rightarrow> h a b) z)"
  by (cases p) simp

lemma regular_touches_free [intro]:
  "regular (tryCopy B i)" "regular (deleteQuiet B k)"
  by (auto simp: regular_def tryCopy_def cell_ops writes_upd)

lemma regular_list_meta [intro]: "regular (listGetMetaTxn B key)" "regular (getMeta B key)" "regular (checkListType B key)"
  unfolding listGetMetaTxn_def getMeta_def metaEnd_def checkListType_def
  by (intro regular_bnd regular_branches regular_ops regular_ret regular_fail regular_touches_free)+

lemma regular_list_parts [intro]:
  "regular (listUpdateMeta B key len start fin)" "regular (linkNodes B key p n)" "regular (deleteNode B key n)"
  "regular (createNode B n key v)"
  unfolding listUpdateMeta_def linkNodes_def deleteNode_def createNode_def
  by (intro regular_bnd regular_andThen regular_branches regular_forEach regular_ops regular_ret regular_touches_free)+

lemma regular_pushLoop [intro]: "regular (pushLoop B ids key toLeft i vals lm)"
proof (induction vals arbitrary: i lm)
  case (Cons val vals)
  obtain len start fin where lm: "lm = (len, start, fin)" by (cases lm)
  show ?case unfolding lm pushLoop.simps
    by (intro regular_bnd regular_andThen regular_branches regular_ops regular_list_parts Cons)
qed simp

lemma regular_pushBody [intro]: "regular (pushBody uuid B key toLeft vals c)"
  unfolding pushBody_def
  by (intro regular_bnd regular_andThen regular_branches regular_ops regular_ret regular_list_meta regular_list_parts regular_pushLoop)

lemma regular_pops [intro]:
  "regular (LPopNode B key lm)" "regular (RPopNode B key lm)" "regular (listPopInTxn B key left)"
  unfolding LPopNode_def RPopNode_def listPopInTxn_def Let_def
  by (intro regular_case_app regular_bnd regular_andThen regular_branches regular_ops regular_ret regular_list_meta regular_list_parts)+

lemma regular_popBody [intro]: "(\<And>lm. regular (node lm)) \<Longrightarrow> regular (popBody node B key c)"
  unfolding popBody_def
  by (intro regular_case_app regular_bnd regular_branches regular_ret regular_fail regular_list_meta) simp_all

lemma listPushInTxn_eq:
  "listPushInTxn newID B key v toLeft = bnd (pushBody (\<lambda>_ _. newID) B key toLeft [v] (0, 0)) (\<lambda>_. ret ())"
proof -
  have [simp]: "bnd m (\<lambda>x a. Inr ((), a)) = m" for m :: "('t, unit) tx"
    by (auto simp: fun_eq_iff bnd_def split: sum.splits)
  show ?thesis
    unfolding listPushInTxn_def pushBody_def andThen_def bnd_assoc
  proof (intro arg_cong2 [where f = bnd] refl ext, goal_cases)
    case (1 _ _ lm t)
    obtain len start fin where "lm = (len, start, fin)" by (cases lm)
    then show ?case by (cases "len = 0"; cases toLeft) (simp_all add: bnd_assoc andThen_def)
  qed
qed

lemma regular_moveTx [intro]: "regular (moveTx newID B source destination fromLeft toLeft)"
  unfolding moveTx_def listPushInTxn_eq
  by (intro regular_bnd regular_andThen regular_branches regular_ret regular_pops regular_pushBody)

lemma touches_pops [intro]:
  "touches (under_list key) (LPopNode B key lm)" "touches (under_list key) (RPopNode B key lm)"
  "touches (under_list key) (listPopInTxn B key left)"
  unfolding LPopNode_def RPopNode_def listPopInTxn_def Let_def owns_keys
  by (intro touches_case_app touches_intros touches_meta touches_parts under_listKey)+

text \<open>Following the links of a chain.\<close>

lemma chain_nth:
  assumes "chain g ids vs" "i < length ids"
  shows "g (Val (ids ! i)) = Some (vs ! i)" "node_id (ids ! i)"
    "Suc i < length ids \<Longrightarrow> g (Next (ids ! i)) = Some (ids ! Suc i)"
    "0 < i \<Longrightarrow> g (Prev (ids ! i)) = Some (ids ! (i - 1))"
proof -
  have m: "map (\<lambda>n. g (Val n)) ids = map Some vs" "map (\<lambda>n. g (Next n)) (butlast ids) = map Some (tl ids)"
    "map (\<lambda>n. g (Prev n)) (tl ids) = map Some (butlast ids)" using assms(1) unfolding chain_def by blast+
  show "g (Val (ids ! i)) = Some (vs ! i)"
    using arg_cong [OF m(1), of "\<lambda>xs. xs ! i"] assms(2) chain_length [OF assms(1)] by simp
  show "node_id (ids ! i)" using chain_ids [OF assms(1)] assms(2) by simp
  show "g (Next (ids ! i)) = Some (ids ! Suc i)" if "Suc i < length ids"
    using arg_cong [OF m(2), of "\<lambda>xs. xs ! i"] that nth_butlast [of i ids] by (simp add: nth_tl)
  show "g (Prev (ids ! i)) = Some (ids ! (i - 1))" if "0 < i"
    using arg_cong [OF m(3), of "\<lambda>xs. xs ! (i - 1)"] that assms(2) nth_butlast [of "i - 1" ids] by (simp add: nth_tl)
qed

lemma walk_next:
  assumes "chain (lcells key t) ids vs" "i + n < length ids" "set visited \<subseteq> set (take i ids)"
  shows "walk B (nextKey key) n visited (ids ! i) t = Inr (Some (ids ! (i + n)), t)"
  using assms
proof (induction n arbitrary: i visited)
  case (Suc n)
  have d: "distinct ids" using Suc.prems(1) by (simp add: chain_def)
  then have new: "ids ! i \<notin> set visited" using Suc.prems(2,3) by (auto simp: in_set_conv_nth nth_eq_iff_index_eq subset_iff)
  have "set (ids ! i # visited) \<subseteq> set (take (Suc i) ids)" using Suc.prems(2,3) by (auto simp: take_Suc_conv_app_nth)
  from Suc.IH [OF Suc.prems(1) _ this] Suc.prems(2) new chain_nth [OF Suc.prems(1), of i] show ?case
    by (simp add: bnd_def cell_keys getCell)
qed simp

lemma walk_prev:
  assumes "chain (lcells key t) ids vs" "i < length ids" "n \<le> i" "set visited \<subseteq> set (drop (Suc i) ids)"
  shows "walk B (prevKey key) n visited (ids ! i) t = Inr (Some (ids ! (i - n)), t)"
  using assms
proof (induction n arbitrary: i visited)
  case (Suc n)
  have d: "distinct ids" using Suc.prems(1) by (simp add: chain_def)
  then have new: "ids ! i \<notin> set visited" using Suc.prems(2,4) by (auto simp: in_set_conv_nth nth_eq_iff_index_eq subset_iff)
  have "drop i ids = ids ! i # drop (Suc i) ids" using Suc.prems(2) by (simp add: Cons_nth_drop_Suc)
  then have "set (ids ! i # visited) \<subseteq> set (drop (Suc (i - 1)) ids)" using Suc.prems(3,4) by auto
  from Suc.IH [OF Suc.prems(1) _ _ this] Suc.prems(2,3) new chain_nth [OF Suc.prems(1), of i] show ?case
    by (simp add: bnd_def cell_keys getCell)
qed simp

lemma walkValues_next:
  assumes "chain (lcells key t) ids vs" "i + n \<le> length ids" "set visited \<subseteq> set (take i ids)"
  shows "walkValues B key (nextKey key) n visited (ids ! i) t = Inr (take n (drop i vs), t)"
  using assms
proof (induction n arbitrary: i visited)
  case (Suc n)
  have d: "distinct ids" using Suc.prems(1) by (simp add: chain_def)
  then have new: "ids ! i \<notin> set visited" using Suc.prems(2,3) by (auto simp: in_set_conv_nth nth_eq_iff_index_eq subset_iff)
  have l: "i < length vs" using Suc.prems(2) chain_length [OF Suc.prems(1)] by simp
  have "set (ids ! i # visited) \<subseteq> set (take (Suc i) ids)" using Suc.prems(2,3) by (auto simp: take_Suc_conv_app_nth)
  from Suc.IH [OF Suc.prems(1) _ this] Suc.prems(2) new chain_nth [OF Suc.prems(1), of i] show ?case
    by (simp add: bnd_def cell_keys getCell Cons_nth_drop_Suc [OF l, symmetric])
qed simp

lemma walkValues_prev:
  assumes "chain (lcells key t) ids vs" "i < length ids" "n \<le> Suc i" "set visited \<subseteq> set (drop (Suc i) ids)"
  shows "walkValues B key (prevKey key) n visited (ids ! i) t = Inr (rev (take n (drop (Suc i - n) vs)), t)"
  using assms
proof (induction n arbitrary: i visited)
  case (Suc n)
  have d: "distinct ids" using Suc.prems(1) by (simp add: chain_def)
  then have new: "ids ! i \<notin> set visited" using Suc.prems(2,4) by (auto simp: in_set_conv_nth nth_eq_iff_index_eq subset_iff)
  have l: "i < length vs" using Suc.prems(2) chain_length [OF Suc.prems(1)] by simp
  have last: "rev (take (Suc n) (drop (i - n) vs)) = vs ! i # rev (take n (drop (i - n) vs))"
    using l Suc.prems(3) by (simp add: take_Suc_conv_app_nth)
  show ?case
  proof (cases n)
    case 0
    then show ?thesis using new chain_nth [OF Suc.prems(1,2)] last by (simp add: bnd_def cell_keys getCell)
  next
    case (Suc k)
    have "drop i ids = ids ! i # drop (Suc i) ids" using Suc.prems(2) by (simp add: Cons_nth_drop_Suc)
    then have "set (ids ! i # visited) \<subseteq> set (drop (Suc (i - 1)) ids)" using Suc.prems(3,4) Suc by auto
    from Suc.IH [OF Suc.prems(1) _ _ this] Suc.prems(2,3) Suc new chain_nth [OF Suc.prems(1), of i] last show ?thesis
      by (simp add: bnd_def cell_keys getCell)
  qed
qed simp

lemma cells_kept:
  assumes "touches P f" "f t = Inr (r, t')" "\<And>c. \<not> P (cellKey key c)"
  shows "lcells key t' = lcells key t"
  using touchesD [OF assms(1,2) assms(3)] by (simp add: cells_def fun_eq_iff)

lemma listPop_empty: "list_at (lcells key t) [] \<Longrightarrow> listPopInTxn B key left t = Inr ([], t)"
  by (auto simp: list_at_def listPopInTxn_def bnd_def listGetMetaTxn_run split: prod.splits)

lemma listPop_run:
  assumes "list_at (lcells key t) vs" "vs \<noteq> []"
  shows "\<exists>t'. listPopInTxn B key left t = Inr (end_of left vs, t') \<and> list_at (lcells key t') (rest_of left vs)
     \<and> (\<forall>m. lcells key t' (Val m) = lcells key t (Val m))"
proof -
  obtain ids where ids: "chain (lcells key t) ids vs" "ends_ok (lmeta (lcells key t)) ids"
    using assms(1) by (auto simp: list_at_def)
  have ne: "ids \<noteq> []" using ids(1) assms(2) by auto
  show ?thesis
  proof (cases left)
    case True
    obtain n ids' v vs' where "ids = n # ids'" "vs = v # vs'" using ne assms(2) by (cases ids; cases vs) auto
    with listPopInTxn_left [of t key n ids' v vs'] ids(1,2) True show ?thesis by (simp add: end_of_def rest_of_def)
  next
    case False
    obtain n ids' v vs' where "ids = ids' @ [n]" "vs = vs' @ [v]"
      using ne assms(2) by (cases ids rule: rev_cases; cases vs rule: rev_cases) auto
    with listPopInTxn_right [of t key ids' n vs' v] ids(1,2) False show ?thesis by (simp add: end_of_def rest_of_def)
  qed
qed

lemma listPush_run:
  assumes "list_at (lcells key t) vs" "fresh (lcells key t) [n]" "length vs + 1 < 2 ^ 63"
    "listPushInTxn n B key v left t = Inr (u, t')"
  shows "list_at (lcells key t') (added left [v] vs)"
proof -
  obtain c where "pushBody (\<lambda>_ _. n) B key left [v] (0, 0) t = Inr (c, t')"
    using assms(4) unfolding listPushInTxn_eq by (auto elim: bnd_InrE)
  from pushBody_run [OF assms(1) _ _ this] assms(2,3) show ?thesis by (simp add: added_def)
qed

lemma touches_listPush [intro]: "touches (owns key KeyTypeList) (listPushInTxn n B key v left)"
  unfolding listPushInTxn_eq by (intro touches_intros touches_pushBody)

lemma touches_moveTx: "touches (\<lambda>x. owns s KeyTypeList x \<or> owns d KeyTypeList x) (moveTx n B s d lf tlf)"
  unfolding moveTx_def
  by (intro touches_intros touches_mono [OF touches_pops(3)] touches_mono [OF touches_listPush]) (simp_all add: under_list_owns)

lemma data_eqI: "(\<And>x. P x \<Longrightarrow> m' x = m x) \<Longrightarrow> P x \<Longrightarrow> data m' x = data m x"
  by (simp add: data_def)

lemma moveTx_post:
  assumes "moveTx n B s d lf tlf t = Inr (x, t')" "n \<in> pool"
  shows "move_spec pool s d lf tlf (data (view t)) x (data (view t'))"
  unfolding move_spec_def cells_data
proof (intro conjI allI impI, goal_cases)
  case 1
  show ?case using touchesD [OF touches_moveTx assms(1)] by (auto simp: list_frame_def intro: data_eqI)
next
  case (2 vs ws)
  then have h: "list_at (lcells s t) vs" "list_at (lcells d t) ws" "length ws + 1 < 2 ^ 63" "s = d \<or> apart s d" "fresh (lcells d t) [n]"
    using assms(2) by auto
  show ?case
  proof (cases "vs = []")
    case True
    then show ?thesis using assms(1) listPop_empty [where key = s and t = t] h(1) by (auto simp: moveTx_def bnd_def)
  next
    case False
    obtain t1 where t1: "listPopInTxn B s lf t = Inr (end_of lf vs, t1)" "list_at (lcells s t1) (rest_of lf vs)"
        "\<forall>m. lcells s t1 (Val m) = lcells s t (Val m)" using listPop_run [OF h(1) False] by blast
    have x: "x = end_of lf vs" using assms(1) by (auto simp: moveTx_def bnd_def t1(1) andThen_def split: if_splits sum.splits)
    have d1: "lcells d t1 = lcells d t" if "apart s d"
      by (rule cells_kept [OF touches_pops(3) t1(1)]) (simp add: under_list_apart that)
    let ?ws = "if s = d then rest_of lf vs else ws"
    have l1: "list_at (lcells d t1) ?ws" using t1(2) h(2,4) d1 by auto
    show ?thesis
    proof (cases "x = []")
      case True
      then show ?thesis using assms(1) x t1(2) l1 False by (auto simp: moveTx_def bnd_def t1(1) added_def)
    next
      case ne: False
      then have push: "listPushInTxn n B d x tlf t1 = Inr ((), t')"
        using assms(1) x by (auto simp: moveTx_def bnd_def t1(1) andThen_def split: sum.splits)
      have "fresh (lcells d t1) [n]" using h(4,5) d1 t1(3) by (auto simp: fresh_def)
      moreover have "length ?ws + 1 < 2 ^ 63" using h(3) list_at_length [OF h(1)] False by (auto simp: rest_of_def)
      ultimately have l2: "list_at (lcells d t') (added tlf [x] ?ws)" using listPush_run [OF l1 _ _ push] by blast
      have "lcells s t' = lcells s t1" if "apart s d"
        by (rule cells_kept [OF touches_listPush push]) (simp add: under_list_apart apart_sym that)
      then show ?thesis using l2 t1(2) h(4) x False ne by (auto simp: Let_def dest: apart_neq)
    qed
  qed
qed

lemma pushBody_post:
  assumes "pushBody uuid B key left vals c t = Inr (c', t')"
  shows "push_spec uuid key left vals (data (view t)) (sint (fst c')) (data (view t'))"
  unfolding push_spec_def cells_data
proof (intro conjI allI impI, goal_cases)
  case 1
  show ?case using touchesD [OF touches_pushBody assms] by (auto simp: list_frame_def intro: data_eqI)
next
  case (2 vs)
  then show ?case using pushBody_run [OF _ _ _ assms, of vs] by (simp add: added_def)
next
  case (3 vs)
  then show ?case using pushBody_run [OF _ _ _ assms, of vs] sint_word_of_nat [of "length vs + length vals"] by simp
next
  case (4 vs)
  then show ?case using pushBody_run [OF _ _ _ assms, of vs] by simp
qed

abbreviation popNode :: "bytes \<Rightarrow> bool \<Rightarrow> list_meta \<Rightarrow> ('t, bytes) tx" where
  "popNode key left \<equiv> (if left then LPopNode B key else RPopNode B key)"

lemma popBody_empty: "list_at (lcells key t) [] \<Longrightarrow> popBody node B key c t = Inr (c, t)"
  by (auto simp: list_at_def popBody_def bnd_def listGetMetaTxn_run split: prod.splits)

lemma popBody_run:
  assumes "list_at (lcells key t) vs" "vs \<noteq> []"
  shows "\<exists>t'. popBody (popNode key left) B key c t = Inr (end_of left vs, t') \<and> list_at (lcells key t') (rest_of left vs)"
proof -
  obtain ids where ids: "chain (lcells key t) ids vs" "ends_ok (lmeta (lcells key t)) ids"
    using assms(1) by (auto simp: list_at_def)
  obtain len start fin where lm: "lmeta (lcells key t) = (len, start, fin)" by (cases "lmeta (lcells key t)")
  note ends = ids(2) [unfolded lm]
  have ne: "ids \<noteq> []" using ids(1) assms(2) by auto
  have run: "popBody (popNode key left) B key c t = popNode key left (len, start, fin) t"
    using ends_ok_0 [OF ends] ne by (simp add: popBody_def bnd_def listGetMetaTxn_run lm)
  show ?thesis
  proof (cases left)
    case True
    obtain n ids' v vs' where "ids = n # ids'" "vs = v # vs'" using ne assms(2) by (cases ids; cases vs) auto
    with LPopNode_run [of t key n ids' v vs'] ids(1) ends True run show ?thesis by (simp add: end_of_def rest_of_def)
  next
    case False
    obtain n ids' v vs' where "ids = ids' @ [n]" "vs = vs' @ [v]"
      using ne assms(2) by (cases ids rule: rev_cases; cases vs rule: rev_cases) auto
    with RPopNode_run [of t key ids' n vs' v] ids(1) ends False run show ?thesis by (simp add: end_of_def rest_of_def)
  qed
qed

lemma touches_popBody: "touches (owns key KeyTypeList) (popBody (popNode key left) B key c)"
  unfolding popBody_def
  by (cases left; intro touches_case_app touches_intros touches_meta)
    (auto intro: touches_mono [OF touches_pops(1)] touches_mono [OF touches_pops(2)] simp: under_list_owns)

text \<open>Whether a pop returns nothing is known before it runs: the data is the same for all its attempts.\<close>

lemma popBody_post:
  assumes "popBody (popNode key left) B key c t = Inr (c', t')" "list_at (cells (data (view t)) key) [] \<longrightarrow> c = []"
  shows "pop_spec key left (data (view t)) c' (data (view t')) \<and> (list_at (cells (data (view t)) key) [] \<longrightarrow> c' = [])"
proof -
  have "list_frame {key} (data (view t)) (data (view t'))"
    using touchesD [OF touches_popBody assms(1)] by (auto simp: list_frame_def intro: data_eqI)
  moreover have "c' = [] \<and> t' = t" if "list_at (lcells key t) []"
    using popBody_empty [OF that, of "popNode key left" c] assms that by simp
  ultimately show ?thesis using popBody_run [of t key _ left c] assms(1) by (fastforce simp: pop_spec_def)
qed

lemma pushBody_succeeds:
  assumes "list_at (lcells key t) vs" "fresh (lcells key t) (map (uuid (snd c)) [0..<length vals])"
    "length vs + length vals < 2 ^ 63" "map_option ival (view t (TypeOfKeyGet key)) \<in> {None, Some KeyTypeList}"
  shows "\<exists>c' t'. pushBody uuid B key left vals c t = Inr (c', t')"
proof -
  obtain ids where ids: "chain (lcells key t) ids vs" "ends_ok (lmeta (lcells key t)) ids"
    using assms(1) by (auto simp: list_at_def)
  let ?t1 = "upd t (TypeOfKeyGet key) (Some \<lparr>ival = KeyTypeList, iexp = 0\<rparr>)"
  have l: "length ids + length vals < 2 ^ 63" using assms(3) chain_length [OF ids(1)] by simp
  have "chain (lcells key ?t1) ids vs" "fresh (lcells key ?t1) (map (uuid (snd c)) [0..<0 + length vals])" using ids(1) assms(2) by simp_all
  from pushLoop_run [OF this(1) ids(2) this(2) l, of left] obtain t2 len start fin where
    loop: "pushLoop B (uuid (snd c)) key left 0 vals (lmeta (lcells key t)) ?t1 = Inr ((len, start, fin), t2)" by fastforce
  obtain t3 where "listUpdateMeta B key len start fin t2 = Inr ((), t3)" using listUpdateMeta_run by blast
  moreover have "checkListType B key t = Inr ((), t)" using assms(4) by (auto simp: checkListType_run)
  ultimately show ?thesis by (simp add: pushBody_def andThen_def bnd_def Set_run getMeta_run loop)
qed

text \<open>Reading by position.\<close>

lemma half_nonneg: "0 \<le> x \<Longrightarrow> half x = x div 2"
  by (simp add: half_def)

lemma i64_small: "- (2 ^ 63) \<le> x \<Longrightarrow> x < 2 ^ 63 \<Longrightarrow> i64 x = x"
  by (simp add: i64_def sint_u64)

lemma ends_sint: "ends_ok (len, start, fin) ids \<Longrightarrow> sint len = int (length ids)"
  by (simp add: sint_word_of_nat)

lemma getNodeByIndex_run:
  assumes "list_at (lcells key t) vs" "- (2 ^ 63) \<le> index" "index < 2 ^ 63"
  shows "\<exists>n. getNodeByIndex B key index t = Inr ((n, case at_index vs index of None \<Rightarrow> [] | Some v \<Rightarrow> v), t)
     \<and> (n = [] \<longleftrightarrow> at_index vs index = None)"
proof -
  obtain ids where ids: "chain (lcells key t) ids vs" "ends_ok (lmeta (lcells key t)) ids"
    using assms(1) by (auto simp: list_at_def)
  obtain len start fin where lm: "lmeta (lcells key t) = (len, start, fin)" by (cases "lmeta (lcells key t)")
  note ends = ids(2) [unfolded lm]
  have len: "sint len = int (length vs)" "length ids = length vs" using ends_sint [OF ends] chain_length [OF ids(1)] by simp_all
  have small: "length vs < 2 ^ 63" using list_at_length [OF assms(1)] .
  define idx where "idx = (if index < 0 then int (length vs) + index else index)"
  have i: "(if index < 0 then i64 (sint len + index) else index) = idx"
    using assms(2,3) small i64_small [of "int (length vs) + index"] by (simp add: idx_def len(1))
  have run: "getNodeByIndex B key index t = getNodeByIndexWithMeta B key index len start t"
    by (simp add: getNodeByIndex_def bnd_def getMeta_run lm)
  show ?thesis
  proof (cases "0 \<le> idx \<and> idx < int (length vs)")
    case False
    then have "at_index vs index = None" by (auto simp: at_index_def idx_def Let_def)
    moreover have "getNodeByIndexWithMeta B key index len start t = Inr (([], []), t)"
      using False unfolding getNodeByIndexWithMeta_def i Let_def by (auto simp: len(1))
    ultimately show ?thesis by (simp add: run)
  next
    case True
    define k where "k = nat idx"
    have k: "idx = int k" "k < length ids" using True len(2) by (auto simp: k_def nat_less_iff)
    have ne: "ids \<noteq> []" "len \<noteq> 0" using k(2) ends_ok_0 [OF ends] by auto
    have fst: "start = ids ! 0" "fin = ids ! (length ids - 1)" using ends ne(1) by (simp_all add: hd_conv_nth last_conv_nth)
    have "(if idx < half (sint len) then walk B (nextKey key) (nat idx) [] start
           else bnd (getMeta B key) (\<lambda>(_, _, fin). walk B (prevKey key) (nat (sint len - 1 - idx)) [] fin)) t = Inr (Some (ids ! k), t)"
    proof (cases "idx < half (sint len)")
      case True
      then show ?thesis using walk_next [OF ids(1), of 0 k "[]"] k by (simp add: fst(1))
    next
      case False
      have n: "nat (sint len - 1 - idx) = length ids - 1 - k" "length ids - Suc (length ids - Suc k) = k"
        using k len by (simp_all add: nat_diff_distrib)
      show ?thesis using False walk_prev [OF ids(1), of "length ids - 1" "length ids - 1 - k" "[]"] ne(1)
        by (simp add: bnd_def getMeta_run lm fst(2) n(1)) (simp add: n(2))
    qed
    then have "getNodeByIndexWithMeta B key index len start t = Inr ((ids ! k, vs ! k), t)"
      using True ne(2) chain_nth [OF ids(1) k(2)] unfolding getNodeByIndexWithMeta_def i Let_def
      by (simp add: len(1) bnd_def cell_keys getCell)
    moreover have "at_index vs index = Some (vs ! k)" using True by (auto simp: at_index_def idx_def Let_def k_def)
    ultimately show ?thesis using chain_nth(2) [OF ids(1) k(2)] by (auto simp: run node_id_def)
  qed
qed

lemma clampRange_run:
  assumes "sint len = int (length vs)" "length vs < 2 ^ 63" "- (2 ^ 63) \<le> start" "start < 2 ^ 63" "- (2 ^ 63) \<le> stop" "stop < 2 ^ 63"
  shows "clampRange len start stop =
    (max 0 (if start < 0 then int (length vs) + start else start),
     min (int (length vs) - 1) (if stop < 0 then int (length vs) + stop else stop))"
  using assms i64_small [of "int (length vs) + start"] i64_small [of "int (length vs) + stop"]
  by (auto simp: clampRange_def Let_def)

lemma lRange_run:
  assumes "list_at (lcells key t) vs" "lmeta (lcells key t) = (len, startID, endID)" "vs \<noteq> []"
    "0 \<le> s" "s \<le> p" "p < int (length vs)"
  shows "lRangeForward B key s p startID t = Inr (take (nat (p - s + 1)) (drop (nat s) vs), t)"
    "lRangeReverse B key p (p - s + 1) len endID t = Inr (take (nat (p - s + 1)) (drop (nat s) vs), t)"
proof -
  obtain ids where ids: "chain (lcells key t) ids vs" "ends_ok (len, startID, endID) ids"
    using assms(1,2) by (auto simp: list_at_def)
  have len: "sint len = int (length ids)" "length ids = length vs" using ends_sint [OF ids(2)] chain_length [OF ids(1)] by simp_all
  have ne: "ids \<noteq> []" using len(2) assms(3) by auto
  have fst: "startID = ids ! 0" "endID = ids ! (length ids - 1)" using ids(2) ne by (simp_all add: hd_conv_nth last_conv_nth)
  define i j where "i = nat s" and "j = nat p"
  have ij: "s = int i" "p = int j" "i \<le> j" "j < length ids" "nat (p - s + 1) = Suc j - i"
    using assms(4-6) len(2) by (auto simp: i_def j_def nat_diff_distrib nat_add_distrib)
  have "walk B (nextKey key) i [] (ids ! 0) t = Inr (Some (ids ! i), t)"
    using walk_next [OF ids(1), of 0 i "[]"] ij by simp
  moreover have "walkValues B key (nextKey key) (Suc j - i) [] (ids ! i) t = Inr (take (Suc j - i) (drop i vs), t)"
    using walkValues_next [OF ids(1), of i "Suc j - i" "[]"] ij by simp
  ultimately show "lRangeForward B key s p startID t = Inr (take (nat (p - s + 1)) (drop (nat s) vs), t)"
    unfolding lRangeForward_def fst(1) bnd_def ij(5) by (simp add: i_def)
  have l1: "sint (len - 1) = int (length ids - 1)"
  proof -
    have "len - 1 = word_of_nat (length ids - 1)" using ids(2) ne by (cases ids) auto
    moreover have "length ids - 1 < 2 ^ 63" using ids(2) by (simp add: less_imp_diff_less)
    ultimately show ?thesis by (metis sint_word_of_nat)
  qed
  have steps: "nat (sint (len - 1) - p) = length ids - 1 - j" "length ids - 1 - (length ids - 1 - j) = j"
    using ij by (simp_all add: l1 nat_diff_distrib)
  have "walk B (prevKey key) (length ids - 1 - j) [] (ids ! (length ids - 1)) t = Inr (Some (ids ! j), t)"
    using walk_prev [OF ids(1), of "length ids - 1" "length ids - 1 - j" "[]", unfolded steps(2)] ne by simp
  moreover have "walkValues B key (prevKey key) (Suc j - i) [] (ids ! j) t = Inr (rev (take (Suc j - i) (drop i vs)), t)"
    using walkValues_prev [OF ids(1) ij(4), of "Suc j - i" "[]"] ij(3) by simp
  ultimately show "lRangeReverse B key p (p - s + 1) len endID t = Inr (take (nat (p - s + 1)) (drop (nat s) vs), t)"
    unfolding lRangeReverse_def steps(1) fst(2) bnd_def ij(5) by (simp add: i_def)
qed

end

text \<open>The three reads as bodies of a read-only transaction.\<close>

definition list_typed :: "(bytes \<rightharpoonup> item) \<Rightarrow> bytes \<Rightarrow> bool" where
  "list_typed m key \<longleftrightarrow> map_option ival (m (TypeOfKeyGet key)) \<in> {None, Some KeyTypeList}"

context badger_db
begin

lemma list_reads:
  assumes "m = data (snap (db st) MaxUint64)" "list_at (cells m key) vs" "list_typed m key"
    "- (2 ^ 63) \<le> start" "start < 2 ^ 63" "- (2 ^ 63) \<le> stop" "stop < 2 ^ 63"
  shows "LLen B D key st = Inr (word_of_nat (length vs))"
    and "LIndex B D key start st = Inr (case at_index vs start of None \<Rightarrow> [] | Some v \<Rightarrow> v)"
    and "LRange B D key start stop st = Inr (slice vs start stop)"
proof -
  let ?t = "newTransactionAt D (db st) MaxUint64"
  have l: "list_at (lcells key ?t) vs" using assms(1,2) by (simp add: new_view)
  have ty: "checkListType B key ?t = Inr ((), ?t)" "checkKeyType B key KeyTypeList ?t = Inr ((), ?t)"
    using assms(1,3) by (auto simp: list_typed_def checkListType_run checkKeyType_def bnd_def lookupValue_run new_view)
  obtain ids where ids: "chain (lcells key ?t) ids vs" "ends_ok (lmeta (lcells key ?t)) ids"
    using l by (auto simp: list_at_def)
  obtain len startID endID where lm: "lmeta (lcells key ?t) = (len, startID, endID)" by (cases "lmeta (lcells key ?t)")
  note ends = ids(2) [unfolded lm]
  have len: "sint len = int (length vs)" "len = word_of_nat (length vs)" using ends_sint [OF ends] ends chain_length [OF ids(1)] by simp_all
  have "bnd (lookupValue B (listKey key [''length''])) (\<lambda>r. case r of None \<Rightarrow> ret 0 | Some v \<Rightarrow> ret (BytesToUint64 v)) ?t = Inr (len, ?t)"
    using lm by (auto simp: cell_keys bnd_def lookupValue_run lmeta_def cells_def split: option.splits)
  then show "LLen B D key st = Inr (word_of_nat (length vs))"
    by (simp add: LLen_def View_def andThen_def bnd_run [of "checkListType B key", OF ty(1)] len(2))
  show "LIndex B D key start st = Inr (case at_index vs start of None \<Rightarrow> [] | Some v \<Rightarrow> v)"
    using getNodeByIndex_run [OF l assms(4,5)] by (auto simp: LIndex_def View_def andThen_def ty(2) bnd_def)
  define s where "s = max 0 (if start < 0 then int (length vs) + start else start)"
  define p where "p = min (int (length vs) - 1) (if stop < 0 then int (length vs) + stop else stop)"
  have c: "clampRange len start stop = (s, p)"
    unfolding s_def p_def by (rule clampRange_run [OF len(1) list_at_length [OF l] assms(4-7)])
  have sl: "slice vs start stop = take (nat (p - s + 1)) (drop (nat s) vs)" by (simp add: slice_def s_def p_def Let_def)
  have "0 \<le> s" "p < int (length vs)" by (simp_all add: s_def p_def)
  note rng = lRange_run [OF l lm _ this(1) _ this(2)]
  show "LRange B D key start stop st = Inr (slice vs start stop)"
  proof (cases "len = 0 \<or> s > p")
    case True
    then have "vs = [] \<or> s > p" using ends_ok_0 [OF ends] chain_length [OF ids(1)] by auto
    then have "slice vs start stop = []" unfolding sl by auto
    then show ?thesis using True by (auto simp: LRange_def View_def andThen_def ty(2) bnd_def listGetMetaTxn_run lm c)
  next
    case False
    then have "vs \<noteq> []" "s \<le> p" using ends_ok_0 [OF ends] chain_length [OF ids(1)] by auto
    from rng [OF this] False show ?thesis
      by (simp add: LRange_def View_def andThen_def ty(2) bnd_def listGetMetaTxn_run getMeta_run lm c sl)
  qed
qed

text \<open>An invariant of the captured variables carries what a body says of one run to the committed update.\<close>

lemma retryUpdate_post_inv:
  assumes "writable D st" "\<And>c. regular (fn c)" "retryUpdate E B D fn 30 lv c st = (r, c', st')" "I c"
    and "\<And>c t c' t'. I c \<Longrightarrow> data (view t) = data (snap (db st) MaxUint64) \<Longrightarrow> fn c t = Inr (c', t')
           \<Longrightarrow> P (data (view t)) c' (data (view t')) \<and> I c'"
  shows "case r of Inl e \<Rightarrow> data (snap (db st') MaxUint64) = data (snap (db st) MaxUint64)
    | Inr u \<Rightarrow> P (data (snap (db st) MaxUint64)) c' (data (snap (db st') MaxUint64))"
  using assms(1-4)
proof (cases rule: retryUpdate_cases)
  case (inv c t c' t')
  then show ?case using assms(5) by blast
next
  case (success c0 t0 t1)
  from assms(5) [OF success(2,4,3)] show ?thesis unfolding success(1,4,5) by simp
qed simp_all

end

end
