(* ===== verification/ListProps.thy ===== *)
theory ListProps
  imports ListChain
begin

text \<open>
  The properties of the list commands, over any engine that meets the contract, and a command that
  does not keep the chain: \<^verbatim>\<open>LINSERT\<close> trusts the links at the outer ends, which pushes leave stale or unwritten.
\<close>

section \<open>A sample list\<close>

definition sample_list :: "(bytes \<times> item) list" where
  "sample_list = [(TypeOfKeyGet ''l'', plain KeyTypeList), (cellKey ''l'' Len, plain (Uint64ToBytes 2)),
     (cellKey ''l'' Start, plain ''n1''), (cellKey ''l'' End, plain ''n2''),
     (cellKey ''l'' (Val ''n1''), plain ''a''), (cellKey ''l'' (Val ''n2''), plain ''b''),
     (cellKey ''l'' (Next ''n1''), plain ''n2''), (cellKey ''l'' (Prev ''n2''), plain ''n1'')]"

lemma sample_ids: "node_id ''n1''" "node_id ''n2''" "node_id ''n3''"
  by (simp_all add: node_id_def)

lemma sample_cells:
  "cells (map_of sample_list) ''l'' = Map.empty (Len \<mapsto> Uint64ToBytes 2, Start \<mapsto> ''n1'', End \<mapsto> ''n2'', Val ''n1'' \<mapsto> ''a'',
     Val ''n2'' \<mapsto> ''b'', Next ''n1'' \<mapsto> ''n2'', Prev ''n2'' \<mapsto> ''n1'')"
proof
  fix c
  show "cells (map_of sample_list) ''l'' c = (Map.empty (Len \<mapsto> Uint64ToBytes 2, Start \<mapsto> ''n1'', End \<mapsto> ''n2'', Val ''n1'' \<mapsto> ''a'',
     Val ''n2'' \<mapsto> ''b'', Next ''n1'' \<mapsto> ''n2'', Prev ''n2'' \<mapsto> ''n1'')) c"
    using sample_ids by (cases "good_cell c") (auto simp: cells_def sample_list_def)
qed

lemma sample_list_at: "list_at (cells (map_of sample_list) ''l'') [''a'', ''b'']"
  unfolding list_at_def
  by (rule exI [of _ "[''n1'', ''n2'']"]) (simp add: sample_cells chain_def sample_ids lmeta_def)

lemma sample_fresh: "fresh (cells (map_of sample_list) ''l'') [''n3'']"
  by (simp add: fresh_def sample_ids sample_cells)

lemma sample_list_type: "map_of sample_list (TypeOfKeyGet ''l'') = Some (plain KeyTypeList)"
  by (simp add: sample_list_def)

abbreviation list_tx :: kv_txn where
  "list_tx \<equiv> newTransactionAt kv_db_ops (db (kv_with sample_list)) MaxUint64"

lemma list_tx_view [simp]: "kv_view list_tx = map_of sample_list"
  by (simp add: kvd.new_view kv_with_snap)

lemma sample_list_data: "data (map_of sample_list) = map_of sample_list"
  by (rule ext) (auto simp: data_def sample_list_def)

section \<open>Properties\<close>

text \<open>C4 \<^verbatim>\<open>LPUSH\<close> and \<^verbatim>\<open>RPUSH\<close> refine adding at the ends of a list: on records that represent a list of values, with
  names for the new nodes that are not in use, a committed push represents the values added one after the
  other at the left or at the right end, answers the new length, makes the key a list and changes no record
  of another key. A failed one changes nothing.\<close>

theorem List_push:
  assumes "badger_db B view upd now D snap pend" "writable D st" "m = data (snap (db st) MaxUint64)"
    and "LPush uuid E B D key vals st = (rl, nl, stl)" "ml = data (snap (db stl) MaxUint64)"
    and "RPush uuid E B D key vals st = (rr, nr, str)" "mr = data (snap (db str) MaxUint64)"
  shows "(case rl of Inl e \<Rightarrow> ml = m | Inr u \<Rightarrow> push_spec uuid key True vals m nl ml)
    \<and> (case rr of Inl e \<Rightarrow> mr = m | Inr u \<Rightarrow> push_spec uuid key False vals m nr mr)"
proof -
  have tx: "badger_txn B view upd now" using assms(1) by (rule badger_db.axioms)
  have push: "case r of Inl e \<Rightarrow> data (snap (db st') MaxUint64) = m
      | Inr u \<Rightarrow> push_spec uuid key left vals m (sint (fst c)) (data (snap (db st') MaxUint64))"
    if "retryUpdate E B D (pushBody uuid B key left vals) 30 lv (0, 0) st = (r, c, st')" for left lv r c st'
    unfolding assms(3)
    by (rule badger_db.retryUpdate_post [where P = "\<lambda>m c. push_spec uuid key left vals m (sint (fst c))",
          OF assms(1,2) badger_txn.regular_pushBody [OF tx] that])
      (rule badger_txn.pushBody_post [OF tx])
  obtain cl where l: "retryUpdate E B D (pushBody uuid B key True vals) 30 [encodePropagateStringArgs ''LPUSH'' (key # vals)] (0, 0) st
      = (rl, cl, stl)" "nl = sint (fst cl)" using assms(4) by (auto simp: LPush_def split: prod.splits)
  obtain cr where r: "retryUpdate E B D (pushBody uuid B key False vals) 30 [encodePropagateStringArgs ''RPUSH'' (key # vals)] (0, 0) st
      = (rr, cr, str)" "nr = sint (fst cr)" using assms(6) by (auto simp: RPush_def split: prod.splits)
  show ?thesis unfolding assms(5,7) l(2) r(2) by (rule conjI [OF push [OF l(1)] push [OF r(1)]])
qed

lemma kv_push_first:
  "\<exists>n c' st'. retryUpdate env0 kv_ops kv_db_ops (pushBody (\<lambda>a i. ''n3'') kv_ops ''l'' left [''x'']) 30 lv (0, 0) (kv_with sample_list)
     = (Inr (), (n, c'), st')"
proof -
  obtain n c' t' where "pushBody (\<lambda>a i. ''n3'') kv_ops ''l'' left [''x''] (0, 0) list_tx = Inr ((n, c'), t')"
    using kv.pushBody_succeeds [of list_tx "''l''" "[''a'', ''b'']" "\<lambda>a i. ''n3''" "(0, 0)" "[''x'']" left]
      sample_list_at sample_fresh by (auto simp: sample_list_type)
  from kv_update_first_eager [of "pushBody (\<lambda>a i. ''n3'') kv_ops ''l'' left [''x'']", OF this] show ?thesis by blast
qed

theorem List_push_witness:
  "\<exists>stl str. LPush (\<lambda>a i. ''n3'') env0 kv_ops kv_db_ops ''l'' [''x''] (kv_with sample_list) = (Inr (), 3, stl)
     \<and> RPush (\<lambda>a i. ''n3'') env0 kv_ops kv_db_ops ''l'' [''x''] (kv_with sample_list) = (Inr (), 3, str)
     \<and> list_at (cells (data (kv_snap (db stl) MaxUint64)) ''l'') [''x'', ''a'', ''b'']
     \<and> list_at (cells (data (kv_snap (db str) MaxUint64)) ''l'') [''a'', ''b'', ''x'']"
proof -
  obtain nl stl nr str where
    run: "LPush (\<lambda>a i. ''n3'') env0 kv_ops kv_db_ops ''l'' [''x''] (kv_with sample_list) = (Inr (), nl, stl)"
      "RPush (\<lambda>a i. ''n3'') env0 kv_ops kv_db_ops ''l'' [''x''] (kv_with sample_list) = (Inr (), nr, str)"
    using kv_push_first [of True "[encodePropagateStringArgs ''LPUSH'' [''l'', ''x'']]"]
      kv_push_first [of False "[encodePropagateStringArgs ''RPUSH'' [''l'', ''x'']]"] by (auto simp: LPush_def RPush_def)
  have pre: "list_at (cells (data (kv_snap (db (kv_with sample_list)) MaxUint64)) ''l'') [''a'', ''b'']"
    "\<forall>a. fresh (cells (data (kv_snap (db (kv_with sample_list)) MaxUint64)) ''l'') (map ((\<lambda>a i. ''n3'') a) [0..<length [''x'']])"
    using sample_list_at sample_fresh by (simp_all add: kv_with_snap)
  from List_push [OF kvd.badger_db_axioms kv_with_writable refl run(1) refl run(2) refl] show ?thesis
    using run pre unfolding push_spec_def by (auto simp: added_def)
qed

text \<open>C5 \<^verbatim>\<open>LPOP\<close> and \<^verbatim>\<open>RPOP\<close> refine removing the first and the last element: on records that represent a list of
  values a committed pop answers that element and the records represent the rest; on an empty list it
  answers nothing and changes nothing. No record of another key changes. A failed one changes nothing.\<close>

theorem List_pop:
  assumes "badger_db B view upd now D snap pend" "writable D st" "m = data (snap (db st) MaxUint64)"
    and "LPop E B D key st = (rl, xl, stl)" "ml = data (snap (db stl) MaxUint64)"
    and "RPop E B D key st = (rr, xr, str)" "mr = data (snap (db str) MaxUint64)"
  shows "(case rl of Inl e \<Rightarrow> ml = m | Inr u \<Rightarrow> pop_spec key True m xl ml)
    \<and> (case rr of Inl e \<Rightarrow> mr = m | Inr u \<Rightarrow> pop_spec key False m xr mr)"
proof -
  have tx: "badger_txn B view upd now" using assms(1) by (rule badger_db.axioms)
  note node = badger_txn.regular_pops(1,2) [OF tx]
  have pop: "case r of Inl e \<Rightarrow> data (snap (db st') MaxUint64) = m | Inr u \<Rightarrow> pop_spec key left m x (data (snap (db st') MaxUint64))"
    if "retryUpdate E B D (popBody (if left then LPopNode B key else RPopNode B key) B key) 30 lv [] st = (r, x, st')" for left lv r x st'
  proof -
    let ?I = "\<lambda>c. list_at (cells m key) [] \<longrightarrow> c = []"
    have step: "pop_spec key left (data (view t)) c' (data (view t')) \<and> ?I c'"
      if "?I c" "data (view t) = data (snap (db st) MaxUint64)"
        "popBody (if left then LPopNode B key else RPopNode B key) B key c t = Inr (c', t')" for c t c' t'
      using badger_txn.popBody_post [OF tx that(3)] that(1) unfolding assms(3) that(2) by blast
    have reg: "badger_txn.regular upd (popBody (if left then LPopNode B key else RPopNode B key) B key c)" for c
      by (rule badger_txn.regular_popBody [OF tx]) (simp add: node)
    show ?thesis unfolding assms(3)
      by (rule badger_db.retryUpdate_post_inv [where P = "pop_spec key left" and I = ?I, OF assms(1,2) reg that]) (simp, rule step)
  qed
  have "case rl of Inl e \<Rightarrow> ml = m | Inr u \<Rightarrow> pop_spec key True m xl ml"
  proof (cases "checkTypeBeforeOp B D key KeyTypeList st")
    case (Inl e)
    then have "rl = Inl e" "stl = st" using assms(4) by (auto simp: LPop_def)
    then show ?thesis by (simp add: assms(3,5))
  next
    case (Inr u)
    then show ?thesis using pop [where left = True, unfolded if_True] assms(4) unfolding LPop_def assms(5) by simp
  qed
  moreover have "case rr of Inl e \<Rightarrow> mr = m | Inr u \<Rightarrow> pop_spec key False m xr mr"
  proof (cases "checkTypeBeforeOp B D key KeyTypeList st")
    case (Inl e)
    then have "rr = Inl e" "str = st" using assms(6) by (auto simp: RPop_def)
    then show ?thesis by (simp add: assms(3,7))
  next
    case (Inr u)
    then show ?thesis using pop [where left = False, unfolded if_False] assms(6) unfolding RPop_def assms(7) by simp
  qed
  ultimately show ?thesis by blast
qed

lemma kv_pop_first:
  "\<exists>st'. retryUpdate env0 kv_ops kv_db_ops (popBody (kv.popNode ''l'' left) kv_ops ''l'') 30 lv [] (kv_with sample_list)
     = (Inr (), end_of left [''a'', ''b''], st')"
proof -
  obtain t' where "popBody (kv.popNode ''l'' left) kv_ops ''l'' [] list_tx = Inr (end_of left [''a'', ''b''], t')"
    using kv.popBody_run [of list_tx "''l''" "[''a'', ''b'']" left "[]"] sample_list_at by auto
  from kv_update_first_eager [of "popBody (kv.popNode ''l'' left) kv_ops ''l''", OF this] show ?thesis by blast
qed

lemma kv_check_list: "checkTypeBeforeOp kv_ops kv_db_ops ''l'' KeyTypeList (kv_with sample_list) = Inr ()"
  by (simp add: checkTypeBeforeOp_def View_def checkKeyType_def bnd_def kv.lookupValue_run sample_list_type)

lemma pop_specD:
  "pop_spec key left m x m' \<Longrightarrow> list_at (cells m key) vs \<Longrightarrow> vs \<noteq> [] \<Longrightarrow> x = end_of left vs \<and> list_at (cells m' key) (rest_of left vs)"
  unfolding pop_spec_def by metis

theorem List_pop_witness:
  "\<exists>stl str. LPop env0 kv_ops kv_db_ops ''l'' (kv_with sample_list) = (Inr (), ''a'', stl)
     \<and> RPop env0 kv_ops kv_db_ops ''l'' (kv_with sample_list) = (Inr (), ''b'', str)
     \<and> list_at (cells (data (kv_snap (db stl) MaxUint64)) ''l'') [''b'']
     \<and> list_at (cells (data (kv_snap (db str) MaxUint64)) ''l'') [''a'']"
proof -
  obtain stl str where
    run: "LPop env0 kv_ops kv_db_ops ''l'' (kv_with sample_list) = (Inr (), ''a'', stl)"
      "RPop env0 kv_ops kv_db_ops ''l'' (kv_with sample_list) = (Inr (), ''b'', str)"
    using kv_pop_first [of True "[encodePropagateCommand [''LPOP'', ''l'']]"]
      kv_pop_first [of False "[encodePropagateCommand [''RPOP'', ''l'']]"] by (auto simp: LPop_def RPop_def kv_check_list end_of_def)
  have pre: "list_at (cells (data (kv_snap (db (kv_with sample_list)) MaxUint64)) ''l'') [''a'', ''b'']"
    using sample_list_at by (simp add: kv_with_snap)
  note pop = List_pop [OF kvd.badger_db_axioms kv_with_writable refl run(1) refl run(2) refl, unfolded sum.case]
  from pop_specD [OF conjunct1 [OF pop] pre] pop_specD [OF conjunct2 [OF pop] pre] run show ?thesis by (simp add: rest_of_def)
qed


context badger_txn
begin

lemma moveTx_rotates:
  assumes "list_at (lcells key t) vs" "vs \<noteq> []" "end_of lf vs \<noteq> []" "fresh (lcells key t) [n]"
    "map_option ival (view t (TypeOfKeyGet key)) \<in> {None, Some KeyTypeList}"
  shows "\<exists>t'. moveTx n B key key lf tlf t = Inr (end_of lf vs, t')"
proof -
  obtain t1 where t1: "listPopInTxn B key lf t = Inr (end_of lf vs, t1)" "list_at (lcells key t1) (rest_of lf vs)"
    "\<forall>m. lcells key t1 (Val m) = lcells key t (Val m)" using listPop_run [OF assms(1,2)] by blast
  have "view t1 (TypeOfKeyGet key) = view t (TypeOfKeyGet key)" by (rule touchesD [OF touches_pops(3) t1(1)]) simp
  moreover have "fresh (lcells key t1) [n]" using assms(4) t1(3) by (simp add: fresh_def)
  moreover have "length (rest_of lf vs) + 1 < 2 ^ 63" using list_at_length [OF assms(1)] assms(2) by (auto simp: rest_of_def)
  ultimately obtain c' t' where "pushBody (\<lambda>_ _. n) B key tlf [end_of lf vs] (0, 0) t1 = Inr (c', t')"
    using pushBody_succeeds [OF t1(2), of "\<lambda>_ _. n" "(0, 0)" "[end_of lf vs]" tlf] assms(5) by auto
  then show ?thesis using assms(3) by (simp add: moveTx_def listPushInTxn_eq bnd_def andThen_def t1(1))
qed

end

lemma move_specD:
  assumes "move_spec pool key key lf tlf m x m'" "list_at (cells m key) vs" "vs \<noteq> []" "\<forall>n \<in> pool. fresh (cells m key) [n]"
    "length vs + 1 < 2 ^ 63" "x \<noteq> []"
  shows "list_at (cells m' key) (added tlf [x] (rest_of lf vs))"
proof -
  have "\<forall>vs ws. list_at (cells m key) vs \<and> list_at (cells m key) ws \<and> length ws + 1 < 2 ^ 63 \<and> (key = key \<or> apart key key)
        \<and> (\<forall>n \<in> pool. fresh (cells m key) [n]) \<longrightarrow>
       (if vs = [] then x = [] \<and> m' = m
        else x = end_of lf vs \<and>
          (let back = (if x = [] then [] else [x])
           in if key = key then list_at (cells m' key) (added tlf back (rest_of lf vs))
              else list_at (cells m' key) (rest_of lf vs) \<and> list_at (cells m' key) (added tlf back ws)))"
    using assms(1) unfolding move_spec_def by (rule conjunct2)
  from this [rule_format, of vs vs] assms(2-6) show ?thesis by force
qed


text \<open>C0 The reads agree with the list: on records that represent a list of values \<^verbatim>\<open>LLEN\<close> answers its length, \<^verbatim>\<open>LINDEX\<close>
  the element at a position counted from either end (nothing outside), and \<^verbatim>\<open>LRANGE\<close> the slice between two
  such positions, whether the code walks the chain forwards or backwards, for all \<^verbatim>\<open>int64\<close> arguments.\<close>

theorem List_reads:
  assumes "badger_db B view upd now D snap pend" "m = data (snap (db st) MaxUint64)" "list_at (cells m key) vs" "list_typed m key"
    and "- (2 ^ 63) \<le> start" "start < 2 ^ 63" "- (2 ^ 63) \<le> stop" "stop < 2 ^ 63"
  shows "LLen B D key st = Inr (word_of_nat (length vs))
    \<and> LIndex B D key start st = Inr (case at_index vs start of None \<Rightarrow> [] | Some v \<Rightarrow> v)
    \<and> LRange B D key start stop st = Inr (slice vs start stop)"
  using badger_db.list_reads [OF assms(1) assms(2-8)] by blast

theorem List_reads_witness:
  "LLen kv_ops kv_db_ops ''l'' (kv_with sample_list) = Inr 2
   \<and> LIndex kv_ops kv_db_ops ''l'' (- 1) (kv_with sample_list) = Inr ''b''
   \<and> LRange kv_ops kv_db_ops ''l'' (- 1) 5 (kv_with sample_list) = Inr [''b'']"
proof -
  have pre: "list_at (cells (data (kv_snap (db (kv_with sample_list)) MaxUint64)) ''l'') [''a'', ''b'']"
    "list_typed (data (kv_snap (db (kv_with sample_list)) MaxUint64)) ''l''"
    using sample_list_at by (simp_all add: kv_with_snap list_typed_def sample_list_type)
  from List_reads [OF kvd.badger_db_axioms refl pre, of "- 1" 5] show ?thesis by (simp add: at_index_def slice_def)
qed

section \<open>Commands that trust the outer links\<close>

text \<open>The records after \<^verbatim>\<open>RPUSH key a b\<close> on a key that holds nothing: the first node is its own predecessor.\<close>

definition pair_cells :: "bytes \<Rightarrow> bytes \<Rightarrow> bytes \<Rightarrow> bytes \<Rightarrow> cell \<Rightarrow> bytes option" where
  "pair_cells n1 n2 a b = Map.empty (Val n1 \<mapsto> a, Val n2 \<mapsto> b, Next n1 \<mapsto> n2, Prev n1 \<mapsto> n1, Prev n2 \<mapsto> n1,
     Len \<mapsto> Uint64ToBytes 2, Start \<mapsto> n1, End \<mapsto> n2)"

context badger_txn
begin

lemma pushed_pair:
  assumes "lcells key t = Map.empty" "map_option ival (view t (TypeOfKeyGet key)) \<in> {None, Some KeyTypeList}"
    and "uuid (snd c) 0 = n1" "uuid (snd c) 1 = n2" "node_id n1" "node_id n2" "n1 \<noteq> n2"
  shows "\<exists>t'. pushBody uuid B key False [a, b] c t = Inr ((2, Suc (snd c)), t') \<and> lcells key t' = pair_cells n1 n2 a b"
proof -
  have ty: "checkListType B key t = Inr ((), t)" using assms(2) by (auto simp: checkListType_run)
  have "lmeta Map.empty = (0, [], [])" by (simp add: lmeta_def)
  moreover have "n1 \<noteq> []" "n2 \<noteq> []" using assms(5,6) by (simp_all add: node_id_def)
  ultimately show ?thesis using assms(1,3-7)
    by (simp add: pushBody_def andThen_def bnd_def ty Set_run getMeta_run createNode_def linkNodes_def cell_keys cell_ops listUpdateMeta_def
        pair_cells_def) (auto simp: fun_eq_iff)
qed

text \<open>\<^verbatim>\<open>LINSERT BEFORE\<close> the first element links the new node from the stale predecessor: the first two nodes point at
  each other, the second element is lost and no list is represented.\<close>

lemma LInsert_before_head_cycle:
  assumes "lcells key t = pair_cells n1 n2 a b" "node_id n1" "node_id n2" "node_id n3" "distinct [n1, n2, n3]" "uuid (snd c) = n3"
  shows "\<exists>t'. linsertBody uuid B key ''BEFORE'' a x c t = Inr ((3, Suc (snd c)), t')
    \<and> lcells key t' Start = Some n3 \<and> lcells key t' (Next n3) = Some n1 \<and> lcells key t' (Next n1) = Some n3"
proof -
  have ne: "n1 \<noteq> []" "n2 \<noteq> []" "n3 \<noteq> []" using assms(2-4) by (simp_all add: node_id_def)
  have v: "lcells key t (Val n1) = Some a" "lcells key t (Prev n1) = Some n1" using assms(1,5) by (simp_all add: pair_cells_def)
  obtain i where i: "view t (cellKey key (Val n1)) = Some i" "ival i = a" using v(1) assms(2) by (auto simp: cells_def)
  have p: "findPivot B key a 2 [] n1 t = Inr (n1, t)"
    unfolding numeral_2_eq_2 by (simp add: bnd_def cell_keys tryGet_run ValueCopy_run i)
  have "lookupValue B (cellKey key (Prev n1)) (upd t (cellKey key (Val n3)) y) = Inr (Some n1, upd t (cellKey key (Val n3)) y)" for y
    using v(2) assms(2,4) by (simp add: lookupValue_run view_upd cells_def cellKey_eq)
  then show ?thesis using assms(2-6) ne
    by (simp add: linsertBody_def andThen_def bnd_def listGetMetaTxn_run getMeta_run assms(1) p createNode_def linkNodes_def cell_keys
        cell_ops listUpdateMeta_def lmeta_def pair_cells_def i64_def)
qed

text \<open>\<^verbatim>\<open>LINSERT AFTER\<close> the last element reads the successor of that node, which a push at the right end does not write:
  the command fails.\<close>

lemma LInsert_after_tail_fails:
  assumes "lcells key t = pair_cells n1 n2 a b" "node_id n1" "node_id n2" "node_id n3" "distinct [n1, n2, n3]" "uuid (snd c) = n3" "a \<noteq> b"
  shows "linsertBody uuid B key ''AFTER'' b x c t = Inl ErrKeyNotFound"
proof -
  have ne: "n2 \<noteq> []" using assms(3) by (simp add: node_id_def)
  have v: "lcells key t (Val n1) = Some a" "lcells key t (Val n2) = Some b" "lcells key t (Next n1) = Some n2" "lcells key t (Next n2) = None"
    using assms(1,5) by (auto simp: pair_cells_def)
  obtain i j l where i: "view t (cellKey key (Val n1)) = Some i" "ival i = a" "view t (cellKey key (Val n2)) = Some j" "ival j = b"
    "view t (cellKey key (Next n1)) = Some l" "ival l = n2" using v(1-3) assms(2,3) by (auto simp: cells_def)
  have p: "findPivot B key b 2 [] n1 t = Inr (n2, t)"
    using assms(5,7) unfolding numeral_2_eq_2 by (auto simp: bnd_def cell_keys tryGet_run ValueCopy_run i)
  have "getValue B (cellKey key (Next n2)) (upd t (cellKey key (Val n3)) y) = Inl ErrKeyNotFound" for y
    using v(4) assms(3,4) by (simp add: getValue_run view_upd cells_def)
  then show ?thesis using assms(2-6) ne
    by (simp add: linsertBody_def andThen_def bnd_def listGetMetaTxn_run assms(1) p createNode_def cell_keys cell_ops lmeta_def pair_cells_def)
qed

end

section \<open>The bounds of the loops\<close>

text \<open>\<^verbatim>\<open>deleteList\<close> and the last loop of \<^verbatim>\<open>LTRIM\<close> end within two rounds: the link they follow was deleted with its node.\<close>

context badger_txn
begin

lemma deleteNode_next: "\<exists>t'. deleteNode B key n t = Inr ((), t') \<and> view t' (nextKey key n) = None"
  by (simp add: deleteNode_def andThen_def bnd_def cell_ops nextKey_def view_upd)

lemma deleteChain_fuel: "\<exists>t'. deleteChain B key start (Suc f) visited cur t = Inr ((), t')"
  using deleteNode_next [of key cur t] by (auto simp: andThen_def bnd_def tryGet_run)

lemma trimTail_fuel: "\<exists>t'. trimTail B key newStartID (Suc (Suc f)) visited cur t = Inr ((), t')"
proof (cases "view t (nextKey key cur)")
  case (Some i)
  show ?thesis using deleteNode_next [of key "ival i" t] Some by (auto simp: andThen_def bnd_def tryGet_run ValueCopy_run)
qed (simp add: bnd_def tryGet_run)

end

end
