(* ===== verification/Strings.thy ===== *)
theory Strings
  imports Compression Feed
begin

text \<open>
  The string commands of \<^verbatim>\<open>internal/store/string.go\<close>. A string is one record \<^verbatim>\<open>STRING:<key>\<close> beside the type record; most
  commands pass the value through the compression layer (\<open>C\<close> are its codecs, \<open>ct\<close> the configured algorithm).
  The captured variables of a closure are the argument \<open>c\<close> of its body; what a command returns next to an error is
  not modelled. A slice or index out of range and an allocation above \<open>mem\<close> bytes are a \<open>Panic\<close>.
\<close>

section \<open>Reading and writing the record\<close>

text \<open>The check at the start of \<^verbatim>\<open>SET\<close> and others: a missing or empty type record passes.\<close>

definition checkStringType :: "'t txn_ops \<Rightarrow> bytes \<Rightarrow> ('t, unit) tx" where
  "checkStringType B key = bnd (lookupValue B (TypeOfKeyGet key)) (\<lambda>r. case r of
      None \<Rightarrow> ret ()
    | Some keyType \<Rightarrow> if keyType \<noteq> [] \<and> keyType \<noteq> KeyTypeString then fail ErrWrongType else ret ())"

definition readString :: "codecs \<Rightarrow> 't txn_ops \<Rightarrow> bytes \<Rightarrow> ('t, bytes option) tx" where
  "readString C B key = bnd (lookup B (stringKey key)) (\<lambda>r. case r of
      None \<Rightarrow> ret None
    | Some i \<Rightarrow> bnd (getValueWithDecompression C B i) (\<lambda>v. ret (Some v)))"

definition getStringBytes :: "codecs \<Rightarrow> 't txn_ops \<Rightarrow> bytes \<Rightarrow> ('t, bytes) tx" where
  "getStringBytes C B key = bnd (lookupValue B (stringKey key)) (\<lambda>r. case r of
      None \<Rightarrow> ret []
    | Some val \<Rightarrow> (case decompressData C val of Inl e \<Rightarrow> fail e | Inr d \<Rightarrow> ret d))"

definition writeString :: "codecs \<Rightarrow> CompressionType \<Rightarrow> 't txn_ops \<Rightarrow> bytes \<Rightarrow> bytes \<Rightarrow> ('t, unit) tx" where
  "writeString C ct B key value =
     andThen (Set B (TypeOfKeyGet key) KeyTypeString) (setValueWithCompression C ct B (stringKey key) value)"

text \<open>\<^verbatim>\<open>MSET\<close>, \<^verbatim>\<open>MSETNX\<close>, \<^verbatim>\<open>INCRBY\<close> and \<^verbatim>\<open>BITOP\<close> store the bytes as they are.\<close>

definition writeRaw :: "'t txn_ops \<Rightarrow> bytes \<Rightarrow> bytes \<Rightarrow> ('t, unit) tx" where
  "writeRaw B key value = andThen (Set B (TypeOfKeyGet key) KeyTypeString) (Set B (stringKey key) value)"

section \<open>SET and its variants\<close>

definition setBody :: "codecs \<Rightarrow> CompressionType \<Rightarrow> 't txn_ops \<Rightarrow> bytes \<Rightarrow> bytes \<Rightarrow> ('t, unit) body" where
  "setBody C ct B key value c = andThen (checkStringType B key) (writeString C ct B key value)"

definition SetString ::
  "codecs \<Rightarrow> CompressionType \<Rightarrow> run_env \<Rightarrow> 't txn_ops \<Rightarrow> ('d, 't) db_ops \<Rightarrow> bytes \<Rightarrow> bytes \<Rightarrow> 'd store
   \<Rightarrow> (go_error + unit) \<times> unit \<times> 'd store" where
  "SetString C ct E B D key value st =
     retryUpdate E B D (setBody C ct B key value) 30 [encodePropagateCommand [''SET'', key, value]] () st"

text \<open>\<open>clock a\<close> is the reading of attempt \<open>a\<close>, which the captured variable counts; \<open>ns\<close> is the one for the log value.\<close>

definition setWithTTLBody ::
  "(nat \<Rightarrow> int) \<Rightarrow> codecs \<Rightarrow> CompressionType \<Rightarrow> 't txn_ops \<Rightarrow> bytes \<Rightarrow> bytes \<Rightarrow> int \<Rightarrow> ('t, nat) body" where
  "setWithTTLBody clock C ct B key value ttl a =
     andThen (checkStringType B key)
      (andThen (Set B (TypeOfKeyGet key) KeyTypeString)
        (andThen (setEntryWithCompression C ct B (clock a) (stringKey key) value ttl) (ret (Suc a))))"

definition SetWithTTL ::
  "int \<Rightarrow> (nat \<Rightarrow> int) \<Rightarrow> codecs \<Rightarrow> CompressionType \<Rightarrow> run_env \<Rightarrow> 't txn_ops \<Rightarrow> ('d, 't) db_ops \<Rightarrow> bytes \<Rightarrow> bytes \<Rightarrow> int
   \<Rightarrow> 'd store \<Rightarrow> (go_error + unit) \<times> nat \<times> 'd store" where
  "SetWithTTL ns clock C ct E B D key value ttl st =
     retryUpdate E B D (setWithTTLBody clock C ct B key value ttl) 30
       [encodePropagateCommand [''SET'', key, value, ''PXAT'', itoa ((ns + ttl) div Millisecond)]] 0 st"

definition SetEX ::
  "int \<Rightarrow> (nat \<Rightarrow> int) \<Rightarrow> codecs \<Rightarrow> CompressionType \<Rightarrow> run_env \<Rightarrow> 't txn_ops \<Rightarrow> ('d, 't) db_ops \<Rightarrow> bytes \<Rightarrow> bytes \<Rightarrow> int
   \<Rightarrow> 'd store \<Rightarrow> (go_error + unit) \<times> nat \<times> 'd store" where
  "SetEX ns clock C ct E B D key value seconds = SetWithTTL ns clock C ct E B D key value (i64 (seconds * Second))"

definition PSETEX ::
  "int \<Rightarrow> (nat \<Rightarrow> int) \<Rightarrow> codecs \<Rightarrow> CompressionType \<Rightarrow> run_env \<Rightarrow> 't txn_ops \<Rightarrow> ('d, 't) db_ops \<Rightarrow> bytes \<Rightarrow> bytes \<Rightarrow> int
   \<Rightarrow> 'd store \<Rightarrow> (go_error + unit) \<times> nat \<times> 'd store" where
  "PSETEX ns clock C ct E B D key value milliseconds =
     SetWithTTL ns clock C ct E B D key value (i64 (milliseconds * Millisecond))"

definition setnxBody :: "codecs \<Rightarrow> CompressionType \<Rightarrow> 't txn_ops \<Rightarrow> bytes \<Rightarrow> bytes \<Rightarrow> ('t, bool) body" where
  "setnxBody C ct B key value c = bnd (lookup B (stringKey key)) (\<lambda>r. case r of
      Some i \<Rightarrow> ret False
    | None \<Rightarrow> andThen (writeString C ct B key value) (ret True))"

definition SetNX ::
  "codecs \<Rightarrow> CompressionType \<Rightarrow> run_env \<Rightarrow> 't txn_ops \<Rightarrow> ('d, 't) db_ops \<Rightarrow> bytes \<Rightarrow> bytes \<Rightarrow> 'd store
   \<Rightarrow> (go_error + unit) \<times> bool \<times> 'd store" where
  "SetNX C ct E B D key value st =
     retryUpdate E B D (setnxBody C ct B key value) 30 [encodePropagateCommand [''SETNX'', key, value]] False st"

definition getsetBody :: "codecs \<Rightarrow> CompressionType \<Rightarrow> 't txn_ops \<Rightarrow> bytes \<Rightarrow> bytes \<Rightarrow> ('t, bytes) body" where
  "getsetBody C ct B key value c = bnd (readString C B key) (\<lambda>old.
     andThen (writeString C ct B key value) (ret (case old of None \<Rightarrow> [] | Some v \<Rightarrow> v)))"

definition GetSet ::
  "codecs \<Rightarrow> CompressionType \<Rightarrow> run_env \<Rightarrow> 't txn_ops \<Rightarrow> ('d, 't) db_ops \<Rightarrow> bytes \<Rightarrow> bytes \<Rightarrow> 'd store
   \<Rightarrow> (go_error + unit) \<times> bytes \<times> 'd store" where
  "GetSet C ct E B D key value st =
     retryUpdate E B D (getsetBody C ct B key value) 30 [encodePropagateCommand [''GETSET'', key, value]] [] st"

section \<open>Several keys\<close>

fun mgetLoop :: "codecs \<Rightarrow> 't txn_ops \<Rightarrow> bytes list \<Rightarrow> ('t, bytes list) tx" where
  "mgetLoop C B [] = ret []"
| "mgetLoop C B (key # keys) =
     bnd (bnd (lookupValue B (TypeOfKeyGet key)) (\<lambda>r. case r of
            None \<Rightarrow> ret []
          | Some keyType \<Rightarrow>
              if keyType \<noteq> [] \<and> keyType \<noteq> KeyTypeString then fail ErrWrongType
              else bnd (readString C B key) (\<lambda>v. ret (case v of None \<Rightarrow> [] | Some x \<Rightarrow> x)))) (\<lambda>value.
     bnd (mgetLoop C B keys) (\<lambda>values. ret (value # values)))"

definition MGet :: "codecs \<Rightarrow> 't txn_ops \<Rightarrow> ('d, 't) db_ops \<Rightarrow> bytes list \<Rightarrow> 'd store \<Rightarrow> go_error + bytes list" where
  "MGet C B D keys st = View D (mgetLoop C B keys) st"

fun msetLoop :: "'t txn_ops \<Rightarrow> bytes list \<Rightarrow> ('t, unit) tx" where
  "msetLoop B (key # value # rest) = andThen (writeRaw B key value) (msetLoop B rest)"
| "msetLoop B _ = ret ()"

definition MSet ::
  "run_env \<Rightarrow> 't txn_ops \<Rightarrow> ('d, 't) db_ops \<Rightarrow> bytes list \<Rightarrow> 'd store \<Rightarrow> (go_error + unit) \<times> unit \<times> 'd store" where
  "MSet E B D keyValues st =
     (if length keyValues mod 2 \<noteq> 0 then (Inl (Errorf ''MSET requires an even number of arguments''), (), st)
      else retryUpdate E B D (\<lambda>c. msetLoop B keyValues) 30 [encodePropagateStringArgs ''MSET'' keyValues] () st)"

fun anyExists :: "'t txn_ops \<Rightarrow> bytes list \<Rightarrow> ('t, bool) tx" where
  "anyExists B (key # value # rest) = bnd (lookup B (stringKey key)) (\<lambda>r. case r of
      Some i \<Rightarrow> ret True
    | None \<Rightarrow> anyExists B rest)"
| "anyExists B _ = ret False"

definition msetnxBody :: "'t txn_ops \<Rightarrow> bytes list \<Rightarrow> ('t, bool) body" where
  "msetnxBody B keyValues c = bnd (anyExists B keyValues) (\<lambda>b.
     if b then ret False else andThen (msetLoop B keyValues) (ret True))"

definition MSetNX ::
  "run_env \<Rightarrow> 't txn_ops \<Rightarrow> ('d, 't) db_ops \<Rightarrow> bytes list \<Rightarrow> 'd store \<Rightarrow> (go_error + unit) \<times> bool \<times> 'd store" where
  "MSetNX E B D keyValues st =
     (if length keyValues mod 2 \<noteq> 0 then (Inl (Errorf ''MSETNX requires an even number of arguments''), False, st)
      else retryUpdate E B D (msetnxBody B keyValues) 30 [encodePropagateStringArgs ''MSETNX'' keyValues] False st)"

record StringEntry =
  seKey :: bytes
  seValue :: bytes
  seTTL :: int

text \<open>\<open>clock a i\<close> is the reading for entry \<open>i\<close> in attempt \<open>a\<close>.\<close>

fun batchLoop :: "(nat \<Rightarrow> int) \<Rightarrow> codecs \<Rightarrow> CompressionType \<Rightarrow> 't txn_ops \<Rightarrow> nat \<Rightarrow> StringEntry list \<Rightarrow> ('t, unit) tx" where
  "batchLoop clock C ct B i [] = ret ()"
| "batchLoop clock C ct B i (e # es) =
     andThen (Set B (TypeOfKeyGet (seKey e)) KeyTypeString)
      (andThen (setEntryWithCompression C ct B (clock i) (stringKey (seKey e)) (seValue e) (seTTL e))
        (batchLoop clock C ct B (Suc i) es))"

definition SetStringBatch ::
  "(nat \<Rightarrow> nat \<Rightarrow> int) \<Rightarrow> codecs \<Rightarrow> CompressionType \<Rightarrow> run_env \<Rightarrow> 't txn_ops \<Rightarrow> ('d, 't) db_ops \<Rightarrow> StringEntry list
   \<Rightarrow> 'd store \<Rightarrow> (go_error + unit) \<times> nat \<times> 'd store" where
  "SetStringBatch clock C ct E B D entries st =
     (if entries = [] then (Inr (), 0, st)
      else retryUpdate E B D (\<lambda>a. andThen (batchLoop (clock a) C ct B 0 entries) (ret (Suc a))) 30 [] 0 st)"

section \<open>GET, counters, APPEND\<close>

definition GetString :: "codecs \<Rightarrow> 't txn_ops \<Rightarrow> ('d, 't) db_ops \<Rightarrow> bytes \<Rightarrow> 'd store \<Rightarrow> go_error + bytes" where
  "GetString C B D key st = View D
     (andThen (checkStringType B key)
       (bnd (readString C B key) (\<lambda>r. case r of None \<Rightarrow> fail ErrStoreKeyNotFound | Some v \<Rightarrow> ret v))) st"

definition getIntValue :: "codecs \<Rightarrow> 't txn_ops \<Rightarrow> bytes \<Rightarrow> ('t, int) tx" where
  "getIntValue C B key = bnd (readString C B key) (\<lambda>r. case r of
      None \<Rightarrow> ret 0
    | Some val \<Rightarrow> (case parse_int val of
          None \<Rightarrow> fail (Errorf ''value is not an integer'')
        | Some intVal \<Rightarrow> ret intVal))"

definition setIntValue :: "'t txn_ops \<Rightarrow> bytes \<Rightarrow> int \<Rightarrow> ('t, unit) tx" where
  "setIntValue B key value = writeRaw B key (itoa value)"

definition incrbyBody :: "codecs \<Rightarrow> 't txn_ops \<Rightarrow> bytes \<Rightarrow> int \<Rightarrow> ('t, int) body" where
  "incrbyBody C B key increment c =
     andThen (checkStringType B key)
      (bnd (getIntValue C B key) (\<lambda>oldValue.
        if increment > 0 \<and> oldValue > max_int64 - increment then fail (Errorf ''increment overflow'')
        else if increment < 0 \<and> oldValue < min_int64 - increment then fail (Errorf ''increment overflow'')
        else let newValue = i64 (oldValue + increment)
             in andThen (setIntValue B key newValue) (ret newValue)))"

definition INCRBY ::
  "codecs \<Rightarrow> run_env \<Rightarrow> 't txn_ops \<Rightarrow> ('d, 't) db_ops \<Rightarrow> bytes \<Rightarrow> int \<Rightarrow> 'd store \<Rightarrow> (go_error + unit) \<times> int \<times> 'd store" where
  "INCRBY C E B D key increment st =
     retryUpdate E B D (incrbyBody C B key increment) 30 [encodePropagateCommand [''INCRBY'', key, itoa increment]] 0 st"

definition INCR ::
  "codecs \<Rightarrow> run_env \<Rightarrow> 't txn_ops \<Rightarrow> ('d, 't) db_ops \<Rightarrow> bytes \<Rightarrow> 'd store \<Rightarrow> (go_error + unit) \<times> int \<times> 'd store" where
  "INCR C E B D key = INCRBY C E B D key 1"

definition DECR ::
  "codecs \<Rightarrow> run_env \<Rightarrow> 't txn_ops \<Rightarrow> ('d, 't) db_ops \<Rightarrow> bytes \<Rightarrow> 'd store \<Rightarrow> (go_error + unit) \<times> int \<times> 'd store" where
  "DECR C E B D key = INCRBY C E B D key (- 1)"

definition DECRBY ::
  "codecs \<Rightarrow> run_env \<Rightarrow> 't txn_ops \<Rightarrow> ('d, 't) db_ops \<Rightarrow> bytes \<Rightarrow> int \<Rightarrow> 'd store \<Rightarrow> (go_error + unit) \<times> int \<times> 'd store" where
  "DECRBY C E B D key decrement = INCRBY C E B D key (i64 (- decrement))"

text \<open>Doubles are an arbitrary type with the operations the code applies to them.\<close>

record 'f float_ops =
  ParseFloat :: "bytes \<Rightarrow> 'f option"
  FormatFloat :: "'f \<Rightarrow> bytes"
  addF :: "'f \<Rightarrow> 'f \<Rightarrow> 'f"
  notFinite :: "'f \<Rightarrow> bool"
  zeroF :: 'f

definition incrbyfloatBody ::
  "'f float_ops \<Rightarrow> codecs \<Rightarrow> CompressionType \<Rightarrow> 't txn_ops \<Rightarrow> bytes \<Rightarrow> 'f \<Rightarrow> ('t, 'f) body" where
  "incrbyfloatBody F C ct B key increment c = bnd (readString C B key) (\<lambda>r.
     case (case r of None \<Rightarrow> Some (zeroF F) | Some val \<Rightarrow> ParseFloat F val) of
       None \<Rightarrow> fail (Errorf ''value is not a valid float'')
     | Some oldFloat \<Rightarrow>
         let newValue = addF F oldFloat increment
         in if notFinite F newValue then fail (Errorf ''increment would produce NaN or Infinity'')
            else andThen (writeString C ct B key (FormatFloat F newValue)) (ret newValue))"

definition INCRBYFLOAT ::
  "'f float_ops \<Rightarrow> codecs \<Rightarrow> CompressionType \<Rightarrow> run_env \<Rightarrow> 't txn_ops \<Rightarrow> ('d, 't) db_ops \<Rightarrow> bytes \<Rightarrow> 'f \<Rightarrow> 'd store
   \<Rightarrow> (go_error + unit) \<times> 'f \<times> 'd store" where
  "INCRBYFLOAT F C ct E B D key increment st =
     retryUpdate E B D (incrbyfloatBody F C ct B key increment) 30
       [encodePropagateCommand [''INCRBYFLOAT'', key, FormatFloat F increment]] (zeroF F) st"

definition appendBody :: "codecs \<Rightarrow> CompressionType \<Rightarrow> 't txn_ops \<Rightarrow> bytes \<Rightarrow> bytes \<Rightarrow> ('t, int) body" where
  "appendBody C ct B key value c = bnd (readString C B key) (\<lambda>r.
     let newValue = (case r of None \<Rightarrow> [] | Some v \<Rightarrow> v) @ value
     in andThen (checkStringType B key)
          (andThen (writeString C ct B key newValue) (ret (int (length newValue)))))"

definition APPEND ::
  "codecs \<Rightarrow> CompressionType \<Rightarrow> run_env \<Rightarrow> 't txn_ops \<Rightarrow> ('d, 't) db_ops \<Rightarrow> bytes \<Rightarrow> bytes \<Rightarrow> 'd store
   \<Rightarrow> (go_error + unit) \<times> int \<times> 'd store" where
  "APPEND C ct E B D key value st =
     retryUpdate E B D (appendBody C ct B key value) 30 [encodePropagateCommand [''APPEND'', key, value]] 0 st"

definition StrLen :: "codecs \<Rightarrow> 't txn_ops \<Rightarrow> ('d, 't) db_ops \<Rightarrow> bytes \<Rightarrow> 'd store \<Rightarrow> go_error + int" where
  "StrLen C B D key st = View D
     (andThen (checkKeyType B key KeyTypeString)
       (bnd (readString C B key) (\<lambda>r. ret (case r of None \<Rightarrow> 0 | Some v \<Rightarrow> int (length v))))) st"

section \<open>Ranges\<close>

text \<open>The negative indices of \<^verbatim>\<open>GETRANGE\<close>, \<^verbatim>\<open>BITCOUNT\<close> and \<^verbatim>\<open>BITPOS\<close> count from the end of \<open>len\<close> units.\<close>

definition clampStart :: "int \<Rightarrow> int \<Rightarrow> int" where
  "clampStart len start = (if start < 0 then max 0 (len + start) else start)"

definition clampEnd :: "int \<Rightarrow> int \<Rightarrow> int" where
  "clampEnd len fin =
     (let e = (if fin < 0 then (if len + fin < 0 then - 1 else len + fin) else fin)
      in if e \<ge> len then len - 1 else e)"

definition getRange :: "bytes \<Rightarrow> int \<Rightarrow> int \<Rightarrow> bytes" where
  "getRange val start fin =
     (let strLen = int (length val); s = clampStart strLen start; e = clampEnd strLen fin
      in if s > strLen \<or> s > e then [] else take (nat (e + 1 - s)) (drop (nat s) val))"

definition GetRange ::
  "codecs \<Rightarrow> 't txn_ops \<Rightarrow> ('d, 't) db_ops \<Rightarrow> bytes \<Rightarrow> int \<Rightarrow> int \<Rightarrow> 'd store \<Rightarrow> go_error + bytes" where
  "GetRange C B D key start fin st = View D
     (andThen (checkKeyType B key KeyTypeString)
       (bnd (readString C B key) (\<lambda>r. ret (case r of None \<Rightarrow> [] | Some v \<Rightarrow> getRange v start fin)))) st"

text \<open>\<^verbatim>\<open>make([]byte, n)\<close>.\<close>

definition makeSlice :: "int \<Rightarrow> int \<Rightarrow> go_error + bytes" where
  "makeSlice mem n = (if n < 0 \<or> n > mem then Inl (Panic ''makeslice: len out of range'')
                      else Inr (replicate (nat n) (CHR 0x00)))"

definition setRange :: "int \<Rightarrow> bytes \<Rightarrow> int \<Rightarrow> bytes \<Rightarrow> go_error + bytes" where
  "setRange mem existing offset value =
     (case (if offset > int (length existing)
            then (case makeSlice mem (offset - int (length existing)) of
                    Inl e \<Rightarrow> Inl e | Inr z \<Rightarrow> Inr (existing @ z))
            else Inr existing) of
        Inl e \<Rightarrow> Inl e
      | Inr existingValue \<Rightarrow>
          let start = (if offset > 0 then take (nat offset) existingValue else []);
              stop = i64 (offset + int (length value))
          in if stop < int (length existingValue)
             then (if stop < 0 then Inl (Panic ''slice bounds out of range'')
                   else Inr (start @ value @ drop (nat stop) existingValue))
             else Inr (start @ value))"

definition setrangeBody ::
  "int \<Rightarrow> codecs \<Rightarrow> CompressionType \<Rightarrow> 't txn_ops \<Rightarrow> bytes \<Rightarrow> int \<Rightarrow> bytes \<Rightarrow> ('t, int) body" where
  "setrangeBody mem C ct B key offset value c = bnd (readString C B key) (\<lambda>r.
     case setRange mem (case r of None \<Rightarrow> [] | Some v \<Rightarrow> v) offset value of
       Inl e \<Rightarrow> fail e
     | Inr newValue \<Rightarrow> andThen (writeString C ct B key newValue) (ret (int (length newValue))))"

definition SetRange ::
  "int \<Rightarrow> codecs \<Rightarrow> CompressionType \<Rightarrow> run_env \<Rightarrow> 't txn_ops \<Rightarrow> ('d, 't) db_ops \<Rightarrow> bytes \<Rightarrow> int \<Rightarrow> bytes \<Rightarrow> 'd store
   \<Rightarrow> (go_error + unit) \<times> int \<times> 'd store" where
  "SetRange mem C ct E B D key offset value st =
     retryUpdate E B D (setrangeBody mem C ct B key offset value) 30
       [encodePropagateCommand [''SETRANGE'', key, itoa offset, value]] 0 st"

section \<open>Bits\<close>

text \<open>Go's \<^verbatim>\<open>/\<close> and \<^verbatim>\<open>%\<close> truncate towards zero.\<close>

definition quot :: "int \<Rightarrow> int \<Rightarrow> int" where
  "quot a b = (if (a < 0) = (b < 0) then \<bar>a\<bar> div \<bar>b\<bar> else - (\<bar>a\<bar> div \<bar>b\<bar>))"

definition rem :: "int \<Rightarrow> int \<Rightarrow> int" where
  "rem a b = a - b * quot a b"

text \<open>\<^verbatim>\<open>b & (1 << k) != 0\<close>, \<^verbatim>\<open>b |= 1 << k\<close> and \<^verbatim>\<open>b &^= 1 << k\<close> on a byte: a shift by eight or more gives zero.\<close>

definition testBit :: "char \<Rightarrow> nat \<Rightarrow> bool" where
  "testBit b k = (k < 8 \<and> bit (of_char b :: nat) k)"

definition putBit :: "char \<Rightarrow> nat \<Rightarrow> bool \<Rightarrow> char" where
  "putBit b k v = (if k < 8 then char_of ((if v then set_bit else unset_bit) k (of_char b :: nat)) else b)"

definition GetBit :: "codecs \<Rightarrow> 't txn_ops \<Rightarrow> ('d, 't) db_ops \<Rightarrow> bytes \<Rightarrow> int \<Rightarrow> 'd store \<Rightarrow> go_error + int" where
  "GetBit C B D key offset st = View D
     (bnd (getStringBytes C B key) (\<lambda>dat.
        let byteIndex = quot offset 8; bitIndex = rem offset 8
        in if byteIndex \<ge> int (length dat) then ret 0
           else if byteIndex < 0 then fail (Panic ''index out of range'')
           else ret (if testBit (dat ! nat byteIndex) (nat (7 - bitIndex)) then 1 else 0))) st"

definition setbitBody ::
  "int \<Rightarrow> codecs \<Rightarrow> CompressionType \<Rightarrow> 't txn_ops \<Rightarrow> bytes \<Rightarrow> int \<Rightarrow> int \<Rightarrow> ('t, int) body" where
  "setbitBody mem C ct B key offset value c = bnd (getStringBytes C B key) (\<lambda>dat.
     let byteIndex = quot offset 8; bitIndex = rem offset 8
     in case (if byteIndex \<ge> int (length dat)
              then (case makeSlice mem (byteIndex + 1) of
                      Inl e \<Rightarrow> Inl e | Inr z \<Rightarrow> Inr (dat @ drop (length dat) z))
              else Inr dat) of
          Inl e \<Rightarrow> fail e
        | Inr buf \<Rightarrow>
            if byteIndex < 0 then fail (Panic ''index out of range'')
            else let old = buf ! nat byteIndex; k = nat (7 - bitIndex)
                 in andThen (writeString C ct B key (buf[nat byteIndex := putBit old k (value = 1)]))
                      (ret (if testBit old k then 1 else 0)))"

definition SetBit ::
  "int \<Rightarrow> codecs \<Rightarrow> CompressionType \<Rightarrow> run_env \<Rightarrow> 't txn_ops \<Rightarrow> ('d, 't) db_ops \<Rightarrow> bytes \<Rightarrow> int \<Rightarrow> int \<Rightarrow> 'd store
   \<Rightarrow> (go_error + unit) \<times> int \<times> 'd store" where
  "SetBit mem C ct E B D key offset value st =
     retryUpdate E B D (setbitBody mem C ct B key offset value) 30
       [encodePropagateCommand [''SETBIT'', key, itoa offset, itoa value]] 0 st"

text \<open>Bit \<open>i\<close> of a string, the most significant bit of every byte first.\<close>

definition bitAt :: "bytes \<Rightarrow> nat \<Rightarrow> bool" where
  "bitAt dat i = testBit (dat ! (i div 8)) (7 - i mod 8)"

text \<open>The two loops of \<^verbatim>\<open>BITCOUNT\<close>, over bits and over bytes.\<close>

definition countBits :: "bytes \<Rightarrow> int \<Rightarrow> int \<Rightarrow> int" where
  "countBits dat start fin = int (length (filter (bitAt dat) [nat start..<nat (fin + 1)]))"

definition countBytes :: "bytes \<Rightarrow> int \<Rightarrow> int \<Rightarrow> int" where
  "countBytes dat start fin =
     sum_list (map (\<lambda>i. int (length (filter (\<lambda>j. testBit (dat ! i) (7 - j)) [0..<8]))) [nat start..<nat (fin + 1)])"

definition BitCountWithUnit ::
  "codecs \<Rightarrow> 't txn_ops \<Rightarrow> ('d, 't) db_ops \<Rightarrow> bytes \<Rightarrow> int \<Rightarrow> int \<Rightarrow> bytes \<Rightarrow> 'd store \<Rightarrow> go_error + int" where
  "BitCountWithUnit C B D key start fin unt st = View D
     (bnd (getStringBytes C B key) (\<lambda>dat.
        let n = int (length dat)
        in if dat = [] then ret 0
           else if ToUpper unt = ''BIT'' then
             (let s = max 0 (if start < 0 then n * 8 + start else start);
                  e0 = (if fin < 0 then n * 8 + fin else fin);
                  e = (if e0 \<ge> n * 8 then n * 8 - 1 else e0)
              in ret (if s > e then 0 else countBits dat s e))
           else
             (let s = clampStart n start; e = clampEnd n fin
              in ret (if s > n \<or> s > e then 0 else countBytes dat s e)))) st"

definition BitCount :: "codecs \<Rightarrow> 't txn_ops \<Rightarrow> ('d, 't) db_ops \<Rightarrow> bytes \<Rightarrow> int \<Rightarrow> int \<Rightarrow> 'd store \<Rightarrow> go_error + int" where
  "BitCount C B D key start fin = BitCountWithUnit C B D key start fin ''BYTE''"

text \<open>The search of \<^verbatim>\<open>BITPOS\<close>: the first of the given positions whose bit is \<open>b\<close>.\<close>

fun findBit :: "bytes \<Rightarrow> int \<Rightarrow> nat list \<Rightarrow> int" where
  "findBit dat b [] = - 1"
| "findBit dat b (i # is) = (if (if bitAt dat i then 1 else 0) = b then int i else findBit dat b is)"

definition BitPosWithUnit ::
  "codecs \<Rightarrow> 't txn_ops \<Rightarrow> ('d, 't) db_ops \<Rightarrow> bytes \<Rightarrow> int \<Rightarrow> int \<Rightarrow> int \<Rightarrow> bytes \<Rightarrow> 'd store \<Rightarrow> go_error + int" where
  "BitPosWithUnit C B D key b start fin unt st = View D
     (bnd (getStringBytes C B key) (\<lambda>dat.
        let n = int (length dat)
        in if dat = [] then ret (if b = 1 then - 1 else 0)
           else if ToUpper unt = ''BIT'' then
             (let s = clampStart (n * 8) start; e = clampEnd (n * 8) fin
              in ret (if s \<ge> n * 8 \<or> s > e then - 1 else findBit dat b [nat s..<nat (e + 1)]))
           else
             (let s = clampStart n start; e = clampEnd n fin
              in ret (if s > n \<or> s > e then - 1 else findBit dat b [nat s * 8..<nat (e + 1) * 8])))) st"

definition BitPos ::
  "codecs \<Rightarrow> 't txn_ops \<Rightarrow> ('d, 't) db_ops \<Rightarrow> bytes \<Rightarrow> int \<Rightarrow> int \<Rightarrow> int \<Rightarrow> 'd store \<Rightarrow> go_error + int" where
  "BitPos C B D key b start fin = BitPosWithUnit C B D key b start fin ''BYTE''"

definition BitLen :: "codecs \<Rightarrow> 't txn_ops \<Rightarrow> ('d, 't) db_ops \<Rightarrow> bytes \<Rightarrow> 'd store \<Rightarrow> go_error + int" where
  "BitLen C B D key st = View D (bnd (getStringBytes C B key) (\<lambda>dat. ret (int (length dat) * 8))) st"

section \<open>BITOP\<close>

unbundle bit_operations_syntax

fun readSources :: "codecs \<Rightarrow> 't txn_ops \<Rightarrow> bytes list \<Rightarrow> ('t, bytes list) tx" where
  "readSources C B [] = ret []"
| "readSources C B (key # keys) =
     bnd (getStringBytes C B key) (\<lambda>dat. bnd (readSources C B keys) (\<lambda>rest. ret (dat # rest)))"

definition byteOf :: "nat \<Rightarrow> bytes \<Rightarrow> nat" where
  "byteOf i source = (if i < length source then of_char (source ! i) else 0)"

definition bitopByte :: "bytes \<Rightarrow> bytes list \<Rightarrow> nat \<Rightarrow> go_error + char" where
  "bitopByte opr sources i =
     (let bs = map (byteOf i) sources
      in if opr = ''AND'' then Inr (char_of (foldl (AND) 0xFF bs))
         else if opr = ''OR'' then Inr (char_of (foldl (OR) 0 bs))
         else if opr = ''XOR'' then Inr (char_of (foldl (XOR) 0 bs))
         else if opr = ''NOT'' then
           (if length sources \<noteq> 1 then Inl (Errorf ''BITOP NOT requires exactly one source key'')
            else Inr (char_of (0xFF - hd bs)))
         else Inl (Errorf (''unknown bitop operation: '' @ opr)))"

fun bitopLoop :: "bytes \<Rightarrow> bytes list \<Rightarrow> nat list \<Rightarrow> go_error + bytes" where
  "bitopLoop opr sources [] = Inr []"
| "bitopLoop opr sources (i # is) = (case bitopByte opr sources i of
      Inl e \<Rightarrow> Inl e
    | Inr b \<Rightarrow> (case bitopLoop opr sources is of Inl e \<Rightarrow> Inl e | Inr bs \<Rightarrow> Inr (b # bs)))"

definition bitopBody :: "codecs \<Rightarrow> 't txn_ops \<Rightarrow> bytes \<Rightarrow> bytes \<Rightarrow> bytes list \<Rightarrow> ('t, int) body" where
  "bitopBody C B opr destKey keys c =
     (if keys = [] then fail (Errorf ''BITOP requires at least one source key'')
      else bnd (readSources C B keys) (\<lambda>sources.
        let maxLen = foldl max 0 (map length sources)
        in if maxLen = 0 then andThen (writeRaw B destKey []) (ret c)
           else case bitopLoop opr sources [0..<maxLen] of
                  Inl e \<Rightarrow> fail e
                | Inr result \<Rightarrow> andThen (writeRaw B destKey result) (ret (int (length result)))))"

definition BitOp ::
  "codecs \<Rightarrow> run_env \<Rightarrow> 't txn_ops \<Rightarrow> ('d, 't) db_ops \<Rightarrow> bytes \<Rightarrow> bytes \<Rightarrow> bytes list \<Rightarrow> 'd store
   \<Rightarrow> (go_error + unit) \<times> int \<times> 'd store" where
  "BitOp C E B D opr destKey keys st =
     retryUpdate E B D (bitopBody C B opr destKey keys) 30
       [encodePropagateStringArgs ''BITOP'' (opr # destKey # keys)] 0 st"

section \<open>BITFIELD\<close>

definition parseBitFieldType :: "bytes \<Rightarrow> go_error + (bool \<times> int)" where
  "parseBitFieldType typeStr =
     (if length typeStr < 2 then Inl (Errorf (''invalid type: '' @ typeStr))
      else if hd typeStr \<noteq> CHR ''i'' \<and> hd typeStr \<noteq> CHR ''u'' then Inl (Errorf (''invalid type: '' @ typeStr))
      else case parse_int (tl typeStr) of
             None \<Rightarrow> Inl (Errorf (''invalid bit count: '' @ typeStr))
           | Some bits \<Rightarrow> if bits \<le> 0 \<or> bits > 64 then Inl (Errorf (''invalid bit count: '' @ itoa bits))
                         else Inr (hd typeStr = CHR ''i'', bits))"

record bf_operation =
  bfOp :: bytes
  bfSigned :: bool
  bfBits :: nat
  bfOffset :: int
  bfValue :: int
  bfOverflow :: bytes

function parseOps :: "bytes \<Rightarrow> bytes list \<Rightarrow> go_error + bf_operation list" where
  "parseOps overflow operations = (case operations of
      [] \<Rightarrow> Inr []
    | opName # rest \<Rightarrow>
        if ToUpper opName = ''OVERFLOW'' then
          (case rest of
             [] \<Rightarrow> Inl (Errorf ''BITFIELD: missing OVERFLOW mode'')
           | m # rest' \<Rightarrow>
               if ToUpper m \<in> {''WRAP'', ''SAT'', ''FAIL''} then parseOps (ToUpper m) rest'
               else Inl (Errorf (''BITFIELD: invalid OVERFLOW mode: '' @ ToUpper m)))
        else (case rest of
          [] \<Rightarrow> Inl (Errorf (''BITFIELD: missing arguments for '' @ opName))
        | typeStr # rest2 \<Rightarrow> (case parseBitFieldType typeStr of
            Inl e \<Rightarrow> Inl e
          | Inr (isSigned, bits) \<Rightarrow> (case rest2 of
              [] \<Rightarrow> Inl (Errorf (''BITFIELD: missing offset for '' @ opName @ '' '' @ typeStr))
            | offsetStr # rest3 \<Rightarrow> (case parse_int offsetStr of
                None \<Rightarrow> Inl (Errorf (''BITFIELD: invalid offset: '' @ offsetStr))
              | Some offset \<Rightarrow>
                  let oper = (\<lambda>v. \<lparr>bfOp = opName, bfSigned = isSigned, bfBits = nat bits, bfOffset = offset,
                                 bfValue = v, bfOverflow = overflow\<rparr>)
                  in if opName = ''SET'' \<or> opName = ''INCRBY'' then
                       (case rest3 of
                          [] \<Rightarrow> Inl (Errorf (''BITFIELD: missing value for '' @ opName @ '' '' @ typeStr))
                        | valueStr # rest4 \<Rightarrow> (case parse_int valueStr of
                            None \<Rightarrow> Inl (Errorf (''BITFIELD: invalid value: '' @ valueStr))
                          | Some v \<Rightarrow> (case parseOps overflow rest4 of
                              Inl e \<Rightarrow> Inl e | Inr ops \<Rightarrow> Inr (oper v # ops))))
                     else (case parseOps overflow rest3 of
                             Inl e \<Rightarrow> Inl e | Inr ops \<Rightarrow> Inr (oper 0 # ops)))))))"
  by pat_completeness auto

termination
  by (relation "measure (\<lambda>(overflow, operations). length operations)") auto

declare parseOps.simps [simp del]

text \<open>The bits of a field, least significant first; bits beyond the string read as zero.\<close>

definition fieldBit :: "bytes \<Rightarrow> nat \<Rightarrow> bool" where
  "fieldBit dat i = (i div 8 < length dat \<and> testBit (dat ! (i div 8)) (i mod 8))"

definition extractBits :: "bytes \<Rightarrow> nat \<Rightarrow> nat \<Rightarrow> int" where
  "extractBits dat off bits = i64 (sum_list (map (\<lambda>j. if fieldBit dat (off + j) then 2 ^ j else 0) [0..<bits]))"

definition signExtend :: "nat \<Rightarrow> int \<Rightarrow> int" where
  "signExtend bits v = (if v AND i64 (2 ^ (bits - 1)) \<noteq> 0 then v OR i64 (NOT (i64 (2 ^ bits)) + 1) else v)"

fun writeBits :: "bytes \<Rightarrow> nat \<Rightarrow> nat list \<Rightarrow> int \<Rightarrow> go_error + bytes" where
  "writeBits dat off [] v = Inr dat"
| "writeBits dat off (j # js) v =
     (let i = (off + j) div 8
      in if i \<ge> length dat then Inl (Panic ''index out of range'')
         else writeBits (dat[i := putBit (dat ! i) ((off + j) mod 8) (bit v j)]) off js v)"

text \<open>The new value of \<^verbatim>\<open>INCRBY\<close> on a signed field, on an unsigned field of 64 bits and on a shorter one.\<close>

definition incrSigned :: "nat \<Rightarrow> bytes \<Rightarrow> int \<Rightarrow> int \<Rightarrow> go_error + int" where
  "incrSigned bits overflow old v =
     (let minVal = i64 (- i64 (2 ^ (bits - 1))); maxVal = i64 (i64 (2 ^ (bits - 1)) - 1);
          overflowed = (v > 0 \<and> old > i64 (maxVal - v) \<or> v < 0 \<and> old < i64 (minVal - v));
          newValue = i64 (old + v)
      in if \<not> overflowed then Inr newValue
         else if overflow = ''FAIL'' then Inl (Errorf ''BITFIELD: overflow detected'')
         else if overflow = ''SAT'' then Inr (if v > 0 then maxVal else minVal)
         else if bits < 64 then
           (let md = i64 (2 ^ bits); r = rem newValue md
            in Inr (if r \<ge> i64 (2 ^ (bits - 1)) then i64 (r - md) else r))
         else Inr newValue)"

definition incrU64 :: "bytes \<Rightarrow> int \<Rightarrow> int \<Rightarrow> go_error + int" where
  "incrU64 overflow old v =
     (let uOld = (word_of_int old :: u64); uNew = uOld + word_of_int v;
          overflowed = (if v > 0 then uNew < uOld else v < 0 \<and> uNew > uOld)
      in if \<not> overflowed then Inr (sint uNew)
         else if overflow = ''FAIL'' then Inl (Errorf ''BITFIELD: overflow detected'')
         else if overflow = ''SAT'' then Inr (if v > 0 then sint MaxUint64 else 0)
         else Inr (sint uNew))"

definition incrUnsigned :: "nat \<Rightarrow> bytes \<Rightarrow> int \<Rightarrow> int \<Rightarrow> go_error + int" where
  "incrUnsigned bits overflow old v =
     (let maxVal = i64 (i64 (2 ^ bits) - 1); newValue = i64 (old + v);
          overflowed = (v > 0 \<and> old > i64 (maxVal - v) \<or> v < 0 \<and> old < i64 (0 - v))
      in if \<not> overflowed then Inr newValue
         else if overflow = ''FAIL'' then Inl (Errorf ''BITFIELD: overflow detected'')
         else if overflow = ''SAT'' then Inr (if v > 0 then maxVal else 0)
         else (let md = i64 (2 ^ bits); r = rem newValue md in Inr (if r < 0 then i64 (r + md) else r)))"

text \<open>The remaining time to live, looked up after a \<^verbatim>\<open>GET\<close> or \<^verbatim>\<open>SET\<close> that made the string longer; errors of the
  lookups are ignored.\<close>

definition remainingTTL :: "'t txn_ops \<Rightarrow> int \<Rightarrow> bytes \<Rightarrow> int \<Rightarrow> ('t, int) tx" where
  "remainingTTL B ns key ttl = bnd (tryGet B (TypeOfKeyGet key)) (\<lambda>r. case r of
      Inl e \<Rightarrow> ret ttl
    | Inr i \<Rightarrow> bnd (ValueCopy B i) (\<lambda>val.
        if val \<noteq> KeyTypeString then ret ttl
        else bnd (tryGet B (stringKey key)) (\<lambda>s. case s of
               Inl e \<Rightarrow> ret ttl
             | Inr strItem \<Rightarrow>
                 let nowUnix = (word_of_int (Unix ns) :: u64)
                 in ret (if iexp strItem > 0 \<and> iexp strItem > nowUnix
                         then i64 (uint (iexp strItem - nowUnix) * Second) else ttl))))"

definition bitfieldOp ::
  "int \<Rightarrow> int \<Rightarrow> 't txn_ops \<Rightarrow> bytes \<Rightarrow> nat \<Rightarrow> bf_operation \<Rightarrow> bytes \<times> int list \<times> int \<Rightarrow> ('t, bytes \<times> int list \<times> int) tx" where
  "bitfieldOp mem ns B key originalLen opn = (\<lambda>(dat0, results, ttl).
     let bitOffset = (if bfOffset opn < 0 then int (length dat0) * 8 + bfOffset opn else bfOffset opn);
         bits = bfBits opn
     in if bitOffset < 0 then fail (Errorf ''BITFIELD: offset out of range'')
        else case (if bitOffset div 8 \<ge> int (length dat0)
                   then (case makeSlice mem (quot (i64 (bitOffset + int bits + 7)) 8) of
                           Inl e \<Rightarrow> Inl e | Inr z \<Rightarrow> Inr (dat0 @ drop (length dat0) z))
                   else Inr dat0) of
          Inl e \<Rightarrow> fail e
        | Inr dat \<Rightarrow>
            let off = nat bitOffset;
                raw = extractBits dat off bits;
                old = (if bfSigned opn then signExtend bits raw else raw);
                finish = (\<lambda>dat' results'. bnd
                  (if length dat' > originalLen then remainingTTL B ns key ttl else ret ttl)
                  (\<lambda>ttl'. ret (dat', results', ttl')))
            in if bfOp opn = ''GET'' then finish dat (results @ [old])
               else if bfOp opn = ''SET'' then
                 (case writeBits dat off [0..<bits] (bfValue opn) of
                    Inl e \<Rightarrow> fail e
                  | Inr dat' \<Rightarrow> finish dat' (results @ [old]))
               else if bfOp opn = ''INCRBY'' then
                 (case (if bfSigned opn then incrSigned bits (bfOverflow opn) old (bfValue opn)
                        else if bits = 64 then incrU64 (bfOverflow opn) old (bfValue opn)
                        else incrUnsigned bits (bfOverflow opn) old (bfValue opn)) of
                    Inl e \<Rightarrow> fail e
                  | Inr newValue \<Rightarrow> (case writeBits dat off [0..<bits] newValue of
                      Inl e \<Rightarrow> fail e
                    | Inr dat' \<Rightarrow> ret (dat', results @ [newValue], ttl)))
               else finish dat results)"

fun bitfieldLoop ::
  "int \<Rightarrow> (nat \<Rightarrow> int) \<Rightarrow> 't txn_ops \<Rightarrow> bytes \<Rightarrow> nat \<Rightarrow> nat \<Rightarrow> bf_operation list \<Rightarrow> bytes \<times> int list \<times> int
   \<Rightarrow> ('t, bytes \<times> int list \<times> int) tx" where
  "bitfieldLoop mem clock B key originalLen i [] s = ret s"
| "bitfieldLoop mem clock B key originalLen i (opn # ops) s =
     bnd (bitfieldOp mem (clock i) B key originalLen opn s) (bitfieldLoop mem clock B key originalLen (Suc i) ops)"

text \<open>The closure appends to \<^verbatim>\<open>results\<close>, which it does not reset; \<open>clock a i\<close> is the reading of attempt \<open>a\<close> at operation
  \<open>i\<close>, the last one for the new entry.\<close>

definition bitfieldBody ::
  "int \<Rightarrow> (nat \<Rightarrow> nat \<Rightarrow> int) \<Rightarrow> codecs \<Rightarrow> 't txn_ops \<Rightarrow> bytes \<Rightarrow> bf_operation list \<Rightarrow> ('t, int list \<times> nat) body" where
  "bitfieldBody mem clock C B key ops c =
     bnd (getStringBytes C B key) (\<lambda>dat0.
     bnd (bitfieldLoop mem (clock (snd c)) B key (length dat0) 0 ops (dat0, fst c, 0)) (\<lambda>(dat, results, ttl).
       andThen
        (if dat = [] then ret ()
         else andThen (Set B (TypeOfKeyGet key) KeyTypeString)
           (if ttl > 0
            then andThen (Delete B (stringKey key))
                   (SetEntry B (stringKey key) dat (word_of_int (Unix (clock (snd c) (length ops) + ttl))))
            else Set B (stringKey key) dat))
        (ret (results, Suc (snd c)))))"

definition BitField ::
  "int \<Rightarrow> (nat \<Rightarrow> nat \<Rightarrow> int) \<Rightarrow> codecs \<Rightarrow> run_env \<Rightarrow> 't txn_ops \<Rightarrow> ('d, 't) db_ops \<Rightarrow> bytes \<Rightarrow> bytes list \<Rightarrow> 'd store
   \<Rightarrow> (go_error + unit) \<times> int list \<times> 'd store" where
  "BitField mem clock C E B D key operations st =
     (case parseOps ''WRAP'' operations of
        Inl e \<Rightarrow> (Inl e, [], st)
      | Inr ops \<Rightarrow>
          (case retryUpdate E B D (bitfieldBody mem clock C B key ops) 30
                  [encodePropagateStringArgs ''BITFIELD'' (key # operations)] ([], 0) st of
             (r, (results, n), st') \<Rightarrow> (r, results, st')))"

section \<open>The content of a string\<close>

text \<open>What the record holds: nothing, a value, or bytes that do not decompress.\<close>

definition str_of :: "codecs \<Rightarrow> (bytes \<rightharpoonup> item) \<Rightarrow> bytes \<Rightarrow> go_error + bytes option" where
  "str_of C m key = (case m (stringKey key) of
      None \<Rightarrow> Inr None
    | Some i \<Rightarrow> (case decompressData C (ival i) of Inl e \<Rightarrow> Inl e | Inr v \<Rightarrow> Inr (Some v)))"

definition string_typed :: "(bytes \<rightharpoonup> item) \<Rightarrow> bytes \<Rightarrow> bool" where
  "string_typed m key \<longleftrightarrow> (\<forall>i. m (TypeOfKeyGet key) = Some i \<longrightarrow> ival i = [] \<or> ival i = KeyTypeString)"

definition put_str :: "bytes \<Rightarrow> bytes \<Rightarrow> (bytes \<rightharpoonup> item) \<Rightarrow> bytes \<rightharpoonup> item" where
  "put_str key s m = m(TypeOfKeyGet key \<mapsto> \<lparr>ival = KeyTypeString, iexp = 0\<rparr>, stringKey key \<mapsto> \<lparr>ival = s, iexp = 0\<rparr>)"

lemma string_data [simp]:
  "str_of C (data m) key = str_of C m key" "string_typed (data m) key = string_typed m key"
  "data (put_str key s m) = put_str key s (data m)"
  by (simp_all add: str_of_def string_typed_def put_str_def)

lemma type_not_string [simp]: "TypeOfKeyGet key \<noteq> stringKey k" "stringKey k \<noteq> TypeOfKeyGet key" "stringKey k = stringKey k' \<longleftrightarrow> k = k'"
  by (simp_all add: TypeOfKeyGet_def stringKey_def)

lemma put_str_get [simp]:
  "put_str key s m (stringKey key) = Some \<lparr>ival = s, iexp = 0\<rparr>" "put_str key s m (TypeOfKeyGet key) = Some \<lparr>ival = KeyTypeString, iexp = 0\<rparr>"
  "k \<noteq> TypeOfKeyGet key \<Longrightarrow> k \<noteq> stringKey key \<Longrightarrow> put_str key s m k = m k"
  by (simp_all add: put_str_def)

lemma str_of_put [simp]:
  "str_of C (put_str key s m) key = (case decompressData C s of Inl e \<Rightarrow> Inl e | Inr v \<Rightarrow> Inr (Some v))"
  by (simp add: str_of_def)

text \<open>A write of \<open>v\<close>: the type record and the stored form of the value, and nothing else.\<close>

definition wrote :: "codecs \<Rightarrow> CompressionType \<Rightarrow> bytes \<Rightarrow> bytes \<Rightarrow> (bytes \<rightharpoonup> item) \<Rightarrow> (bytes \<rightharpoonup> item) \<Rightarrow> bool" where
  "wrote C ct key v m m' \<longleftrightarrow> (\<exists>s. storedValue C ct v = Inr s \<and> m' = put_str key s m)"

lemma wrote_reads:
  assumes "wrote C ct key v m m'" "codecs_ok C" "\<not> has_magic v"
  shows "str_of C m' key = Inr (Some v)" "string_typed m' key"
  using assms storedValue_read by (auto simp: wrote_def string_typed_def)

context badger_txn
begin

lemma string_ops_run [txn_simps]:
  "checkStringType B key t = (if string_typed (view t) key then Inr ((), t) else Inl ErrWrongType)"
  "readString C B key t = (case str_of C (view t) key of Inl e \<Rightarrow> Inl e | Inr v \<Rightarrow> Inr (v, t))"
  "getStringBytes C B key t = (case str_of C (view t) key of Inl e \<Rightarrow> Inl e | Inr v \<Rightarrow> Inr (case v of None \<Rightarrow> [] | Some x \<Rightarrow> x, t))"
  by (auto simp: checkStringType_def readString_def getStringBytes_def string_typed_def str_of_def bnd_def txn_simps
      split: option.splits sum.splits)

lemma writeString_run:
  "writeString C ct B key v t = (case storedValue C ct v of Inl e \<Rightarrow> Inl e
     | Inr s \<Rightarrow> Inr ((), upd (upd t (TypeOfKeyGet key) (Some \<lparr>ival = KeyTypeString, iexp = 0\<rparr>)) (stringKey key) (Some \<lparr>ival = s, iexp = 0\<rparr>)))"
  by (simp add: writeString_def andThen_def bnd_def txn_simps split: sum.split)

lemma writeRaw_run:
  "writeRaw B key v t = Inr ((), upd (upd t (TypeOfKeyGet key) (Some \<lparr>ival = KeyTypeString, iexp = 0\<rparr>)) (stringKey key) (Some \<lparr>ival = v, iexp = 0\<rparr>))"
  by (simp add: writeRaw_def andThen_def bnd_def txn_simps)

lemma view_put_str:
  "view (upd (upd t (TypeOfKeyGet key) (Some \<lparr>ival = KeyTypeString, iexp = 0\<rparr>)) (stringKey key) (Some \<lparr>ival = s, iexp = 0\<rparr>))
   = put_str key s (view t)"
  by (simp add: view_upd put_str_def)

lemma writeString_wrote:
  assumes "writeString C ct B key v t = Inr (u, t')"
  shows "wrote C ct key v (data (view t)) (data (view t'))"
  using assms by (auto simp: writeString_run wrote_def view_put_str split: sum.splits)

lemma regular_strings [simp, intro]:
  "regular (checkStringType B key)" "regular (readString C B key)" "regular (getStringBytes C B key)"
  "regular (writeString C ct B key v)" "regular (writeRaw B key v)"
  unfolding checkStringType_def readString_def getStringBytes_def writeString_def writeRaw_def
  by (intro regular_bnd regular_andThen regular_branches regular_ops regular_ret regular_fail regular_compression)+

end

section \<open>What the writes do\<close>

definition overlay :: "bytes \<Rightarrow> nat \<Rightarrow> bytes \<Rightarrow> bytes" where
  "overlay old n x = take n (old @ replicate (n - length old) (CHR 0x00)) @ x @ drop (n + length x) old"

lemma setRange_overlay:
  assumes "0 \<le> offset" "offset + int (length value) < 2 ^ 63" "setRange mem old offset value = Inr w"
  shows "w = overlay old (nat offset) value"
proof -
  have "i64 (offset + int (length value)) = offset + int (length value)"
    unfolding i64_def by (rule sint_u64) (use assms(1,2) in simp_all)
  then show ?thesis using assms(1,3)
    by (auto simp: setRange_def overlay_def makeSlice_def Let_def nat_add_distrib nat_diff_distrib split: if_splits)
qed

lemma overlay_props:
  shows "length (overlay old n x) = max (length old) (n + length x)"
    and "x \<noteq> [] \<Longrightarrow> getRange (overlay old n x) (int n) (int n + int (length x) - 1) = x"
    and "i < length old \<Longrightarrow> i < n \<or> n + length x \<le> i \<Longrightarrow> overlay old n x ! i = old ! i"
proof -
  have l: "length (take n (old @ replicate (n - length old) (CHR 0x00))) = n" by simp
  show len: "length (overlay old n x) = max (length old) (n + length x)" by (simp add: overlay_def)
  show "getRange (overlay old n x) (int n) (int n + int (length x) - 1) = x" if "x \<noteq> []"
  proof -
    have "length x \<noteq> 0" using that by simp
    then obtain k where k: "length x = Suc k" using not0_implies_Suc by blast
    then have "clampEnd (int (length (overlay old n x))) (int n + int (length x) - 1) = int n + int (length x) - 1"
      unfolding len clampEnd_def Let_def by (simp add: max_def)
    moreover have "take (length x) (drop n (overlay old n x)) = x" unfolding overlay_def using l by simp
    ultimately show ?thesis using k len by (simp add: getRange_def clampStart_def Let_def nat_add_distrib)
  qed
  show "overlay old n x ! i = old ! i" if "i < length old" "i < n \<or> n + length x \<le> i"
    using that by (auto simp: overlay_def nth_append)
qed

definition incr_spec :: "codecs \<Rightarrow> bytes \<Rightarrow> int \<Rightarrow> (bytes \<rightharpoonup> item) \<Rightarrow> int \<Rightarrow> (bytes \<rightharpoonup> item) \<Rightarrow> bool" where
  "incr_spec C key increment m result m' \<longleftrightarrow> string_typed m key
     \<and> (\<exists>old. str_of C m key = Inr old
          \<and> (case old of None \<Rightarrow> Some 0 | Some v \<Rightarrow> parse_int v) = Some (result - increment))
     \<and> min_int64 \<le> result \<and> result \<le> max_int64 \<and> m' = put_str key (itoa result) m"

definition getset_spec :: "codecs \<Rightarrow> CompressionType \<Rightarrow> bytes \<Rightarrow> bytes \<Rightarrow> (bytes \<rightharpoonup> item) \<Rightarrow> bytes \<Rightarrow> (bytes \<rightharpoonup> item) \<Rightarrow> bool" where
  "getset_spec C ct key value m old m' \<longleftrightarrow>
     str_of C m key = Inr (if old = [] \<and> m (stringKey key) = None then None else Some old) \<and> wrote C ct key value m m'"

context badger_txn
begin

lemma setBody_post:
  assumes "setBody C ct B key value c t = Inr (c', t')"
  shows "string_typed (data (view t)) key \<and> wrote C ct key value (data (view t)) (data (view t'))"
  using assms writeString_wrote by (auto simp: setBody_def andThen_def bnd_def txn_simps split: if_splits)

lemma setnxBody_post:
  assumes "setnxBody C ct B key value c t = Inr (ok, t')"
  shows "ok = (data (view t) (stringKey key) = None)
    \<and> (if ok then wrote C ct key value (data (view t)) (data (view t')) else data (view t') = data (view t))"
  using assms by (auto simp: setnxBody_def andThen_def bnd_def txn_simps intro: writeString_wrote split: option.splits sum.splits)

lemma getsetBody_post:
  assumes "getsetBody C ct B key value c t = Inr (old, t')"
  shows "getset_spec C ct key value (data (view t)) old (data (view t'))"
proof -
  obtain v u where "str_of C (view t) key = Inr v" "old = (case v of None \<Rightarrow> [] | Some x \<Rightarrow> x)"
    and w: "writeString C ct B key value t = Inr (u, t')"
    using assms by (auto simp: getsetBody_def andThen_def bnd_def txn_simps split: sum.splits)
  with writeString_wrote [OF w] show ?thesis by (auto simp: getset_spec_def str_of_def split: option.splits sum.splits)
qed

lemma appendBody_post:
  assumes "appendBody C ct B key value c t = Inr (n, t')"
  shows "\<exists>old. str_of C (data (view t)) key = Inr old
    \<and> (let v = (case old of None \<Rightarrow> [] | Some x \<Rightarrow> x) @ value
       in n = int (length v) \<and> string_typed (data (view t)) key \<and> wrote C ct key v (data (view t)) (data (view t')))"
proof -
  obtain v u where "str_of C (view t) key = Inr v" "string_typed (view t) key" "n = int (length ((case v of None \<Rightarrow> [] | Some x \<Rightarrow> x) @ value))"
    and w: "writeString C ct B key ((case v of None \<Rightarrow> [] | Some x \<Rightarrow> x) @ value) t = Inr (u, t')"
    using assms by (auto simp: appendBody_def andThen_def bnd_def string_ops_run Let_def split: sum.splits if_splits)
  with writeString_wrote [OF w] show ?thesis by (intro exI [of _ v]) (simp add: Let_def)
qed

lemma setrangeBody_post:
  assumes "setrangeBody mem C ct B key offset value c t = Inr (n, t')" "0 \<le> offset" "offset + int (length value) < 2 ^ 63"
  shows "\<exists>old. str_of C (data (view t)) key = Inr old
    \<and> (let v = overlay (case old of None \<Rightarrow> [] | Some x \<Rightarrow> x) (nat offset) value
       in n = int (length v) \<and> wrote C ct key v (data (view t)) (data (view t')))"
proof -
  obtain v x u where v: "str_of C (view t) key = Inr v" "setRange mem (case v of None \<Rightarrow> [] | Some x \<Rightarrow> x) offset value = Inr x" "n = int (length x)"
    and w: "writeString C ct B key x t = Inr (u, t')"
    using assms(1) by (auto simp: setrangeBody_def andThen_def bnd_def string_ops_run split: sum.splits)
  from writeString_wrote [OF w] setRange_overlay [OF assms(2,3) v(2)] v(1,3) show ?thesis by (intro exI [of _ v]) (simp add: Let_def)
qed

lemma regular_string_bodies:
  "regular (setBody C ct B key value c)" "regular (setnxBody C ct B key value d)" "regular (getsetBody C ct B key value e)"
  "regular (appendBody C ct B key value n)" "regular (setrangeBody mem C ct B key offset value n)" "regular (incrbyBody C B key increment n)"
  "regular (setbitBody mem C ct B key offset b n)"
  unfolding setBody_def setnxBody_def getsetBody_def appendBody_def setrangeBody_def incrbyBody_def setbitBody_def getIntValue_def setIntValue_def Let_def
  by (intro regular_bnd regular_andThen regular_branches regular_ops regular_ret regular_fail regular_strings)+

end

section \<open>Single bits\<close>

lemma bit_mod_256: "bit ((n :: nat) mod 256) j \<longleftrightarrow> j < 8 \<and> bit n j"
proof -
  have "n mod 256 = take_bit 8 n" by (simp add: take_bit_eq_mod)
  then show ?thesis by (simp add: bit_take_bit_iff)
qed

lemma testBit_putBit: "k < 8 \<Longrightarrow> testBit (putBit b k v) j = (if j = k then v else testBit b j)"
  by (auto simp: testBit_def putBit_def bit_mod_256 bit_set_bit_iff bit_unset_bit_iff)

text \<open>Bit \<open>i\<close> of a string that is zero beyond its end.\<close>

definition bit_of :: "bytes \<Rightarrow> nat \<Rightarrow> bool" where
  "bit_of dat i = (i div 8 < length dat \<and> bitAt dat i)"

definition setBit :: "bytes \<Rightarrow> nat \<Rightarrow> bool \<Rightarrow> bytes" where
  "setBit dat i v = (let buf = dat @ replicate (Suc (i div 8) - length dat) (CHR 0x00)
     in buf[i div 8 := putBit (buf ! (i div 8)) (7 - i mod 8) v])"

lemma testBit_zero [simp]: "\<not> testBit (CHR 0x00) k"
  by (simp add: testBit_def)

lemma bitAt_putBit:
  assumes "i div 8 < length buf"
  shows "bitAt (buf[i div 8 := putBit (buf ! (i div 8)) (7 - i mod 8) v]) j = (if j = i then v else bitAt buf j)"
proof (cases "j div 8 = i div 8")
  case True
  have "j mod 8 < 8" "i mod 8 < 8" by simp_all
  moreover have "j = i \<longleftrightarrow> j mod 8 = i mod 8" using True by (metis div_mult_mod_eq)
  ultimately have "7 - j mod 8 = 7 - i mod 8 \<longleftrightarrow> j = i" by linarith
  then show ?thesis using True assms by (simp add: bitAt_def testBit_putBit)
next
  case False
  then have "j \<noteq> i" by auto
  then show ?thesis using False by (simp add: bitAt_def)
qed

lemma bit_of_setBit: "bit_of (setBit dat i v) j = (if j = i then v else bit_of dat j)"
proof -
  define buf where "buf = dat @ replicate (Suc (i div 8) - length dat) (CHR 0x00)"
  have i: "i div 8 < length buf" by (simp add: buf_def)
  have b: "j div 8 < length buf \<and> bitAt buf j \<longleftrightarrow> bit_of dat j" for j
    by (auto simp: bit_of_def bitAt_def buf_def nth_append)
  have "bit_of (setBit dat i v) j \<longleftrightarrow> j div 8 < length buf \<and> (if j = i then v else bitAt buf j)"
    unfolding setBit_def Let_def buf_def [symmetric] bit_of_def [of "buf[_ := _]"] using bitAt_putBit [OF i] by simp
  then show ?thesis using b [of j] i by auto
qed

lemma quot_rem_nat: "0 \<le> n \<Longrightarrow> quot n 8 = n div 8" "0 \<le> n \<Longrightarrow> rem n 8 = n mod 8"
  by (simp_all add: quot_def rem_def minus_div_mult_eq_mod [symmetric] mult.commute)

context badger_txn
begin

lemma setbitBody_post:
  assumes "setbitBody mem C ct B key offset value c t = Inr (o1, t')" "0 \<le> offset"
  shows "\<exists>old. str_of C (data (view t)) key = Inr old
    \<and> (let dat = (case old of None \<Rightarrow> [] | Some x \<Rightarrow> x)
       in o1 = (if bit_of dat (nat offset) then 1 else 0)
          \<and> wrote C ct key (setBit dat (nat offset) (value = 1)) (data (view t)) (data (view t')))"
proof -
  let ?i = "nat offset"
  obtain old where old: "str_of C (view t) key = Inr old"
    using assms(1) by (auto simp: setbitBody_def bnd_def string_ops_run split: sum.splits)
  define dat where "dat = (case old of None \<Rightarrow> [] | Some x \<Rightarrow> x)"
  define buf where "buf = dat @ replicate (Suc (?i div 8) - length dat) (CHR 0x00)"
  have q: "quot offset 8 = int (?i div 8)" "nat (quot offset 8) = ?i div 8" "nat (7 - rem offset 8) = 7 - ?i mod 8"
    using assms(2) by (simp_all add: quot_rem_nat nat_div_distrib zdiv_int nat_diff_distrib nat_mod_distrib)
  have n: "nat (int (?i div 8) + 1) = Suc (?i div 8)" by simp
  have grow: "(if quot offset 8 \<ge> int (length dat)
       then (case makeSlice mem (quot offset 8 + 1) of Inl e \<Rightarrow> Inl e | Inr z \<Rightarrow> Inr (dat @ drop (length dat) z))
       else Inr dat) \<in> {Inl (Panic ''makeslice: len out of range''), Inr buf}"
    unfolding q(1) buf_def makeSlice_def n by (auto simp del: replicate.simps)
  have old_bit: "testBit (buf ! (?i div 8)) (7 - ?i mod 8) = bit_of dat ?i"
    by (auto simp: buf_def bit_of_def bitAt_def nth_append)
  have "\<not> quot offset 8 < 0" using q(1) by simp
  then have run: "writeString C ct B key (setBit dat ?i (value = 1)) t = Inr ((), t') \<and> o1 = (if bit_of dat ?i then 1 else 0)"
    using assms(1) grow old unfolding setbitBody_def bnd_def string_ops_run(3) old sum.case prod.case dat_def [symmetric] Let_def
    by (auto simp: andThen_def bnd_def q(2,3) setBit_def buf_def [symmetric] old_bit Let_def split: sum.splits if_splits)
  show ?thesis
    by (rule exI [of _ old]) (use old run writeString_wrote [OF conjunct1 [OF run]] in \<open>simp add: Let_def dat_def [symmetric]\<close>)
qed

end

lemma parse_int_range: "parse_int v = Some x \<Longrightarrow> min_int64 \<le> x \<and> x \<le> max_int64"
  by (auto simp: parse_int_def Let_def split: prod.splits option.splits if_splits)

lemma i64_id: "min_int64 \<le> x \<Longrightarrow> x \<le> max_int64 \<Longrightarrow> i64 x = x"
  unfolding i64_def min_int64_def max_int64_def by (rule sint_u64) simp_all

context badger_txn
begin

lemma getIntValue_run:
  "getIntValue C B key t = (case str_of C (view t) key of
      Inl e \<Rightarrow> Inl e
    | Inr old \<Rightarrow> (case (case old of None \<Rightarrow> Some 0 | Some v \<Rightarrow> parse_int v) of
        None \<Rightarrow> Inl (Errorf ''value is not an integer'') | Some x \<Rightarrow> Inr (x, t)))"
  by (simp add: getIntValue_def bnd_def string_ops_run split: sum.split option.split)

lemma incrbyBody_post:
  assumes "incrbyBody C B key increment c t = Inr (result, t')" "min_int64 \<le> increment" "increment \<le> max_int64"
  shows "incr_spec C key increment (data (view t)) result (data (view t'))"
proof -
  obtain old x where o: "string_typed (view t) key" "str_of C (view t) key = Inr old" "(case old of None \<Rightarrow> Some 0 | Some v \<Rightarrow> parse_int v) = Some x"
    and ok: "\<not> (increment > 0 \<and> x > max_int64 - increment)" "\<not> (increment < 0 \<and> x < min_int64 - increment)"
    and run: "setIntValue B key (i64 (x + increment)) t = Inr ((), t')" "result = i64 (x + increment)"
    using assms(1)
    by (auto simp: incrbyBody_def andThen_def bnd_def string_ops_run getIntValue_run Let_def split: if_splits sum.splits option.splits)
  have "min_int64 \<le> x \<and> x \<le> max_int64"
    using o(3) parse_int_range by (auto simp: min_int64_def max_int64_def split: option.splits)
  then have r: "min_int64 \<le> x + increment" "x + increment \<le> max_int64" using ok assms(2,3) by auto
  then have "result = x + increment" using run(2) i64_id by simp
  moreover have "data (view t') = put_str key (itoa result) (data (view t))"
    using run by (auto simp: setIntValue_def writeRaw_run view_put_str)
  ultimately show ?thesis using o r by (auto simp: incr_spec_def)
qed

text \<open>\<^verbatim>\<open>INCRBY\<close> fails exactly on another type, an unreadable value, no integer or an overflow.\<close>

lemma incrbyBody_fails:
  assumes "incrbyBody C B key increment c t = Inl e"
  shows "(e = ErrWrongType \<and> \<not> string_typed (view t) key) \<or> str_of C (view t) key = Inl e
    \<or> (\<exists>v. str_of C (view t) key = Inr (Some v) \<and> parse_int v = None)
    \<or> (\<exists>old x. str_of C (view t) key = Inr old \<and> (case old of None \<Rightarrow> Some 0 | Some v \<Rightarrow> parse_int v) = Some x
         \<and> \<not> (min_int64 \<le> x + increment \<and> x + increment \<le> max_int64))"
  using assms
  by (auto simp: incrbyBody_def andThen_def bnd_def string_ops_run getIntValue_run Let_def setIntValue_def writeRaw_run
      split: if_splits sum.splits option.splits)

end

section \<open>What the reads answer\<close>

lemma wrote_type: "wrote C ct key v m m' \<Longrightarrow> m' (TypeOfKeyGet key) = Some \<lparr>ival = KeyTypeString, iexp = 0\<rparr>"
  by (auto simp: wrote_def)

context badger_db
begin

lemma GetString_run:
  assumes "string_typed (snap (db st) MaxUint64) key"
  shows "GetString C B D key st = (case str_of C (snap (db st) MaxUint64) key of
      Inl e \<Rightarrow> Inl e | Inr None \<Rightarrow> Inl ErrStoreKeyNotFound | Inr (Some v) \<Rightarrow> Inr v)"
  using assms by (simp add: GetString_def View_def andThen_def bnd_def string_ops_run new_view split: sum.split option.split)

lemma GetRange_run:
  assumes "snap (db st) MaxUint64 (TypeOfKeyGet key) = Some \<lparr>ival = KeyTypeString, iexp = 0\<rparr>"
    "str_of C (snap (db st) MaxUint64) key = Inr (Some v)"
  shows "GetRange C B D key start fin st = Inr (getRange v start fin)" "StrLen C B D key st = Inr (int (length v))"
  using assms by (simp_all add: GetRange_def StrLen_def View_def andThen_def bnd_def checkKeyType_def lookupValue_run string_ops_run new_view)

lemma GetBit_run:
  assumes "str_of C (snap (db st) MaxUint64) key = Inr old" "0 \<le> offset"
  shows "GetBit C B D key offset st = Inr (if bit_of (case old of None \<Rightarrow> [] | Some x \<Rightarrow> x) (nat offset) then 1 else 0)"
proof -
  have q: "quot offset 8 = int (nat offset div 8)" "nat (7 - rem offset 8) = 7 - nat offset mod 8"
    using assms(2) by (simp_all add: quot_rem_nat zdiv_int nat_diff_distrib nat_mod_distrib)
  show ?thesis using assms(1)
    by (simp add: GetBit_def View_def bnd_def string_ops_run new_view q bit_of_def bitAt_def Let_def)
qed

end

text \<open>Counting bytes is counting the bits they span.\<close>

lemma countBytes_bits:
  assumes "s \<le> e"
  shows "countBytes dat (int s) (int e) = countBits dat (int (8 * s)) (int (8 * e + 7))"
proof -
  have one: "length (filter (\<lambda>j. testBit (dat ! i) (7 - j)) [0..<8]) = length (filter (bitAt dat) [8 * i..<8 * i + 8])" for i
  proof -
    have m: "[8 * i..<8 * i + 8] = map (\<lambda>j. j + 8 * i) [0..<8]" unfolding map_add_upt by (simp only: add.commute)
    have "filter (bitAt dat \<circ> (\<lambda>j. j + 8 * i)) [0..<8] = filter (\<lambda>j. testBit (dat ! i) (7 - j)) [0..<8]"
      by (rule filter_cong) (auto simp: bitAt_def)
    then show ?thesis unfolding m filter_map length_map by simp
  qed
  have "sum_list (map (\<lambda>i. int (length (filter (\<lambda>j. testBit (dat ! i) (7 - j)) [0..<8]))) [s..<s + n])
      = int (length (filter (bitAt dat) [8 * s..<8 * (s + n)]))" for n
  proof (induction n)
    case (Suc n)
    have "[8 * s..<8 * (s + Suc n)] = [8 * s..<8 * (s + n)] @ [8 * (s + n)..<8 * (s + n) + 8]"
      by (subst upt_add_eq_append [symmetric]) (simp_all add: add.commute)
    with Suc show ?case by (simp add: one)
  qed simp
  note sum = this [of "e + 1 - s"]
  have "s + (e + 1 - s) = e + 1" using assms by simp
  moreover have "nat (int e + 1) = e + 1" "nat (int (8 * e + 7) + 1) = 8 * (e + 1)" by (simp_all add: nat_add_distrib nat_mult_distrib)
  ultimately show ?thesis using sum unfolding countBytes_def countBits_def nat_int by simp
qed

lemma countBits_card: "countBits dat (int a) (int b) = int (card {i. a \<le> i \<and> i \<le> b \<and> bitAt dat i})"
proof -
  have "length (filter (bitAt dat) [a..<Suc b]) = card (set (filter (bitAt dat) [a..<Suc b]))"
    by (rule distinct_card [symmetric]) simp
  also have "set (filter (bitAt dat) [a..<Suc b]) = {i. a \<le> i \<and> i \<le> b \<and> bitAt dat i}" by auto
  finally show ?thesis by (simp add: countBits_def nat_add_distrib del: filter.simps upt_Suc)
qed

end
