(* ===== verification/StringProps.thy ===== *)
theory StringProps
  imports Strings
begin

text \<open>
  The properties of the string commands, over any engine that meets the contract, with sample runs on the
  reference engine, and the inputs on which the commands go wrong.
\<close>

section \<open>Properties\<close>


section \<open>Sample runs\<close>

abbreviation str_tx :: kv_txn where
  "str_tx \<equiv> newTransactionAt kv_db_ops (db (kv_with sample_string)) MaxUint64"

lemma str_tx_view [simp]: "kv_view str_tx = map_of sample_string"
  by (simp add: kvd.new_view kv_with_snap)

lemma stored_none [simp]: "storedValue C CompressionNone v = Inr v"
  by (simp add: storedValue_def shouldCompress_def)

lemma plain_sample: "\<not> has_magic ''x''" "\<not> has_magic ''v''" "\<not> has_magic ''xv''" "decompressData sample_codecs ''x'' = Inr ''x''"
  by code_simp+

lemma sample_str: "str_of sample_codecs (map_of sample_string) ''a'' = Inr (Some ''x'')" "string_typed (map_of sample_string) ''a''"
  "map_of sample_string (stringKey ''a'') = Some (plain ''x'')"
  by (simp_all add: str_of_def string_typed_def sample_string_def plain_sample plain_def)

lemma kv_writeString: "\<exists>t'. writeString C CompressionNone kv_ops key v t = Inr ((), t')"
  by (simp add: kv.writeString_run)

lemmas kv_string_run = kv.string_ops_run kv.lookup_run andThen_def bnd_def sample_str Let_def


section \<open>Counters, ranges and bits\<close>

lemma itoa_no_magic: "\<not> has_magic (itoa i)"
proof -
  have no: "\<not> is_digit CHR 0x4C" "\<not> is_digit CHR 0x5A" "\<not> is_digit CHR 0x53" by code_simp+
  have "\<not> prefix (c # cs) (utoa n)" if "\<not> is_digit c" for c cs n
    using that utoa_set [of c n] by (auto simp: prefix_def)
  then show ?thesis using no by (auto simp: has_magic_def itoa_def)
qed

text \<open>C14 \<^verbatim>\<open>INCRBY\<close> never wraps: a committed one on any \<^verbatim>\<open>int64\<close> increment answers the exact sum of the number stored before (0 for
  no string) and the increment, that sum fits \<^verbatim>\<open>int64\<close>, its decimal form is stored and \<^verbatim>\<open>GET\<close> answers it; a failed one
  changes nothing.\<close>

theorem INCRBY_exact:
  assumes "badger_db B view upd now D snap pend" "writable D st" "INCRBY C E B D key increment st = (r, result, st')"
    and "min_int64 \<le> increment" "increment \<le> max_int64"
    and "m = data (snap (db st) MaxUint64)" "m' = data (snap (db st') MaxUint64)"
  shows "case r of Inl e \<Rightarrow> m' = m
    | Inr u \<Rightarrow> incr_spec C key increment m result m' \<and> GetString C B D key st' = Inr (itoa result)"
proof -
  have tx: "badger_txn B view upd now" using assms(1) by (rule badger_db.axioms)
  have post: "case r of Inl e \<Rightarrow> m' = m | Inr u \<Rightarrow> incr_spec C key increment m result m'" unfolding assms(6,7)
    by (rule badger_db.retryUpdate_post [where P = "incr_spec C key increment", OF assms(1,2)
          badger_txn.regular_string_bodies(6) [OF tx] assms(3) [unfolded INCRBY_def]])
      (rule badger_txn.incrbyBody_post [OF tx _ assms(4,5)])
  have "GetString C B D key st' = Inr (itoa result)" if "incr_spec C key increment m result m'"
  proof -
    have "\<not> has_magic (itoa result)" by (rule itoa_no_magic)
    then have "str_of C m' key = Inr (Some (itoa result))" "string_typed m' key"
      using that by (simp_all add: incr_spec_def decompressData_plain string_typed_def)
    then show ?thesis using badger_db.GetString_run [OF assms(1), of st' key C] assms(7) by simp
  qed
  then show ?thesis using post by (auto split: sum.splits)
qed

text \<open>C39 \<^verbatim>\<open>SETRANGE\<close> then \<^verbatim>\<open>GETRANGE\<close>: a committed \<^verbatim>\<open>SETRANGE\<close> at an offset that is not negative overwrites exactly the bytes from
  there on, pads with zeros, and answers the new length, which \<^verbatim>\<open>STRLEN\<close> then answers too; \<^verbatim>\<open>GETRANGE\<close> of the same
  positions answers the bytes written, and every other byte is as before. A failed one changes nothing.\<close>

theorem SetRange_GetRange:
  assumes "badger_db B view upd now D snap pend" "writable D st" "codecs_ok C" "SetRange mem C ct E B D key offset value st = (r, n, st')"
    and "0 \<le> offset" "offset + int (length value) < 2 ^ 63" "value \<noteq> []"
    and "m = data (snap (db st) MaxUint64)" "m' = data (snap (db st') MaxUint64)"
  shows "case r of Inl e \<Rightarrow> m' = m
    | Inr u \<Rightarrow> \<exists>before. str_of C m key = Inr before
        \<and> (let old = (case before of None \<Rightarrow> [] | Some x \<Rightarrow> x); v = overlay old (nat offset) value
           in wrote C ct key v m m' \<and> n = int (max (length old) (nat offset + length value))
              \<and> (\<forall>i < length old. i < nat offset \<or> nat offset + length value \<le> i \<longrightarrow> v ! i = old ! i)
              \<and> (\<not> has_magic v \<longrightarrow> StrLen C B D key st' = Inr n
                   \<and> GetRange C B D key offset (offset + int (length value) - 1) st' = Inr value))"
proof -
  have tx: "badger_txn B view upd now" using assms(1) by (rule badger_db.axioms)
  let ?P = "\<lambda>m n m'. \<exists>old. str_of C m key = Inr old
    \<and> (let v = overlay (case old of None \<Rightarrow> [] | Some x \<Rightarrow> x) (nat offset) value in n = int (length v) \<and> wrote C ct key v m m')"
  have post: "case r of Inl e \<Rightarrow> m' = m | Inr u \<Rightarrow> ?P m n m'" unfolding assms(8,9)
    by (rule badger_db.retryUpdate_post [where P = ?P, OF assms(1,2)
          badger_txn.regular_string_bodies(5) [OF tx] assms(4) [unfolded SetRange_def]])
      (rule badger_txn.setrangeBody_post [OF tx _ assms(5,6)])
  show ?thesis
  proof (cases r)
    case (Inr u)
    then obtain before where b: "str_of C m key = Inr before" using post by auto
    define old where "old = (case before of None \<Rightarrow> [] | Some x \<Rightarrow> x)"
    define v where "v = overlay old (nat offset) value"
    have w: "wrote C ct key v m m'" "n = int (length v)" using post Inr b by (auto simp: v_def old_def Let_def)
    note ov = overlay_props [where old = old and n = "nat offset" and x = "value", folded v_def]
    have "StrLen C B D key st' = Inr n \<and> GetRange C B D key offset (offset + int (length value) - 1) st' = Inr value" if "\<not> has_magic v"
    proof -
      have "str_of C m' key = Inr (Some v)" by (rule wrote_reads(1) [OF w(1) assms(3) that])
      then show ?thesis using badger_db.GetRange_run [OF assms(1), of st' key C v] wrote_type [OF w(1)] ov(2) assms(5,7,9) w(2) by simp
    qed
    then show ?thesis using b w ov(1,3) Inr by (auto simp: old_def [symmetric] v_def [symmetric] Let_def)
  qed (use post in simp)
qed


definition sample_number :: "(bytes \<times> item) list" where
  "sample_number = [(TypeOfKeyGet ''n'', plain KeyTypeString), (stringKey ''n'', plain ''41'')]"

abbreviation num_tx :: kv_txn where
  "num_tx \<equiv> newTransactionAt kv_db_ops (db (kv_with sample_number)) MaxUint64"

lemma num_tx_view [simp]: "kv_view num_tx = map_of sample_number"
  by (simp add: kvd.new_view kv_with_snap)

lemma sample_num: "str_of sample_codecs (map_of sample_number) ''n'' = Inr (Some ''41'')" "string_typed (map_of sample_number) ''n''"
proof -
  have "decompressData sample_codecs ''41'' = Inr ''41''" by code_simp
  then show "str_of sample_codecs (map_of sample_number) ''n'' = Inr (Some ''41'')" "string_typed (map_of sample_number) ''n''"
    by (simp_all add: str_of_def string_typed_def sample_number_def plain_def)
qed

theorem INCRBY_exact_witness:
  "\<exists>st'. INCRBY sample_codecs env0 kv_ops kv_db_ops ''n'' 1 (kv_with sample_number) = (Inr (), 42, st')
     \<and> GetString sample_codecs kv_ops kv_db_ops ''n'' st' = Inr ''42''"
proof -
  have p: "parse_int ''41'' = Some 41" "itoa 42 = ''42''" by code_simp+
  have r: "min_int64 \<le> 1" "1 \<le> max_int64" "\<not> 41 > max_int64 - 1" "i64 42 = 42"
    by (simp_all add: min_int64_def max_int64_def i64_def)
  have "\<exists>t'. incrbyBody sample_codecs kv_ops ''n'' 1 0 num_tx = Inr (42, t')"
    using r by (simp add: incrbyBody_def andThen_def bnd_def kv.string_ops_run kv.getIntValue_run sample_num p setIntValue_def kv.writeRaw_run Let_def)
  then obtain t' where "incrbyBody sample_codecs kv_ops ''n'' 1 0 num_tx = Inr (42, t')" by blast
  from kv_update_first_eager [of "incrbyBody sample_codecs kv_ops ''n'' 1", OF this] obtain st' where
    run: "INCRBY sample_codecs env0 kv_ops kv_db_ops ''n'' 1 (kv_with sample_number) = (Inr (), 42, st')" unfolding INCRBY_def by blast
  from INCRBY_exact [OF kvd.badger_db_axioms kv_with_writable run r(1,2) refl refl] run p(2) show ?thesis by auto
qed

theorem SetRange_GetRange_witness:
  "\<exists>st'. SetRange 100 sample_codecs CompressionNone env0 kv_ops kv_db_ops ''a'' 2 ''v'' (kv_with sample_string) = (Inr (), 3, st')
     \<and> StrLen sample_codecs kv_ops kv_db_ops ''a'' st' = Inr 3
     \<and> GetRange sample_codecs kv_ops kv_db_ops ''a'' 2 2 st' = Inr ''v''"
proof -
  have w: "setRange 100 ''x'' 2 ''v'' = Inr [CHR ''x'', CHR 0x00, CHR ''v'']" by code_simp
  have "\<exists>t'. setrangeBody 100 sample_codecs CompressionNone kv_ops ''a'' 2 ''v'' 0 str_tx = Inr (3, t')"
    by (simp add: setrangeBody_def kv_string_run w kv.writeString_run)
  then obtain t' where "setrangeBody 100 sample_codecs CompressionNone kv_ops ''a'' 2 ''v'' 0 str_tx = Inr (3, t')" by blast
  from kv_update_first_eager [of "setrangeBody 100 sample_codecs CompressionNone kv_ops ''a'' 2 ''v''", OF this] obtain st' where
    run: "SetRange 100 sample_codecs CompressionNone env0 kv_ops kv_db_ops ''a'' 2 ''v'' (kv_with sample_string) = (Inr (), 3, st')"
    unfolding SetRange_def by blast
  have "overlay ''x'' 2 ''v'' = [CHR ''x'', CHR 0x00, CHR ''v'']" "\<not> has_magic [CHR ''x'', CHR 0x00, CHR ''v'']" by code_simp+
  then show ?thesis
    using SetRange_GetRange [OF kvd.badger_db_axioms kv_with_writable sample_codecs_ok run _ _ _ refl refl] run
    by (simp add: kv_with_snap sample_str Let_def)
qed


section \<open>Findings\<close>

text \<open>\<^verbatim>\<open>BITFIELD\<close> with \<^verbatim>\<open>OVERFLOW WRAP\<close> answers \<open>- 129\<close> when a signed 8-bit field wraps below its minimum, since Go's remainder keeps
  the sign; a field that starts inside the string and ends behind it is written out of range; \<^verbatim>\<open>DECRBY\<close> of the
  smallest \<^verbatim>\<open>int64\<close> subtracts its own negation, which is the same number.\<close>

lemma BitField_wrap_report: "incrSigned 8 ''WRAP'' (- 128) (- 1) = Inr (- 129)"
  by code_simp

lemma BitField_straddle_panics: "writeBits ''x'' 0 [0..<16] 1 = Inl (Panic ''index out of range'')"
  by code_simp

lemma DECRBY_min: "DECRBY C E B D key min_int64 st = INCRBY C E B D key min_int64 st"
  by (simp add: DECRBY_def min_int64_def i64_def)

text \<open>\<^verbatim>\<open>SETNX\<close> looks only at the string record: on a key that holds a list it succeeds and turns it into a string.\<close>

lemma SetNX_overwrites_other_type:
  assumes "badger_txn B view upd now" "view t (stringKey key) = None" "view t (TypeOfKeyGet key) = Some \<lparr>ival = KeyTypeList, iexp = 0\<rparr>"
  shows "\<exists>t'. setnxBody C CompressionNone B key v c t = Inr (True, t') \<and> view t' (TypeOfKeyGet key) = Some \<lparr>ival = KeyTypeString, iexp = 0\<rparr>"
  using assms(2) by (simp add: setnxBody_def andThen_def bnd_def badger_txn.lookup_run [OF assms(1)] badger_txn.writeString_run [OF assms(1)]
      badger_txn.view_put_str [OF assms(1)])

text \<open>A panic inside a body burns its timestamp without a tombstone, although the comment in \<^verbatim>\<open>commitTS\<close> says a failed attempt
  must leave one: \<^verbatim>\<open>SETRANGE a -2 v\<close>, which the server passes on unchecked, leaves a hole at timestamp 3, and every later
  read of the feed from before it fails.\<close>

lemma panic_leaves_no_tombstone:
  assumes "fn c (newTransactionAt D (db st) MaxUint64) = Inl (Panic e)"
  shows "commitTS B D fn lv c st = (Inl (Panic e), c, st\<lparr>tsSrc := tsEnd (ts_next (tsSrc st)) (snd (tsBegin (tsSrc st)))\<rparr>)"
  using assms by (simp add: commitTS_def tsBegin_def Let_def is_panic_def)

lemma verify_no_hole:
  assumes "verifyFeedTSContinuity es = Inr ()" "sorted_wrt (<) (map eTS es)" "a \<in> eTS ` set es" "b \<in> eTS ` set es" "a \<le> x" "x \<le> b"
  shows "x \<in> eTS ` set es"
  using assms
proof (induction es arbitrary: a rule: verifyFeedTSContinuity.induct)
  case (1 e e' es)
  show ?case
  proof (cases "x \<le> eTS e")
    case True
    have "eTS e \<le> a" using "1.prems"(2,3) by (auto intro: order.strict_implies_order)
    then show ?thesis using True "1.prems"(5) by auto
  next
    case False
    have lt: "eTS e < eTS e'" "eTS e' = eTS e + 1" "verifyFeedTSContinuity (e' # es) = Inr ()" using "1.prems"(1,2) by (auto split: if_splits)
    have "eTS e' \<le> x" using False inc_u64(4) [OF lt(1), of x] lt(2) by (simp add: not_le)
    moreover have "b \<in> eTS ` set (e' # es)" using "1.prems"(4,6) False by auto
    ultimately have "x \<in> eTS ` set (e' # es)" using "1.IH" [OF _ lt(3), of "eTS e'"] "1.prems"(2,6) lt(2) by auto
    then show ?thesis by auto
  qed
qed auto

lemma hole_breaks_feed:
  assumes "badger_db B view upd now D snap pend" "log_wf (snap (db st) dn)" "dn = ReplLogDoneTS st"
    and "ts \<notin> log_ts (snap (db st) dn)" "a \<in> log_ts (snap (db st) dn)" "b \<in> log_ts (snap (db st) dn)"
    and "since \<le> a" "a < ts" "ts < b" "b \<le> dn"
  shows "\<exists>x. FeedEntriesFrom B D spare st since = Inl (FeedGap x)"
proof -
  let ?S = "{t \<in> log_ts (snap (db st) dn). since \<le> t \<and> t \<le> dn}"
  let ?es = "map (log_entry (snap (db st) dn)) (sorted_list_of_set ?S)"
  have "eTS \<circ> log_entry (snap (db st) dn) = id" by (auto simp: log_entry_def)
  then have m: "map eTS ?es = sorted_list_of_set ?S" by simp
  have set: "eTS ` set ?es = ?S" using arg_cong [OF m, of set] by (simp add: image_image)
  have ab: "a \<in> ?S" "b \<in> ?S" "ts \<notin> ?S" "a \<le> ts" "ts \<le> b"
    using assms(4-10) by (auto intro: order.trans order.strict_implies_order)
  have "verifyFeedTSContinuity ?es \<noteq> Inr ()"
  proof
    assume "verifyFeedTSContinuity ?es = Inr ()"
    moreover have "sorted_wrt (<) (map eTS ?es)" unfolding m by (rule strict_sorted_list_of_set)
    ultimately have "ts \<in> eTS ` set ?es" by (rule verify_no_hole [of _ a b]) (use ab set in auto)
    then show False using ab(3) set by simp
  qed
  moreover have "\<exists>x. verifyFeedTSContinuity es = Inl (FeedGap x)" if "verifyFeedTSContinuity es \<noteq> Inr ()" for es
    using that by (induction es rule: verifyFeedTSContinuity.induct) (auto split: if_splits)
  ultimately obtain x where "verifyFeedTSContinuity ?es = Inl (FeedGap x)" by blast
  then show ?thesis using badger_db.ReplLogEntriesRange_run [OF assms(1,2), of since] assms(3)
    by (simp add: FeedEntriesFrom_def)
qed

end
