(* ===== verification/Spec2Isabelle.thy ===== *)
theory Spec2Isabelle
  imports BoltPrelude Resp Badger TsSource ReplLog Commit Feed Keyspace Counted Sets Glob Scan Compression Hashes Lists ListChain ListProps Strings StringProps
begin

text \<open>
  BoltDB is a server that speaks the Redis protocol and keeps its data in the embedded key-value engine Badger. A
  request comes in over the RESP protocol (\<^verbatim>\<open>internal/proto\<close>), the server (\<^verbatim>\<open>internal/server\<close>) calls an operation of the
  store (\<^verbatim>\<open>internal/store\<close>), and the store runs a transaction on Badger in managed mode: it chooses the commit
  timestamp itself and writes, in the same transaction as the data, the command to replay on the replicas. The
  replication feed (\<^verbatim>\<open>internal/replication\<close>) reads these commands up to a completion watermark and sends them on.

  \<^bold>\<open>Theories and sources.\<close>
  \<^item> \<open>BoltPrelude\<close>: byte strings, decimal numbers of \<^verbatim>\<open>strconv\<close>, the 8-byte encoding of \<^verbatim>\<open>internal/helper/tools.go\<close>.
  \<^item> \<open>Resp\<close>: \<^verbatim>\<open>internal/proto/resp.go\<close>, readers, printers and limits. The reader inverts the printer on a pipeline of
    requests, stays within its limits, and the two printers agree.
  \<^item> \<open>Badger\<close>: the interface of the engine. \<open>txn_ops\<close> and \<open>db_ops\<close> are its operations, the state and error monad \<open>tx\<close> is
    the body of a transaction, the locales \<open>badger_txn\<close> and \<open>badger_db\<close> state the contract, and a reference engine over
    association lists with versions interprets both, so that the contract can be met and every witness runs on it.
  \<^item> \<open>TsSource\<close>: \<^verbatim>\<open>internal/store/ts_source.go\<close>, the timestamp source, and its concurrent writers as a step relation: in
    every interleaving the log has no hole below the watermark and the discard timestamp never passes it.
  \<^item> \<open>ReplLog\<close>: \<^verbatim>\<open>internal/store/repl_log.go\<close>, keys, values and range reads of the log.
  \<^item> \<open>Commit\<close>: \<^verbatim>\<open>commitTS\<close>, the retry loops of \<^verbatim>\<open>set.go\<close> and \<^verbatim>\<open>backpressure.go\<close>: a write takes effect exactly once or not at
    all, gives its resources back, and one \<^verbatim>\<open>commitTS\<close> refines the steps of a writer. The record \<open>store\<close> is the part of
    \<^verbatim>\<open>BotreonStore\<close> these functions use. A run-time panic of a body unwinds like Go's: the deferred calls run, nothing
    else does.
  \<^item> \<open>Feed\<close>: \<^verbatim>\<open>feed_source.go\<close>, \<^verbatim>\<open>feed_wire.go\<close>, \<^verbatim>\<open>psync.go\<close> and the callers in \<^verbatim>\<open>replication.go\<close> and \<^verbatim>\<open>slave.go\<close>: each logged
    command reaches the replica exactly once and in order; when PSYNC grants a partial resynchronisation.
  \<^item> \<open>Keyspace\<close>: the layout of keys (\<^verbatim>\<open>define.go\<close> and the type files), \<^verbatim>\<open>del.go\<close> and \<^verbatim>\<open>base.go\<close>: \<^verbatim>\<open>DEL\<close>, \<^verbatim>\<open>EXISTS\<close>, \<^verbatim>\<open>TYPE\<close>,
    expiry, \<^verbatim>\<open>PERSIST\<close>.
  \<^item> \<open>Counted\<close> and \<open>Sets\<close>: the layout of elements beside a counter as a locale, interpreted for sets and hashes;
    \<^verbatim>\<open>set.go\<close> and \<^verbatim>\<open>random.go\<close> as operations on mathematical sets.
  \<^item> \<open>Glob\<close> and \<open>Scan\<close>: \<^verbatim>\<open>scan.go\<close>. The matcher is equivalent to the inductive meaning of a pattern, a full \<^verbatim>\<open>SCAN\<close>
    terminates and visits every key.
  \<^item> \<open>Compression\<close> and \<open>Hashes\<close>: \<^verbatim>\<open>compression.go\<close> (codecs are arguments) and \<^verbatim>\<open>hash.go\<close>.
  \<^item> \<open>Lists\<close>, \<open>ListChain\<close>, \<open>ListProps\<close>: the list commands on linked records; the chain of records represents a list of
    values, and pushes, pops, moves and reads act on that list.
  \<^item> \<open>Strings\<close>, \<open>StringProps\<close>: \<^verbatim>\<open>string.go\<close>, bit operations and \<^verbatim>\<open>BITFIELD\<close> included: writes are read back, \<^verbatim>\<open>INCRBY\<close> is exact,
    ranges and single bits change exactly where they should.

  \<^bold>\<open>How the model reads.\<close> A Go method with a closure passed to \<^verbatim>\<open>retryUpdate\<close> is a body (\<open>...Body\<close>) and a command of the
  method's name. The variables a closure captures are its argument \<open>c\<close>, threaded from attempt to attempt as Go's
  closures share them. Clock readings, random draws, node names from the \<^verbatim>\<open>uuid\<close> package, the iteration order of Go
  maps and the level scores of Badger are arguments. An \<^verbatim>\<open>int\<close> or \<^verbatim>\<open>int64\<close> is an \<open>int\<close> with \<open>i64\<close> where the code can wrap, a
  \<^verbatim>\<open>uint64\<close> a 64-bit word. A property of a command holds for every engine that meets the contract, whatever
  conflicts it reports; its shape is: a failed command leaves the data as it was, a committed one relates the data
  before and after by a specification over the represented sets, maps or lists.

  \<^bold>\<open>Bounds and fuel.\<close> The retry loops make at most the 30 attempts of the source. Walks over a list take the stored
  length as their bound, as the code does. \<open>deleteChain\<close> and \<open>trimTail\<close> have fuel for two rounds, which is enough
  (\<open>deleteChain_fuel\<close>, \<open>trimTail_fuel\<close>): the link they follow was deleted with its node. The decoder of log values takes the capacity behind
  the slice as an argument, because a Go slice expression may reach into it.

  \<^bold>\<open>Findings.\<close> Where the code does not do what it is for, a lemma shows the input: a command with a line break inside
  an argument reaches a replica truncated, a restart empties the feed, \<^verbatim>\<open>SMOVE\<close> onto the same key deletes, \<^verbatim>\<open>SSCAN\<close> with
  count 1 does not advance, a short value that starts with a compression mark cannot be read, \<^verbatim>\<open>LINSERT\<close> at either
  end of a pushed list loses elements or fails, a panic in a transaction leaves a hole that stops the feed, a wrapped
  \<^verbatim>\<open>BITFIELD\<close> reports a value outside its type, and others.

  \<^bold>\<open>Not modelled.\<close> The locks of \<^verbatim>\<open>keyLockMgr\<close> only order commands, and the error injector is nil outside the tests; both
  are left out of the operations. Sorted sets, geospatial indexes, time series, HyperLogLog and \<^verbatim>\<open>HINCRBYFLOAT\<close> compute
  with floating-point numbers; of these types the key layout that \<^verbatim>\<open>DEL\<close> and expiry use is modelled. Streams and JSON
  documents go through reflection-based encoders. The start-up cleanup, the blocking pops, rename, dump and
  the dispatcher of replicated commands are not modelled yet. The server, the sentinel, the gossip and migration of
  the cluster, backup, metrics and the programs are sockets, timers, files and goroutines around the operations.
\<close>

end
